(* ===== verification/Prelude.thy ===== *)
theory Prelude
  imports Main "HOL-Library.Word" "HOL-Library.Monad_Syntax"
begin

text \<open>
  What the component theories share: machine words, C strings, checked array accesses,
  the allocation oracle, the character classes of the C locale, and the generic lemmas
  on lists and words that carry the component proofs.

  Conventions.
  \<^item> The target is the one the sources are built for: 8-bit signed \<^verbatim>\<open>char\<close>, 32-bit
    \<^verbatim>\<open>int\<close>, 64-bit \<^verbatim>\<open>long\<close> and \<^verbatim>\<open>size_t\<close>.
  \<^item> A NUL-terminated C string is the list of its characters before the terminator; a
    \<^verbatim>\<open>char *\<close> that may be NULL is a \<^typ>\<open>string option\<close>.
  \<^item> \<^const>\<open>None\<close> as the result of an operation in the option monad stands for
    behaviour the C standard leaves undefined (an access outside an array, a free of a
    pointer that was never allocated) and for a loop that does not return.
\<close>

unbundle bit_operations_syntax

section \<open>Machine words and C strings\<close>

type_synonym u8 = "8 word"
type_synonym u16 = "16 word"
type_synonym u32 = "32 word"
type_synonym u64 = "64 word"

type_synonym cptr = "string option"

text \<open>
  A \<^verbatim>\<open>const char *\<close> handed back by a lookup: NULL or a string, or the marker
  \<^verbatim>\<open>(char *) -1\<close> that \<^verbatim>\<open>iniparser.c\<close> passes as a default no stored value can equal.
\<close>

datatype cval = Ptr cptr | PtrM1

named_theorems array_simps \<open>checked array accesses\<close>
named_theorems char_simps \<open>characters of the C locale\<close>

definition byte_of_char :: "char \<Rightarrow> u8" where
  "byte_of_char c = of_nat (of_char c)"

definition char_of_byte :: "u8 \<Rightarrow> char" where
  "char_of_byte b = char_of (unat b)"

definition schar32 :: "char \<Rightarrow> u32" where
  "schar32 c = scast (byte_of_char c)"

definition isspace :: "char \<Rightarrow> bool" where
  "isspace c \<longleftrightarrow> c = CHR '' '' \<or> c = CHR 0x09 \<or> c = CHR 0x0A \<or> c = CHR 0x0B
     \<or> c = CHR 0x0C \<or> c = CHR 0x0D"

definition tolower :: "char \<Rightarrow> char" where
  "tolower c = (let b = (of_char c :: nat) in
     if 65 \<le> b \<and> b \<le> 90 then char_of (b + 32) else c)"

section \<open>Checked array accesses\<close>

definition aget :: "'a list \<Rightarrow> nat \<Rightarrow> 'a option" where
  "aget xs i = (if i < length xs then Some (xs ! i) else None)"

definition aset :: "'a list \<Rightarrow> nat \<Rightarrow> 'a \<Rightarrow> 'a list option" where
  "aset xs i v = (if i < length xs then Some (xs[i := v]) else None)"

lemma aget_in [array_simps]: "i < length xs \<Longrightarrow> aget xs i = Some (xs ! i)"
  by (simp add: aget_def)

lemma aset_in [array_simps]: "i < length xs \<Longrightarrow> aset xs i v = Some (xs[i := v])"
  by (simp add: aset_def)

section \<open>The allocation oracle\<close>

text \<open>
  Each call of \<^verbatim>\<open>malloc\<close> or \<^verbatim>\<open>calloc\<close> takes the next outcome from a list: true for a
  block, false for NULL. An exhausted list stands for an allocator that succeeds from
  then on, so the empty list is the allocator that never fails.
\<close>

type_synonym alloc = "bool list"

fun malloc :: "alloc \<Rightarrow> bool \<times> alloc" where
  "malloc [] = (True, [])"
| "malloc (b # bs) = (b, bs)"

section \<open>Bytes and characters\<close>

lemma unat_byte_of_char [char_simps]: "unat (byte_of_char c) = of_char c"
  by (simp add: byte_of_char_def unat_of_nat)

lemma char_of_byte_of_char [simp]: "char_of_byte (byte_of_char c) = c"
  by (simp add: char_of_byte_def unat_byte_of_char)

lemma unat_mod_256: "unat (b :: u8) mod 256 = unat b"
  using unsigned_less[of b] by (intro mod_less) simp

lemma byte_of_char_of_byte [simp]: "byte_of_char (char_of_byte b) = b"
  by (simp add: char_of_byte_def byte_of_char_def unat_mod_256)

lemma byte_of_char_inj: "byte_of_char c = byte_of_char d \<longleftrightarrow> c = d"
  by (metis char_of_byte_of_char)

lemma schar32_inj: "schar32 c = schar32 d \<longleftrightarrow> c = d"
proof
  assume "schar32 c = schar32 d"
  then have "sint (scast (byte_of_char c) :: u32) = sint (scast (byte_of_char d) :: u32)"
    by (simp add: schar32_def)
  then have "sint (byte_of_char c) = sint (byte_of_char d)"
    by (simp add: sint_up_scast is_up)
  then have "byte_of_char c = byte_of_char d" by (rule signed_word_eqI)
  then show "c = d" by (simp add: byte_of_char_inj)
qed simp

section \<open>Injective word mixers\<close>

text \<open>
  Adding a left-shifted copy multiplies by an odd number; xoring with a right-shifted copy
  is undone from the top bit down. Both keep distinct words distinct.
\<close>

lemma one_plus_nilpotent_inj:
  fixes x y c :: "'a::len word"
  assumes "c ^ k = 0" and "x + c * x = y + c * y"
  shows "x = y"
proof -
  have "x - y + c * (x - y) = 0"
    using assms(2) by (simp add: algebra_simps) 
  then have d: "x - y = (- c) * (x - y)"
    by (simp add: eq_neg_iff_add_eq_0)
  have "x - y = (- c) ^ m * (x - y)" for m
  proof (induction m)
    case (Suc m)
    have "(- c) ^ Suc m * (x - y) = (- c) ^ m * ((- c) * (x - y))"
      by (simp only: power_Suc2 mult.assoc)
    also have "\<dots> = (- c) ^ m * (x - y)" by (simp only: d [symmetric])
    also have "\<dots> = x - y" by (rule Suc [symmetric])
    finally show ?case by simp
  qed simp
  then have "x - y = (- c) ^ k * (x - y)" .
  also have "(- c) ^ k = 0" using assms(1) by (metis mult_zero_right power_minus)
  finally show ?thesis by simp
qed

lemma xor_shift_inj:
  fixes x y :: "'a::len word"
  assumes n: "0 < n" and eq: "x XOR drop_bit n x = y XOR drop_bit n y"
  shows "x = y"
proof (rule bit_word_eqI)
  fix i
  let ?z = "x XOR y"
  have step: "bit ?z i = bit ?z (n + i)" for i
  proof -
    have "bit (x XOR drop_bit n x) i = bit (y XOR drop_bit n y) i" using eq by simp
    then show ?thesis by (auto simp: bit_xor_iff bit_drop_bit_eq)
  qed
  have "bit ?z i = bit ?z (m * n + i)" for m
    by (induction m) (use step in \<open>auto simp: add.assoc\<close>)
  then have "bit ?z i = bit ?z (LENGTH('a) * n + i)" .
  moreover have "LENGTH('a) \<le> LENGTH('a) * n + i" using n by (simp add: trans_le_add1)
  then have "\<not> bit ?z (LENGTH('a) * n + i)" using bit_imp_le_length leD by blast
  ultimately have "\<not> bit ?z i" by simp
  then show "bit x i \<longleftrightarrow> bit y i" by (simp add: bit_xor_iff)
qed
lemma add_push_bit_inj:
  fixes x y :: "'a::len word"
  assumes n: "0 < n" and eq: "x + push_bit n x = y + push_bit n y"
  shows "x = y"
proof (rule one_plus_nilpotent_inj)
  have "(2 ^ n :: 'a word) ^ LENGTH('a) = 2 ^ LENGTH('a) * 2 ^ (LENGTH('a) * (n - 1))"
    using n by (metis (no_types) Suc_diff_1 mult_Suc_right power_add power_mult mult.commute)
  then show "(2 ^ n :: 'a word) ^ LENGTH('a) = 0" by simp
  show "x + 2 ^ n * x = y + 2 ^ n * y"
    using eq by (simp add: push_bit_eq_mult mult.commute)
qed

end
