(* ===== verification/CLib.thy ===== *)
theory CLib
  imports Prelude
begin

text \<open>
  The functions of the C library that the modelled sources call, as functions on strings:
  NUL termination, padding and decimal output of the \<^verbatim>\<open>printf\<close> family, the \<^verbatim>\<open>strtol\<close> family
  with base 0, substring searches, and line input by \<^verbatim>\<open>fgets\<close>.
\<close>

section \<open>Terminated strings and formatted output\<close>

definition NUL :: char where "NUL = CHR 0x00"
definition LF :: char where "LF = CHR 0x0A"
definition TAB :: char where "TAB = CHR 0x09"
definition DQUOTE :: char where "DQUOTE = CHR 0x22"
definition SQUOTE :: char where "SQUOTE = CHR 0x27"
definition BSLASH :: char where "BSLASH = CHR 0x5C"

lemmas char_names = NUL_def LF_def TAB_def DQUOTE_def SQUOTE_def BSLASH_def

text \<open>The string a buffer holds: its bytes up to the first NUL.\<close>

definition cstr :: "string \<Rightarrow> string" where
  "cstr bs = takeWhile (\<lambda>c. c \<noteq> NUL) bs"

definition pad_left :: "nat \<Rightarrow> string \<Rightarrow> string" where
  "pad_left w s = replicate (w - length s) (CHR '' '') @ s"

definition pad_right :: "nat \<Rightarrow> string \<Rightarrow> string" where
  "pad_right w s = s @ replicate (w - length s) (CHR '' '')"

definition digit_char :: "nat \<Rightarrow> char" where
  "digit_char d = (if d < 10 then char_of (48 + d) else char_of (87 + d))"

fun nat_dec :: "nat \<Rightarrow> string" where
  "nat_dec n = (if n < 10 then [digit_char n] else nat_dec (n div 10) @ [digit_char (n mod 10)])"

declare nat_dec.simps [simp del]

text \<open>\<^verbatim>\<open>%d\<close>\<close>

definition int_dec :: "int \<Rightarrow> string" where
  "int_dec i = (if i < 0 then CHR ''-'' # nat_dec (nat (- i)) else nat_dec (nat i))"

section \<open>Numbers read from strings\<close>

definition digit_val :: "char \<Rightarrow> nat option" where
  "digit_val c = (let b = (of_char c :: nat) in
     if 48 \<le> b \<and> b \<le> 57 then Some (b - 48)
     else if 97 \<le> b \<and> b \<le> 122 then Some (b - 87)
     else if 65 \<le> b \<and> b \<le> 90 then Some (b - 55)
     else None)"

fun digits_val :: "nat \<Rightarrow> nat \<Rightarrow> string \<Rightarrow> nat" where
  "digits_val base acc [] = acc"
| "digits_val base acc (c # cs) =
     (case digit_val c of
        Some v \<Rightarrow> if v < base then digits_val base (acc * base + v) cs else acc
      | None \<Rightarrow> acc)"

definition is_xdigit :: "char \<Rightarrow> bool" where
  "is_xdigit c = (case digit_val c of Some v \<Rightarrow> v < 16 | None \<Rightarrow> False)"

fun scan_base0 :: "string \<Rightarrow> nat" where
  "scan_base0 (a # x # c # cs) =
     (if a = CHR ''0'' \<and> (x = CHR ''x'' \<or> x = CHR ''X'') \<and> is_xdigit c
      then digits_val 16 0 (c # cs)
      else if a = CHR ''0'' then digits_val 8 0 (x # c # cs)
      else digits_val 10 0 (a # x # c # cs))"
| "scan_base0 (a # cs) = (if a = CHR ''0'' then digits_val 8 0 cs else digits_val 10 0 (a # cs))"
| "scan_base0 [] = 0"

text \<open>Sign and magnitude of the longest numeral at the start, base 0.\<close>

definition scan_integer :: "string \<Rightarrow> bool \<times> nat" where
  "scan_integer s =
     (case dropWhile isspace s of
        [] \<Rightarrow> (False, 0)
      | c # cs \<Rightarrow> if c = CHR ''-'' then (True, scan_base0 cs)
                  else if c = CHR ''+'' then (False, scan_base0 cs)
                  else (False, scan_base0 (c # cs)))"

definition LONG_MAX :: int where "LONG_MAX = 2 ^ 63 - 1"
definition LONG_MIN :: int where "LONG_MIN = - (2 ^ 63)"

definition strtol0 :: "string \<Rightarrow> int" where
  "strtol0 s = (let (neg, m) = scan_integer s; v = (if neg then - int m else int m) in
     if v > LONG_MAX then LONG_MAX else if v < LONG_MIN then LONG_MIN else v)"

definition strtoul0 :: "string \<Rightarrow> nat" where
  "strtoul0 s = (let (neg, m) = scan_integer s in
     if m \<ge> 2 ^ 64 then 2 ^ 64 - 1 else if neg then (2 ^ 64 - m) mod 2 ^ 64 else m)"

section \<open>Line input\<close>

text \<open>
  One \<^verbatim>\<open>fgets\<close> with room for \<^verbatim>\<open>m\<close> characters: the characters read, the rest of the stream,
  and whether the end of the file was met.
\<close>

fun fgets_chunk :: "nat \<Rightarrow> string \<Rightarrow> string \<times> string \<times> bool" where
  "fgets_chunk 0 xs = ([], xs, False)"
| "fgets_chunk (Suc m) [] = ([], [], True)"
| "fgets_chunk (Suc m) (c # cs) =
     (if c = LF then ([c], cs, False)
      else (let (l, r, e) = fgets_chunk m cs in (c # l, r, e)))"

lemma fgets_chunk_append: "fgets_chunk m xs = (l, r, e) \<Longrightarrow> xs = l @ r"
  by (induction m xs arbitrary: l r e rule: fgets_chunk.induct) (auto split: if_splits prod.splits)

lemma fgets_chunk_length: "fgets_chunk m xs = (l, r, e) \<Longrightarrow> length l \<le> m"
  by (induction m xs arbitrary: l r e rule: fgets_chunk.induct) (auto split: if_splits prod.splits)

lemma fgets_chunk_LF: "fgets_chunk m xs = (l, r, e) \<Longrightarrow> LF \<notin> set (butlast l)"
  by (induction m xs arbitrary: l r e rule: fgets_chunk.induct)
     (auto split: if_splits prod.splits)

lemma fgets_chunk_progress: "fgets_chunk (Suc m) xs = (l, r, e) \<Longrightarrow> l = [] \<longleftrightarrow> xs = []"
  by (cases xs) (auto split: if_splits prod.splits)

lemma fgets_chunk_line:
  "LF \<notin> set xs \<Longrightarrow> length xs < m \<Longrightarrow> fgets_chunk m (xs @ LF # ys) = (xs @ [LF], ys, False)"
proof (induction xs arbitrary: m)
  case Nil
  then show ?case by (cases m) auto
next
  case (Cons x xs)
  then show ?case by (cases m) auto
qed

section \<open>Decimal output and input\<close>

lemma of_char_digit: "d < 10 \<Longrightarrow> (of_char (digit_char d) :: nat) = 48 + d"
  by (simp add: digit_char_def)

lemma digit_val_digit_char: "d < 10 \<Longrightarrow> digit_val (digit_char d) = Some d"
  by (simp add: digit_val_def of_char_digit Let_def)

lemma digits_val_append:
  "\<forall>c \<in> set xs. \<exists>v < base. digit_val c = Some v \<Longrightarrow>
   digits_val base acc (xs @ ys) = digits_val base (digits_val base acc xs) ys"
  by (induction xs arbitrary: acc) auto

lemma nat_dec_digits: "\<forall>c \<in> set (nat_dec n). \<exists>v < 10. digit_val c = Some v"
proof (induction n rule: nat_dec.induct)
  case (1 n)
  then show ?case
    by (subst nat_dec.simps) (auto simp: digit_val_digit_char)
qed

lemma digits_val_nat_dec: "digits_val 10 0 (nat_dec n) = n"
proof (induction n rule: nat_dec.induct)
  case (1 n)
  show ?case
  proof (cases "n < 10")
    case True
    then show ?thesis by (subst nat_dec.simps) (simp add: digit_val_digit_char)
  next
    case False
    have "digits_val 10 0 (nat_dec (n div 10) @ [digit_char (n mod 10)]) =
        digits_val 10 (n div 10) [digit_char (n mod 10)]"
      using nat_dec_digits[of "n div 10"] "1.IH"[OF False] by (simp add: digits_val_append)
    with False show ?thesis by (subst nat_dec.simps) (simp add: digit_val_digit_char)
  qed
qed

lemma nat_dec_nonempty: "nat_dec n \<noteq> []"
  by (subst nat_dec.simps) simp

lemma nat_dec_hd: "0 < n \<Longrightarrow> \<exists>d. 0 < d \<and> d < 10 \<and> hd (nat_dec n) = digit_char d"
proof (induction n rule: nat_dec.induct)
  case (1 n)
  show ?case
  proof (cases "n < 10")
    case True
    with "1.prems" show ?thesis by (subst nat_dec.simps) auto
  next
    case False
    with "1.IH" have "\<exists>d. 0 < d \<and> d < 10 \<and> hd (nat_dec (n div 10)) = digit_char d"
      by simp
    with False show ?thesis
      by (subst nat_dec.simps) (simp add: nat_dec_nonempty)
  qed
qed

end
