(* ===== verification/Dictionary.thy ===== *)
theory Dictionary
  imports CLib
begin

text \<open>
  The string dictionary of \<^verbatim>\<open>iniparser-main/dictionary.c\<close>: the three parallel arrays of
  keys, values and hashes, every operation of the file with its allocation failures, the
  well-formedness invariant, the abstraction to a map from keys to values, and the
  contract the parser of \<^verbatim>\<open>iniparser.c\<close> relies on.
\<close>

section \<open>State\<close>

text \<open>
  \<^verbatim>\<open>struct _dictionary_\<close>. The arrays are lists; a NULL entry is \<^const>\<open>None\<close>. The entry
  count is a natural number: it is at most the storage size, far below the range of
  \<^verbatim>\<open>unsigned\<close> for any table that fits in memory.
\<close>

record dictionary =
  d_n :: nat
  d_size :: nat
  d_val :: "string option list"
  d_key :: "string option list"
  d_hash :: "u32 list"

definition DICTMINSZ :: nat where
  "DICTMINSZ = 128"

section \<open>Operations\<close>

fun xstrdup :: "cptr \<Rightarrow> alloc \<Rightarrow> cptr \<times> alloc" where
  "xstrdup None al = (None, al)"
| "xstrdup (Some s) al = (let (ok, al') = malloc al in (if ok then Some s else None, al'))"

text \<open>
  All three blocks are requested before the results are looked at. The copies read the
  first \<^verbatim>\<open>size\<close> entries of the old arrays, which must be there.
\<close>

definition dictionary_grow :: "dictionary \<Rightarrow> alloc \<Rightarrow> ((int \<times> dictionary) \<times> alloc) option" where
  "dictionary_grow d al =
     (let (ok_val, al1) = malloc al; (ok_key, al2) = malloc al1; (ok_hash, al3) = malloc al2 in
      if \<not> ok_val \<or> \<not> ok_key \<or> \<not> ok_hash then Some ((-1, d), al3)
      else if length (d_val d) < d_size d \<or> length (d_key d) < d_size d
              \<or> length (d_hash d) < d_size d then None
      else Some ((0, d\<lparr>d_size := d_size d * 2,
                      d_val := take (d_size d) (d_val d) @ replicate (d_size d) None,
                      d_key := take (d_size d) (d_key d) @ replicate (d_size d) None,
                      d_hash := take (d_size d) (d_hash d) @ replicate (d_size d) 0\<rparr>), al3))"

fun hash_loop :: "u32 \<Rightarrow> string \<Rightarrow> u32" where
  "hash_loop hash [] = hash"
| "hash_loop hash (c # cs) =
     (let h1 = hash + schar32 c;
          h2 = h1 + push_bit 10 h1;
          h3 = h2 XOR drop_bit 6 h2
      in hash_loop h3 cs)"

definition dictionary_hash :: "cptr \<Rightarrow> u32" where
  "dictionary_hash key =
     (case key of None \<Rightarrow> 0
      | Some s \<Rightarrow>
          (let h0 = hash_loop 0 s;
               h1 = h0 + push_bit 3 h0;
               h2 = h1 XOR drop_bit 11 h1;
               h3 = h2 + push_bit 15 h2
           in h3))"

text \<open>
  \<^verbatim>\<open>dictionary_new\<close> tests \<^verbatim>\<open>size\<close>, \<^verbatim>\<open>val\<close> and \<^verbatim>\<open>hash\<close>, not \<^verbatim>\<open>key\<close>, and on a failure hands
  \<^verbatim>\<open>(void *) d->size\<close> to \<^verbatim>\<open>free\<close>: a number that no allocation returned, so the outcome is
  undefined (\<^const>\<open>None\<close>). When only the key array could not be allocated, the result
  is a dictionary whose key array is NULL, here the empty list.
\<close>

definition dictionary_new :: "nat \<Rightarrow> alloc \<Rightarrow> (dictionary option \<times> alloc) option" where
  "dictionary_new sz al =
     (let size = (if sz < DICTMINSZ then DICTMINSZ else sz);
          (ok_d, al1) = malloc al in
      if \<not> ok_d then Some (None, al1)
      else
        (let (ok_val, al2) = malloc al1; (ok_key, al3) = malloc al2; (ok_hash, al4) = malloc al3 in
         if size = 0 \<or> \<not> ok_val \<or> \<not> ok_hash then None
         else Some (Some \<lparr>d_n = 0, d_size = size,
                          d_val = replicate size None,
                          d_key = (if ok_key then replicate size None else []),
                          d_hash = replicate size 0\<rparr>, al4)))"

text \<open>
  \<^verbatim>\<open>dictionary_del\<close> releases the key and the value of every slot, then the three arrays
  and the object; the result is the sequence of blocks handed to \<^verbatim>\<open>free\<close>.
\<close>

datatype block = StrBlock string | ValArray | KeyArray | HashArray | DictObject

function dict_del_loop :: "dictionary \<Rightarrow> nat \<Rightarrow> block list option" where
  "dict_del_loop d i =
     (if i < d_size d then
        do { k \<leftarrow> aget (d_key d) i;
             v \<leftarrow> aget (d_val d) i;
             rest \<leftarrow> dict_del_loop d (Suc i);
             Some ((case k of None \<Rightarrow> [] | Some s \<Rightarrow> [StrBlock s]) @
                   (case v of None \<Rightarrow> [] | Some s \<Rightarrow> [StrBlock s]) @ rest) }
      else Some [])"
  by pat_completeness auto
termination
  by (relation "measure (\<lambda>(d, i). d_size d - i)") auto

definition dictionary_del :: "dictionary option \<Rightarrow> block list option" where
  "dictionary_del dp =
     (case dp of None \<Rightarrow> Some []
      | Some d \<Rightarrow>
          do { strs \<leftarrow> dict_del_loop d 0;
               Some (strs @ [ValArray, KeyArray, HashArray, DictObject]) })"

text \<open>
  The search loop that \<^verbatim>\<open>dictionary_get\<close>, \<^verbatim>\<open>dictionary_set\<close> and \<^verbatim>\<open>dictionary_unset\<close> share:
  the index at which it stops, \<^verbatim>\<open>size\<close> when the key is not there.
\<close>

function dict_search :: "dictionary \<Rightarrow> u32 \<Rightarrow> string \<Rightarrow> nat \<Rightarrow> nat option" where
  "dict_search d hash key i =
     (if i < d_size d then
        do { k \<leftarrow> aget (d_key d) i;
             (case k of
                None \<Rightarrow> dict_search d hash key (Suc i)
              | Some s \<Rightarrow>
                  do { h \<leftarrow> aget (d_hash d) i;
                       if hash = h \<and> key = s then Some i
                       else dict_search d hash key (Suc i) }) }
      else Some i)"
  by pat_completeness auto
termination
  by (relation "measure (\<lambda>(d, hash, key, i). d_size d - i)") auto

definition dictionary_get :: "dictionary option \<Rightarrow> cptr \<Rightarrow> cval \<Rightarrow> cval option" where
  "dictionary_get dp key def =
     (case (dp, key) of
        (Some d, Some s) \<Rightarrow>
          do { i \<leftarrow> dict_search d (dictionary_hash key) s 0;
               if i < d_size d then do { v \<leftarrow> aget (d_val d) i; Some (Ptr v) } else Some def }
      | _ \<Rightarrow> Some def)"

text \<open>
  The probe for a free slot of \<^verbatim>\<open>dictionary_set\<close>: start at \<^verbatim>\<open>n\<close>, wrap at \<^verbatim>\<open>size\<close>. On a full
  table it does not return.
\<close>

partial_function (option) dict_probe :: "dictionary \<Rightarrow> nat \<Rightarrow> nat option" where
  "dict_probe d i =
     do { k \<leftarrow> aget (d_key d) i;
          (case k of
             None \<Rightarrow> Some i
           | Some _ \<Rightarrow> dict_probe d (if Suc i = d_size d then 0 else Suc i)) }"

definition dict_store :: "dictionary \<Rightarrow> nat \<Rightarrow> cptr \<Rightarrow> alloc \<Rightarrow> (dictionary \<times> alloc) option" where
  "dict_store d i val al =
     (let (v, al') = xstrdup val al in
      do { vs \<leftarrow> aset (d_val d) i v; Some (d\<lparr>d_val := vs\<rparr>, al') })"

definition dict_insert :: "dictionary \<Rightarrow> string \<Rightarrow> u32 \<Rightarrow> cptr \<Rightarrow> alloc \<Rightarrow> (dictionary \<times> alloc) option" where
  "dict_insert d key hash val al =
     do { i \<leftarrow> dict_probe d (d_n d);
          let (k, al1) = xstrdup (Some key) al;
          ks \<leftarrow> aset (d_key d) i k;
          let (v, al2) = xstrdup val al1;
          vs \<leftarrow> aset (d_val d) i v;
          hs \<leftarrow> aset (d_hash d) i hash;
          Some (d\<lparr>d_key := ks, d_val := vs, d_hash := hs, d_n := d_n d + 1\<rparr>, al2) }"

definition dictionary_set ::
    "dictionary option \<Rightarrow> cptr \<Rightarrow> cptr \<Rightarrow> alloc \<Rightarrow> ((int \<times> dictionary option) \<times> alloc) option" where
  "dictionary_set dp key val al =
     (case (dp, key) of
        (Some d, Some s) \<Rightarrow>
          (let hash = dictionary_hash key in
           do { found \<leftarrow> (if d_n d > 0 then dict_search d hash s 0 else Some (d_size d));
                if found < d_size d then
                  do { (d', al') \<leftarrow> dict_store d found val al; Some ((0, Some d'), al') }
                else
                  do { ((rc, d1), al1) \<leftarrow>
                         (if d_n d = d_size d then dictionary_grow d al else Some ((0, d), al));
                       if rc \<noteq> 0 then Some ((-1, Some d1), al1)
                       else do { (d2, al2) \<leftarrow> dict_insert d1 s hash val al1;
                                 Some ((0, Some d2), al2) } } })
      | _ \<Rightarrow> Some ((-1, dp), al))"

definition dictionary_unset :: "dictionary option \<Rightarrow> cptr \<Rightarrow> dictionary option option" where
  "dictionary_unset dp key =
     (case (dp, key) of
        (Some d, Some s) \<Rightarrow>
          do { i \<leftarrow> dict_search d (dictionary_hash key) s 0;
               if d_size d \<le> i then Some dp
               else
                 do { ks \<leftarrow> aset (d_key d) i None;
                      vs \<leftarrow> aset (d_val d) i None;
                      hs \<leftarrow> aset (d_hash d) i 0;
                      Some (Some (d\<lparr>d_key := ks, d_val := vs, d_hash := hs, d_n := d_n d - 1\<rparr>)) } }
      | _ \<Rightarrow> Some dp)"

text \<open>
  \<^verbatim>\<open>dictionary_dump\<close> appends to an open file; the file is its contents so far, \<^const>\<open>None\<close>
  for a NULL pointer. \<^verbatim>\<open>%20s\<close> pads on the left to twenty columns.
\<close>

function dict_dump_loop :: "dictionary \<Rightarrow> nat \<Rightarrow> string option" where
  "dict_dump_loop d i =
     (if i < d_size d then
        do { k \<leftarrow> aget (d_key d) i;
             rest \<leftarrow> dict_dump_loop d (Suc i);
             (case k of
                None \<Rightarrow> Some rest
              | Some s \<Rightarrow>
                  do { v \<leftarrow> aget (d_val d) i;
                       Some (pad_left 20 s @ [CHR 0x09] @ ''['' @
                             (case v of None \<Rightarrow> ''UNDEF'' | Some t \<Rightarrow> t) @ '']'' @ [CHR 0x0A] @ rest) }) }
      else Some [])"
  by pat_completeness auto
termination
  by (relation "measure (\<lambda>(d, i). d_size d - i)") auto

definition dictionary_dump :: "dictionary option \<Rightarrow> string option \<Rightarrow> string option option" where
  "dictionary_dump dp out =
     (case (dp, out) of
        (Some d, Some f) \<Rightarrow>
          (if d_n d < 1 then Some (Some (f @ ''empty dictionary'' @ [CHR 0x0A]))
           else do { s \<leftarrow> dict_dump_loop d 0; Some (Some (f @ s)) })
      | _ \<Rightarrow> Some out)"


declare dict_search.simps [simp del] dict_del_loop.simps [simp del] dict_dump_loop.simps [simp del]

section \<open>Invariant and abstraction\<close>

definition used :: "string option list \<Rightarrow> string option list" where
  "used ks = filter (\<lambda>k. k \<noteq> None) ks"

lemma used_Nil [simp]: "used [] = []"
  and used_None [simp]: "used (None # ks) = used ks"
  and used_Some [simp]: "used (Some k # ks) = Some k # used ks"
  by (simp_all add: used_def)

lemma set_used [simp]: "Some k \<in> set (used ks) \<longleftrightarrow> Some k \<in> set ks"
  and used_append [simp]: "used (ks @ ls) = used ks @ used ls"
  and used_replicate [simp]: "used (replicate m None) = []"
  by (auto simp: used_def filter_empty_conv)

definition dict_wf :: "dictionary \<Rightarrow> bool" where
  "dict_wf d \<longleftrightarrow>
     0 < d_size d \<and> length (d_key d) = d_size d \<and> length (d_val d) = d_size d \<and>
     length (d_hash d) = d_size d \<and> d_n d = length (used (d_key d)) \<and> distinct (used (d_key d)) \<and>
     (\<forall>i < d_size d. case d_key d ! i of
          None \<Rightarrow> d_val d ! i = None
        | Some s \<Rightarrow> d_hash d ! i = dictionary_hash (Some s))"

fun slots_map :: "string option list \<Rightarrow> string option list \<Rightarrow> (string \<rightharpoonup> string option)" where
  "slots_map (Some k # ks) (v # vs) = (slots_map ks vs)(k \<mapsto> v)"
| "slots_map (None # ks) (v # vs) = slots_map ks vs"
| "slots_map _ _ = Map.empty"

definition dict_abs :: "dictionary \<Rightarrow> (string \<rightharpoonup> string option)" where
  "dict_abs d = slots_map (d_key d) (d_val d)"

subsection \<open>Slots\<close>

lemma slots_map_None_iff:
  "length ks = length vs \<Longrightarrow> slots_map ks vs k = None \<longleftrightarrow> Some k \<notin> set ks"
  by (induction ks vs rule: slots_map.induct) auto

lemma slots_map_nth:
  "length ks = length vs \<Longrightarrow> distinct (used ks) \<Longrightarrow> i < length ks \<Longrightarrow> ks ! i = Some k \<Longrightarrow>
   slots_map ks vs k = Some (vs ! i)"
proof (induction ks vs arbitrary: i rule: slots_map.induct)
  case (1 k' ks v vs)
  then show ?case
    by (cases i) (auto, metis nth_mem)
next
  case (2 ks v vs)
  then show ?case by (cases i) auto
qed auto

lemma slots_map_insert:
  "length ks = length vs \<Longrightarrow> i < length ks \<Longrightarrow> ks ! i = None \<Longrightarrow> Some k \<notin> set ks \<Longrightarrow>
   slots_map (ks[i := Some k]) (vs[i := v]) = (slots_map ks vs)(k \<mapsto> v)"
  by (induction ks vs arbitrary: i rule: slots_map.induct)
     (auto simp: fun_upd_twist split: nat.splits)

lemma slots_map_replace:
  "length ks = length vs \<Longrightarrow> distinct (used ks) \<Longrightarrow> i < length ks \<Longrightarrow> ks ! i = Some k \<Longrightarrow>
   slots_map ks (vs[i := v]) = (slots_map ks vs)(k \<mapsto> v)"
proof (induction ks vs arbitrary: i rule: slots_map.induct)
  case (1 k' ks v' vs)
  then show ?case
    by (cases i) (auto simp: fun_eq_iff, (metis nth_mem)+)
qed (auto split: nat.splits)

lemma slots_map_delete:
  "length ks = length vs \<Longrightarrow> distinct (used ks) \<Longrightarrow> i < length ks \<Longrightarrow> ks ! i = Some k \<Longrightarrow>
   slots_map (ks[i := None]) (vs[i := v]) = (slots_map ks vs)(k := None)"
proof (induction ks vs arbitrary: i rule: slots_map.induct)
  case (1 k' ks v' vs)
  then show ?case
    by (cases i) (auto simp: fun_eq_iff slots_map_None_iff, (metis nth_mem)+)
qed (auto split: nat.splits)

lemma slots_map_free: "slots_map (replicate m None) vs = Map.empty"
proof (induction m arbitrary: vs)
  case (Suc m)
  then show ?case by (cases vs) auto
qed simp

lemma slots_map_pad:
  "length ks = length vs \<Longrightarrow>
   slots_map (ks @ replicate m None) (vs @ replicate m None) = slots_map ks vs"
  by (induction ks vs rule: slots_map.induct) (auto simp: slots_map_free)

lemma used_insert:
  "i < length ks \<Longrightarrow> ks ! i = None \<Longrightarrow> length (used (ks[i := Some k])) = Suc (length (used ks))"
  by (induction ks arbitrary: i) (auto simp: used_def split: nat.splits)

lemma used_delete:
  "i < length ks \<Longrightarrow> ks ! i = Some k \<Longrightarrow> Suc (length (used (ks[i := None]))) = length (used ks)"
  by (induction ks arbitrary: i) (auto simp: used_def split: nat.splits)

lemma distinct_used_insert:
  "distinct (used ks) \<Longrightarrow> Some k \<notin> set ks \<Longrightarrow> ks ! i = None \<Longrightarrow> i < length ks \<Longrightarrow>
   distinct (used (ks[i := Some k]))"
proof (induction ks arbitrary: i)
  case (Cons a ks)
  then show ?case
    by (cases i) (auto simp: used_def dest!: set_update_subset_insert [THEN subsetD])
qed simp

lemma distinct_used_delete:
  "distinct (used ks) \<Longrightarrow> distinct (used (ks[i := None]))"
proof (induction ks arbitrary: i)
  case (Cons a ks)
  then show ?case
    by (cases i) (auto simp: used_def split: if_splits dest!: set_update_subset_insert [THEN subsetD])
qed simp

lemma used_le: "length (used ks) \<le> length ks"
  by (simp add: used_def)

lemma free_slot:
  assumes "length (used ks) < length ks"
  shows "\<exists>j < length ks. ks ! j = None"
proof (rule ccontr)
  assume "\<not> ?thesis"
  then have "\<forall>k \<in> set ks. k \<noteq> None" by (metis in_set_conv_nth)
  then have "used ks = ks" by (simp add: used_def)
  with assms show False by simp
qed

subsection \<open>The search loop and the probe\<close>

lemma dict_wfD:
  assumes "dict_wf d"
  shows "0 < d_size d" "length (d_key d) = d_size d" "length (d_val d) = d_size d"
    "length (d_hash d) = d_size d" "d_n d = length (used (d_key d))" "distinct (used (d_key d))"
    "\<And>i s. i < d_size d \<Longrightarrow> d_key d ! i = Some s \<Longrightarrow> d_hash d ! i = dictionary_hash (Some s)"
    "\<And>i. i < d_size d \<Longrightarrow> d_key d ! i = None \<Longrightarrow> d_val d ! i = None"
  using assms by (fastforce simp: dict_wf_def)+

lemma dict_wfI:
  assumes "0 < d_size d" "length (d_key d) = d_size d" "length (d_val d) = d_size d"
    "length (d_hash d) = d_size d" "d_n d = length (used (d_key d))" "distinct (used (d_key d))"
    "\<And>i s. i < d_size d \<Longrightarrow> d_key d ! i = Some s \<Longrightarrow> d_hash d ! i = dictionary_hash (Some s)"
    "\<And>i. i < d_size d \<Longrightarrow> d_key d ! i = None \<Longrightarrow> d_val d ! i = None"
  shows "dict_wf d"
  using assms by (auto simp: dict_wf_def split: option.splits)

lemma dict_search_from:
  assumes "dict_wf d" and "i \<le> d_size d"
  shows "\<exists>r. dict_search d (dictionary_hash (Some s)) s i = Some r \<and> i \<le> r \<and> r \<le> d_size d \<and>
     (r < d_size d \<longrightarrow> d_key d ! r = Some s) \<and>
     (\<forall>j. i \<le> j \<and> j < r \<longrightarrow> d_key d ! j \<noteq> Some s)"
  using assms(2)
proof (induction "d_size d - i" arbitrary: i)
  case 0
  then show ?case by (subst dict_search.simps) auto
next
  case (Suc m)
  then have i: "i < d_size d" by simp
  have "m = d_size d - Suc i" using Suc(2) by simp
  from Suc(1)[OF this] i obtain r where
    r: "dict_search d (dictionary_hash (Some s)) s (Suc i) = Some r" "Suc i \<le> r" "r \<le> d_size d"
       "r < d_size d \<longrightarrow> d_key d ! r = Some s" "\<forall>j. Suc i \<le> j \<and> j < r \<longrightarrow> d_key d ! j \<noteq> Some s"
    by auto
  show ?case
  proof (cases "d_key d ! i = Some s")
    case True
    then show ?thesis
      using i dict_wfD[OF assms(1)]
      by (intro exI[of _ i], subst dict_search.simps) (auto simp: array_simps)
  next
    case False
    then have "dict_search d (dictionary_hash (Some s)) s i = Some r"
      using i r(1) dict_wfD[OF assms(1)]
      by (subst dict_search.simps) (auto simp: array_simps split: option.splits)
    moreover have "d_key d ! j \<noteq> Some s" if "i \<le> j" "j < r" for j
      using that False r(5) by (cases "i = j") auto
    ultimately show ?thesis using r by (intro exI[of _ r]) auto
  qed
qed

lemma dict_search_wf [consumes 1, case_names hit miss]:
  assumes "dict_wf d"
  obtains (hit) r where "dict_search d (dictionary_hash (Some s)) s 0 = Some r" "r < d_size d"
      "d_key d ! r = Some s"
  | (miss) "dict_search d (dictionary_hash (Some s)) s 0 = Some (d_size d)" "Some s \<notin> set (d_key d)"
proof -
  from dict_search_from[OF assms, of 0 s] obtain r where
    r: "dict_search d (dictionary_hash (Some s)) s 0 = Some r" "r \<le> d_size d"
       "r < d_size d \<longrightarrow> d_key d ! r = Some s" "\<forall>j < r. d_key d ! j \<noteq> Some s"
    by auto
  show thesis
  proof (cases "r < d_size d")
    case True
    with r show ?thesis by (intro hit) auto
  next
    case False
    with r have "r = d_size d" by simp
    with r dict_wfD(2)[OF assms] show ?thesis
      by (intro miss) (auto simp: in_set_conv_nth)
  qed
qed

lemma dict_probe_reaches:
  assumes len: "length (d_key d) = d_size d" and free: "j < d_size d" "d_key d ! j = None"
  shows "i < d_size d \<Longrightarrow> \<exists>r. dict_probe d i = Some r \<and> r < d_size d \<and> d_key d ! r = None"
proof (induction "(d_size d + j - i) mod d_size d" arbitrary: i rule: less_induct)
  case less
  show ?case
  proof (cases "d_key d ! i")
    case None
    then show ?thesis
      using less.prems len by (intro exI[of _ i]) (simp add: dict_probe.simps[of d i] array_simps)
  next
    case (Some t)
    let ?i = "if Suc i = d_size d then 0 else Suc i"
    have neq: "i \<noteq> j" using Some free by auto
    have "(d_size d + j - ?i) mod d_size d < (d_size d + j - i) mod d_size d"
    proof (cases "i < j")
      case True
      then have "(d_size d + j - i) mod d_size d = j - i"
        using free by (simp add: mod_if)
      moreover have "(d_size d + j - Suc i) mod d_size d = j - Suc i"
        using free True by (simp add: mod_if)
      ultimately show ?thesis using True free by auto
    next
      case False
      then have "(d_size d + j - i) mod d_size d = d_size d + j - i"
        using neq less.prems by (simp add: mod_if)
      then show ?thesis using False neq free less.prems by (auto simp: mod_if)
    qed
    moreover have "?i < d_size d" using less.prems by auto
    ultimately obtain r where "dict_probe d ?i = Some r" "r < d_size d" "d_key d ! r = None"
      using less.hyps by blast
    then show ?thesis
      using Some less.prems len by (intro exI[of _ r]) (simp add: dict_probe.simps[of d i] array_simps)
  qed
qed


section \<open>What the operations do\<close>

lemma dict_abs_None_iff: "dict_wf d \<Longrightarrow> dict_abs d k = None \<longleftrightarrow> Some k \<notin> set (d_key d)"
  using dict_wfD(2,3)[of d] by (simp add: dict_abs_def slots_map_None_iff)

lemma dict_abs_nth: "dict_wf d \<Longrightarrow> i < d_size d \<Longrightarrow> d_key d ! i = Some k \<Longrightarrow> dict_abs d k = Some (d_val d ! i)"
  using dict_wfD(2,3,6)[of d] by (simp add: dict_abs_def slots_map_nth)

lemma dictionary_get_abs:
  assumes wf: "dict_wf d"
  shows "dictionary_get (Some d) (Some k) def = Some (case dict_abs d k of None \<Rightarrow> def | Some v \<Rightarrow> Ptr v)"
  using wf
proof (cases rule: dict_search_wf[where s = k])
  case (hit r)
  then show ?thesis
    using dict_abs_nth[OF wf hit(2,3)] dict_wfD(3)[OF wf]
    by (simp add: dictionary_get_def array_simps)
next
  case miss
  then have "dict_abs d k = None" using dict_abs_None_iff[OF wf] by blast
  with miss show ?thesis by (simp add: dictionary_get_def)
qed

lemma dictionary_new_wf:
  "\<exists>d. dictionary_new sz [] = Some (Some d, []) \<and> dict_wf d \<and> dict_abs d = Map.empty \<and> d_n d = 0
     \<and> d_size d = max sz DICTMINSZ"
  by (auto simp: dictionary_new_def DICTMINSZ_def dict_wf_def dict_abs_def slots_map_free max_def)

lemma dict_grow_wf:
  assumes wf: "dict_wf d" and g: "dictionary_grow d al = Some ((rc, d'), al')"
  shows "rc = 0 \<and> dict_wf d' \<and> dict_abs d' = dict_abs d \<and> d_size d' = d_size d * 2 \<and> d_n d' = d_n d
           \<and> set (d_key d') - {None} = set (d_key d) - {None}
         \<or> rc = -1 \<and> d' = d"
proof (cases "rc = 0")
  case True
  with g wf have d': "d' = d\<lparr>d_size := d_size d * 2,
                      d_val := d_val d @ replicate (d_size d) None,
                      d_key := d_key d @ replicate (d_size d) None,
                      d_hash := d_hash d @ replicate (d_size d) 0\<rparr>"
    by (auto simp: dictionary_grow_def Let_def dict_wfD split: prod.splits if_splits)
  have "dict_wf d'"
    using dict_wfD[OF wf]
    by (intro dict_wfI) (auto simp: d' nth_append split: if_splits)
  moreover have "dict_abs d' = dict_abs d"
    by (simp add: d' dict_abs_def slots_map_pad dict_wfD[OF wf])
  ultimately show ?thesis using True d' by (auto simp: set_replicate_conv_if)
next
  case False
  with g show ?thesis
    by (auto simp: dictionary_grow_def Let_def split: prod.splits if_splits)
qed

lemma dict_grow_returns:
  "dict_wf d \<Longrightarrow> \<exists>rc d' al'. dictionary_grow d al = Some ((rc, d'), al')"
  by (auto simp: dictionary_grow_def Let_def dict_wfD split: prod.splits)

lemma dict_store_wf:
  assumes wf: "dict_wf d" and i: "i < d_size d" "d_key d ! i = Some k"
  shows "\<exists>d'. dict_store d i v al = Some (d', snd (xstrdup v al)) \<and> dict_wf d' \<and>
           dict_abs d' = (dict_abs d)(k \<mapsto> fst (xstrdup v al))"
proof -
  obtain w al' where x: "xstrdup v al = (w, al')" by fastforce
  let ?d = "d\<lparr>d_val := (d_val d)[i := w]\<rparr>"
  have "dict_store d i v al = Some (?d, al')"
    using i dict_wfD[OF wf] by (simp add: dict_store_def x array_simps)
  moreover have "dict_wf ?d"
    using dict_wfD[OF wf] i by (intro dict_wfI) (auto simp: nth_list_update)
  moreover have "dict_abs ?d = (dict_abs d)(k \<mapsto> w)"
    using dict_wfD[OF wf] i by (simp add: dict_abs_def slots_map_replace)
  ultimately show ?thesis using x by auto
qed

lemma dict_insert_result:
  assumes wf: "dict_wf d" and room: "d_n d < d_size d"
  shows "\<exists>i. i < d_size d \<and> d_key d ! i = None \<and>
     dict_insert d k h v al =
       (let (kd, al1) = xstrdup (Some k) al; (vd, al2) = xstrdup v al1 in
        Some (d\<lparr>d_key := (d_key d)[i := kd], d_val := (d_val d)[i := vd],
                d_hash := (d_hash d)[i := h], d_n := d_n d + 1\<rparr>, al2))"
proof -
  note wfd = dict_wfD[OF wf]
  from room wfd obtain j where "j < d_size d" "d_key d ! j = None"
    using free_slot by metis
  from dict_probe_reaches[OF wfd(2) this room] obtain i where
    "dict_probe d (d_n d) = Some i" "i < d_size d" "d_key d ! i = None" by blast
  then show ?thesis
    using wfd by (intro exI[of _ i]) (auto simp: dict_insert_def array_simps Let_def split: prod.splits)
qed

lemma dict_insert_wf:
  assumes wf: "dict_wf d" and room: "d_n d < d_size d" and new: "Some k \<notin> set (d_key d)"
    and dup: "xstrdup (Some k) al = (Some k, al1)"
  shows "\<exists>d'. dict_insert d k (dictionary_hash (Some k)) v al = Some (d', snd (xstrdup v al1)) \<and>
           dict_wf d' \<and> dict_abs d' = (dict_abs d)(k \<mapsto> fst (xstrdup v al1))"
proof -
  note wfd = dict_wfD[OF wf]
  obtain w al2 where x: "xstrdup v al1 = (w, al2)" by fastforce
  from dict_insert_result[OF wf room, of k "dictionary_hash (Some k)" v al]
  obtain i where i: "i < d_size d" "d_key d ! i = None" and
    eq: "dict_insert d k (dictionary_hash (Some k)) v al =
       Some (d\<lparr>d_key := (d_key d)[i := Some k], d_val := (d_val d)[i := w],
               d_hash := (d_hash d)[i := dictionary_hash (Some k)], d_n := d_n d + 1\<rparr>, al2)"
    (is "_ = Some (?d, _)")
    by (auto simp: dup x simp del: xstrdup.simps)
  have "dict_wf ?d"
    using wfd i new
    by (intro dict_wfI) (auto simp: used_insert distinct_used_insert nth_list_update split: if_splits)
  moreover have "dict_abs ?d = (dict_abs d)(k \<mapsto> w)"
    using wfd i new by (simp add: dict_abs_def slots_map_insert)
  ultimately show ?thesis using eq x by simp
qed


lemma alloc_ok_malloc: "list_all id al \<Longrightarrow> malloc al = (True, tl al)"
  by (cases al) auto

lemma alloc_ok_xstrdup: "list_all id al \<Longrightarrow> xstrdup v al = (v, if v = None then al else tl al)"
  by (cases v) (auto simp: alloc_ok_malloc)

lemma alloc_ok_tl: "list_all id al \<Longrightarrow> list_all id (tl al)"
  by (cases al) auto

lemma dict_n_pos: "dict_wf d \<Longrightarrow> Some k \<in> set (d_key d) \<Longrightarrow> 0 < d_n d"
  using dict_wfD(5)[of d] by (auto simp: used_def filter_empty_conv)

text \<open>The two outcomes of the search in \<^verbatim>\<open>dictionary_set\<close>.\<close>

lemma dict_set_found_cases [consumes 1, case_names hit miss]:
  assumes wf: "dict_wf d"
  obtains (hit) i where "(if d_n d > 0 then dict_search d (dictionary_hash (Some k)) k 0 else Some (d_size d)) = Some i"
      "i < d_size d" "d_key d ! i = Some k"
  | (miss) "(if d_n d > 0 then dict_search d (dictionary_hash (Some k)) k 0 else Some (d_size d)) = Some (d_size d)"
      "Some k \<notin> set (d_key d)"
  using wf
proof (cases rule: dict_search_wf[where s = k])
  case (hit r)
  moreover from this have "Some k \<in> set (d_key d)" using dict_wfD(2)[OF wf] by (metis nth_mem)
  ultimately show ?thesis using that(1)[of r] dict_n_pos[OF wf] by simp
next
  case miss
  then show ?thesis by (intro that(2)) simp_all
qed

lemma dictionary_set_hit:
  assumes wf: "dict_wf d" and k: "Some k \<in> set (d_key d)"
  shows "\<exists>d'. dictionary_set (Some d) (Some k) v al = Some ((0, Some d'), snd (xstrdup v al)) \<and>
           dict_wf d' \<and> dict_abs d' = (dict_abs d)(k \<mapsto> fst (xstrdup v al))"
  using wf
proof (cases rule: dict_set_found_cases[where k = k])
  case (hit i)
  from dict_store_wf[OF wf hit(2,3), of v al] hit show ?thesis
    by (fastforce simp: dictionary_set_def Let_def)
qed (use k in simp)

lemma dictionary_set_miss:
  assumes wf: "dict_wf d" and k: "Some k \<notin> set (d_key d)"
    and grow: "(if d_n d = d_size d then dictionary_grow d al else Some ((0, d), al)) = Some ((rc, d1), al1)"
  shows "dictionary_set (Some d) (Some k) v al =
     (if rc \<noteq> 0 then Some ((-1, Some d1), al1)
      else do { (d2, al2) \<leftarrow> dict_insert d1 k (dictionary_hash (Some k)) v al1; Some ((0, Some d2), al2) })"
  using wf
proof (cases rule: dict_set_found_cases[where k = k])
  case (hit i)
  with k dict_wfD(2)[OF wf] show ?thesis by (metis nth_mem)
next
  case miss
  then show ?thesis by (simp add: dictionary_set_def Let_def grow)
qed

lemma dict_set_room:
  assumes wf: "dict_wf d"
    and grow: "(if d_n d = d_size d then dictionary_grow d al else Some ((0, d), al)) = Some ((0, d1), al1)"
  shows "dict_wf d1" "d_n d1 < d_size d1" "dict_abs d1 = dict_abs d"
    "Some k \<notin> set (d_key d) \<Longrightarrow> Some k \<notin> set (d_key d1)"
proof -
  have le: "d_n d \<le> d_size d" using dict_wfD(2,5)[OF wf] used_le by metis
  have "dict_wf d1 \<and> d_n d1 < d_size d1 \<and> dict_abs d1 = dict_abs d
     \<and> set (d_key d1) - {None} = set (d_key d) - {None}"
  proof (cases "d_n d = d_size d")
    case True
    with grow have "dictionary_grow d al = Some ((0, d1), al1)" by simp
    from dict_grow_wf[OF wf this] True dict_wfD(1)[OF wf] show ?thesis by auto
  next
    case False
    with grow le wf show ?thesis by auto
  qed
  then show "dict_wf d1" "d_n d1 < d_size d1" "dict_abs d1 = dict_abs d"
    "Some k \<notin> set (d_key d) \<Longrightarrow> Some k \<notin> set (d_key d1)" by auto
qed

lemma dict_set_grow_returns:
  assumes "dict_wf d"
  obtains rc d1 al1 where
    "(if d_n d = d_size d then dictionary_grow d al else Some ((0, d), al)) = Some ((rc, d1), al1)"
    "rc = 0 \<or> rc = -1 \<and> d1 = d"
proof (cases "d_n d = d_size d")
  case True
  from dict_grow_returns[OF assms] obtain rc d1 al1 where g: "dictionary_grow d al = Some ((rc, d1), al1)"
    by blast
  from dict_grow_wf[OF assms g] g True show ?thesis by (intro that[of rc d1 al1]) auto
next
  case False
  then show ?thesis by (intro that[of 0 d al]) auto
qed

lemma dictionary_set_returns:
  assumes wf: "dict_wf d"
  shows "\<exists>rc d' al'. dictionary_set (Some d) (Some k) v al = Some ((rc, Some d'), al') \<and>
           (rc = 0 \<or> rc = -1 \<and> d' = d)"
proof (cases "Some k \<in> set (d_key d)")
  case True
  from dictionary_set_hit[OF wf this] show ?thesis by blast
next
  case False
  obtain rc d1 al1 where g: "(if d_n d = d_size d then dictionary_grow d al else Some ((0, d), al)) = Some ((rc, d1), al1)"
    and rc: "rc = 0 \<or> rc = -1 \<and> d1 = d" by (rule dict_set_grow_returns[OF wf])
  show ?thesis
  proof (cases "rc = 0")
    case True
    note room = dict_set_room[OF wf g[unfolded True]]
    obtain kd al2 vd al3 where "xstrdup (Some k) al1 = (kd, al2)" "xstrdup v al2 = (vd, al3)"
      by fastforce
    with dict_insert_result[OF room(1,2), of k "dictionary_hash (Some k)" v al1] True show ?thesis
      by (auto simp: dictionary_set_miss[OF wf False g] simp del: xstrdup.simps)
  next
    case nz: False
    with rc show ?thesis by (auto simp: dictionary_set_miss[OF wf False g])
  qed
qed

lemma dictionary_set_abs:
  assumes wf: "dict_wf d" and al: "list_all id al"
  shows "\<exists>d' al'. dictionary_set (Some d) (Some k) v al = Some ((0, Some d'), al') \<and>
           dict_wf d' \<and> dict_abs d' = (dict_abs d)(k \<mapsto> v) \<and> list_all id al'"
proof (cases "Some k \<in> set (d_key d)")
  case True
  from dictionary_set_hit[OF wf this, of v al] al show ?thesis
    by (auto simp: alloc_ok_xstrdup alloc_ok_tl split: if_splits)
next
  case False
  obtain d1 al1 where g: "(if d_n d = d_size d then dictionary_grow d al else Some ((0, d), al)) = Some ((0, d1), al1)"
    and al1: "list_all id al1"
    using al dict_wfD(2,3,4)[OF wf]
    by (cases "d_n d = d_size d") (auto simp: dictionary_grow_def alloc_ok_malloc alloc_ok_tl Let_def)
  note room = dict_set_room[OF wf g]
  from dict_insert_wf[OF room(1,2) room(4)[OF False] alloc_ok_xstrdup[OF al1], of v] al1
  show ?thesis
    by (auto simp: dictionary_set_miss[OF wf False g] alloc_ok_xstrdup alloc_ok_tl room(3))
qed

lemma dictionary_unset_abs:
  assumes wf: "dict_wf d"
  shows "\<exists>d'. dictionary_unset (Some d) (Some k) = Some (Some d') \<and> dict_wf d' \<and>
           dict_abs d' = (dict_abs d)(k := None)"
  using wf
proof (cases rule: dict_search_wf[where s = k])
  case (hit i)
  note wfd = dict_wfD[OF wf]
  let ?d = "d\<lparr>d_key := (d_key d)[i := None], d_val := (d_val d)[i := None],
              d_hash := (d_hash d)[i := 0], d_n := d_n d - 1\<rparr>"
  have "dictionary_unset (Some d) (Some k) = Some (Some ?d)"
    using hit wfd by (simp add: dictionary_unset_def array_simps)
  moreover have "dict_wf ?d"
    using wfd hit used_delete[of i "d_key d" k]
    by (intro dict_wfI) (auto simp: distinct_used_delete nth_list_update split: if_splits)
  moreover have "dict_abs ?d = (dict_abs d)(k := None)"
    using wfd hit by (simp add: dict_abs_def slots_map_delete)
  ultimately show ?thesis by blast
next
  case miss
  then have "dict_abs d k = None" using dict_abs_None_iff[OF wf] by blast
  then have "(dict_abs d)(k := None) = dict_abs d" by auto
  with miss wf show ?thesis by (auto simp: dictionary_unset_def)
qed


section \<open>The hash\<close>

definition hash_mix :: "u32 \<Rightarrow> u32" where
  "hash_mix h = (h + push_bit 10 h) XOR drop_bit 6 (h + push_bit 10 h)"

lemma hash_loop_Cons: "hash_loop h (c # cs) = hash_loop (hash_mix (h + schar32 c)) cs"
  by (simp only: hash_loop.simps hash_mix_def Let_def)

lemma hash_mix_inj: "hash_mix a = hash_mix b \<Longrightarrow> a = b"
  unfolding hash_mix_def
  by (rule add_push_bit_inj[of 10], simp, rule xor_shift_inj[of 6]) simp_all

lemma hash_loop_inj: "hash_loop a cs = hash_loop b cs \<Longrightarrow> a = b"
proof (induction cs arbitrary: a b)
  case (Cons c cs)
  then have "hash_mix (a + schar32 c) = hash_mix (b + schar32 c)"
    by (simp only: hash_loop_Cons)
  then show ?case by (auto dest: hash_mix_inj)
qed simp

lemma hash_loop_append: "hash_loop h (xs @ ys) = hash_loop (hash_loop h xs) ys"
  by (induction xs arbitrary: h) (simp_all add: hash_loop_Cons del: hash_loop.simps(2))

lemma hash_loop_one_char: "hash_loop h (c # ys) = hash_loop h (c' # ys) \<Longrightarrow> c = c'"
  unfolding hash_loop_Cons by (auto simp: schar32_inj dest!: hash_loop_inj hash_mix_inj)

lemma dictionary_hash_final_inj:
  assumes "dictionary_hash (Some s) = dictionary_hash (Some t)"
  shows "hash_loop 0 s = hash_loop 0 t"
proof -
  define f where "f h = (h + push_bit 3 h) XOR drop_bit 11 (h + push_bit 3 h)" for h :: u32
  from assms have eq: "f (hash_loop 0 s) + push_bit 15 (f (hash_loop 0 s)) =
      f (hash_loop 0 t) + push_bit 15 (f (hash_loop 0 t))"
    by (simp only: dictionary_hash_def Let_def option.case f_def)
  have eq2: "f (hash_loop 0 s) = f (hash_loop 0 t)"
    by (rule add_push_bit_inj[OF _ eq]) simp
  have eq3: "hash_loop 0 s + push_bit 3 (hash_loop 0 s) = hash_loop 0 t + push_bit 3 (hash_loop 0 t)"
    by (rule xor_shift_inj[OF _ eq2[unfolded f_def]]) simp
  show ?thesis by (rule add_push_bit_inj[OF _ eq3]) simp
qed

section \<open>Walks over all slots\<close>

definition opt_blocks :: "cptr \<Rightarrow> block list" where
  "opt_blocks p = (case p of None \<Rightarrow> [] | Some s \<Rightarrow> [StrBlock s])"

definition dump_line :: "string \<Rightarrow> cptr \<Rightarrow> string" where
  "dump_line k v = pad_left 20 k @ [CHR 0x09] @ ''['' @
     (case v of None \<Rightarrow> ''UNDEF'' | Some t \<Rightarrow> t) @ '']'' @ [CHR 0x0A]"

lemma zip_drop_step:
  "i < length ks \<Longrightarrow> i < length vs \<Longrightarrow>
   drop i (zip ks vs) = (ks ! i, vs ! i) # drop (Suc i) (zip ks vs)"
  by (subst Cons_nth_drop_Suc[symmetric]) simp_all

lemma dict_del_loop_from:
  assumes "dict_wf d"
  shows "i \<le> d_size d \<Longrightarrow> dict_del_loop d i =
     Some (concat (map (\<lambda>(k, v). opt_blocks k @ opt_blocks v) (drop i (zip (d_key d) (d_val d)))))"
proof (induction "d_size d - i" arbitrary: i)
  case 0
  then show ?case using dict_wfD(2,3)[OF assms] by (subst dict_del_loop.simps) simp
next
  case (Suc m)
  then have i: "i < d_size d" and m: "m = d_size d - Suc i" by simp_all
  show ?case
    using i Suc(1)[OF m] dict_wfD(2,3)[OF assms]
    by (subst dict_del_loop.simps) (simp add: array_simps zip_drop_step opt_blocks_def)
qed

lemma dict_dump_loop_from:
  assumes "dict_wf d"
  shows "i \<le> d_size d \<Longrightarrow> dict_dump_loop d i =
     Some (concat (map (\<lambda>(k, v). case k of None \<Rightarrow> [] | Some s \<Rightarrow> dump_line s v)
                  (drop i (zip (d_key d) (d_val d)))))"
proof (induction "d_size d - i" arbitrary: i)
  case 0
  then show ?case using dict_wfD(2,3)[OF assms] by (subst dict_dump_loop.simps) simp
next
  case (Suc m)
  then have i: "i < d_size d" and m: "m = d_size d - Suc i" by simp_all
  show ?case
    using i Suc(1)[OF m] dict_wfD(2,3)[OF assms]
    by (subst dict_dump_loop.simps) (simp add: array_simps zip_drop_step dump_line_def split: option.splits)
qed

section \<open>The contract of a string store\<close>

text \<open>
  What a client may rely on: a well-formedness predicate that every operation keeps, the
  contents as a map from keys to values (a value may itself be NULL), and the effect of
  each operation on the contents.
\<close>

locale string_store =
  fixes wf :: "'d \<Rightarrow> bool"
    and content :: "'d \<Rightarrow> (string \<rightharpoonup> cptr)"
    and get :: "'d \<Rightarrow> string \<Rightarrow> cval \<Rightarrow> cval option"
    and put :: "'d \<Rightarrow> string \<Rightarrow> cptr \<Rightarrow> 'd option"
    and remove :: "'d \<Rightarrow> string \<Rightarrow> 'd option"
  assumes get_content: "wf d \<Longrightarrow> get d k def = Some (case content d k of None \<Rightarrow> def | Some v \<Rightarrow> Ptr v)"
    and put_content: "wf d \<Longrightarrow> \<exists>d'. put d k v = Some d' \<and> wf d' \<and> content d' = (content d)(k \<mapsto> v)"
    and remove_content: "wf d \<Longrightarrow> \<exists>d'. remove d k = Some d' \<and> wf d' \<and> content d' = (content d)(k := None)"
begin

fun put_all :: "'d \<Rightarrow> (string \<times> cptr) list \<Rightarrow> 'd option" where
  "put_all d [] = Some d"
| "put_all d ((k, v) # kvs) = do { d' \<leftarrow> put d k v; put_all d' kvs }"

lemma get_after_put:
  assumes "wf d"
  shows "do { d' \<leftarrow> put d k v; get d' k' def } = (if k' = k then Some (Ptr v) else get d k' def)"
proof -
  from put_content[OF assms] obtain d' where "put d k v = Some d'" "wf d'"
    "content d' = (content d)(k \<mapsto> v)" by blast
  with assms show ?thesis by (simp add: get_content)
qed

lemma get_after_remove:
  assumes "wf d"
  shows "do { d' \<leftarrow> remove d k; get d' k' def } = (if k' = k then Some def else get d k' def)"
proof -
  from remove_content[OF assms] obtain d' where "remove d k = Some d'" "wf d'"
    "content d' = (content d)(k := None)" by blast
  with assms show ?thesis by (simp add: get_content)
qed

lemma put_all_content:
  "wf d \<Longrightarrow> \<exists>d'. put_all d kvs = Some d' \<and> wf d' \<and> content d' = content d ++ map_of (rev kvs)"
proof (induction kvs arbitrary: d)
  case (Cons kv kvs)
  obtain k v where kv: "kv = (k, v)" by fastforce
  from put_content[OF Cons.prems] obtain d1 where d1: "put d k v = Some d1" "wf d1"
    "content d1 = (content d)(k \<mapsto> v)" by blast
  from Cons.IH[OF d1(2)] obtain d' where
    "put_all d1 kvs = Some d'" "wf d'" "content d' = content d1 ++ map_of (rev kvs)" by blast
  with d1 kv show ?case by (auto simp: map_add_def fun_eq_iff split: option.splits)
qed simp

end

text \<open>The store operations of the dictionary when no allocation fails.\<close>

definition dict_put :: "dictionary \<Rightarrow> string \<Rightarrow> cptr \<Rightarrow> dictionary option" where
  "dict_put d k v =
     do { ((rc, dp), _) \<leftarrow> dictionary_set (Some d) (Some k) v [];
          if rc = 0 then dp else None }"

definition dict_remove :: "dictionary \<Rightarrow> string \<Rightarrow> dictionary option" where
  "dict_remove d k = do { dp \<leftarrow> dictionary_unset (Some d) (Some k); dp }"

interpretation dict: string_store dict_wf dict_abs
  "\<lambda>d k def. dictionary_get (Some d) (Some k) def" dict_put dict_remove
proof unfold_locales
  fix d k v
  assume wf: "dict_wf d"
  show "\<exists>d'. dict_put d k v = Some d' \<and> dict_wf d' \<and> dict_abs d' = (dict_abs d)(k \<mapsto> v)"
    using dictionary_set_abs[OF wf, of "[]" k v] by (auto simp: dict_put_def)
  show "\<exists>d'. dict_remove d k = Some d' \<and> dict_wf d' \<and> dict_abs d' = (dict_abs d)(k := None)"
    using dictionary_unset_abs[OF wf, of k] by (auto simp: dict_remove_def)
qed (rule dictionary_get_abs)


section \<open>Runs of operations\<close>

text \<open>
  A client program as a sequence of calls, run on the dictionary and on the map it stands
  for.
\<close>

datatype dict_op = SetOp string cptr | UnsetOp string

fun dict_exec :: "dictionary option \<Rightarrow> dict_op \<Rightarrow> dictionary option option" where
  "dict_exec dp (SetOp k v) = map_option (\<lambda>((rc, dp'), al). dp') (dictionary_set dp (Some k) v [])"
| "dict_exec dp (UnsetOp k) = dictionary_unset dp (Some k)"

fun dict_run :: "dictionary option \<Rightarrow> dict_op list \<Rightarrow> dictionary option option" where
  "dict_run dp [] = Some dp"
| "dict_run dp (p # ops) = do { dp' \<leftarrow> dict_exec dp p; dict_run dp' ops }"

fun map_exec :: "(string \<rightharpoonup> cptr) \<Rightarrow> dict_op \<Rightarrow> (string \<rightharpoonup> cptr)" where
  "map_exec m (SetOp k v) = m(k \<mapsto> v)"
| "map_exec m (UnsetOp k) = m(k := None)"

lemma dict_exec_abs:
  assumes "dict_wf d"
  shows "\<exists>d'. dict_exec (Some d) p = Some (Some d') \<and> dict_wf d' \<and> dict_abs d' = map_exec (dict_abs d) p"
  using dictionary_set_abs[OF assms, of "[]"] dictionary_unset_abs[OF assms]
  by (cases p) (auto, metis)

lemma dict_run_abs:
  "dict_wf d \<Longrightarrow>
   \<exists>d'. dict_run (Some d) ops = Some (Some d') \<and> dict_wf d' \<and> dict_abs d' = fold (\<lambda>p m. map_exec m p) ops (dict_abs d)"
proof (induction ops arbitrary: d)
  case (Cons p ops)
  from dict_exec_abs[OF Cons.prems] obtain d1 where d1: "dict_exec (Some d) p = Some (Some d1)"
    "dict_wf d1" "dict_abs d1 = map_exec (dict_abs d) p" by blast
  from Cons.IH[OF d1(2)] d1 show ?case by auto
qed simp

section \<open>Properties\<close>


text \<open>
  C33. Total correctness of \<^verbatim>\<open>dictionary_set\<close> under any allocator: on a well-formed
  dictionary the call returns 0 or -1 (the wrapping probe always ends), and -1 leaves the
  dictionary as it was, as the documentation of \<^verbatim>\<open>dictionary_grow\<close> promises.
\<close>

theorem dictionary_set_total:
  assumes "dict_wf d"
  shows "\<exists>rc d' al'. dictionary_set (Some d) (Some k) v al = Some ((rc, Some d'), al') \<and>
           (rc = 0 \<or> rc = -1 \<and> d' = d)"
  using assms by (rule dictionary_set_returns)

definition dict_example :: dictionary where
  "dict_example = \<lparr>d_n = 1, d_size = 1, d_val = [Some ''v''], d_key = [Some ''a''],
                   d_hash = [dictionary_hash (Some ''a'')]\<rparr>"

lemma dict_example_wf: "dict_wf dict_example"
  by (simp add: dict_example_def dict_wf_def)

theorem dictionary_set_total_witness:
  "dict_wf dict_example \<and>
   (\<exists>rc d' al'. dictionary_set (Some dict_example) (Some ''b'') None [True, False] = Some ((rc, Some d'), al') \<and>
      (rc = 0 \<or> rc = -1 \<and> d' = dict_example))"
  using dictionary_set_total[OF dict_example_wf, of "''b''" None "[True, False]"] dict_example_wf by blast

text \<open>
  The laws a client uses, with the effect on every other key: after a successful
  \<^verbatim>\<open>dictionary_set\<close> the key reads back the value, also a NULL one, and every other key reads
  what it read before.
\<close>

theorem dictionary_get_set:
  assumes "dict_wf d"
  shows "do { d' \<leftarrow> dict_put d k v; dictionary_get (Some d') (Some k') def } =
     (if k' = k then Some (Ptr v) else dictionary_get (Some d) (Some k') def)"
  using assms by (rule dict.get_after_put)

theorem dictionary_get_set_witness:
  "dict_wf dict_example \<and>
   do { d' \<leftarrow> dict_put dict_example ''b'' (Some ''w''); dictionary_get (Some d') (Some ''b'') PtrM1 } = Some (Ptr (Some ''w''))"
  using dictionary_get_set[OF dict_example_wf, of "''b''" "Some ''w''" "''b''" PtrM1] dict_example_wf by simp

text \<open>
  An unreported loss: when the copy of a new key cannot be allocated,
  \<^verbatim>\<open>dictionary_set\<close> still returns 0, although nothing was stored (the contents are
  unchanged) and the entry count no longer matches the slots in use, so the dictionary is
  left ill formed.
\<close>

theorem dictionary_set_lost_key:
  assumes wf: "dict_wf d" and new: "dict_abs d k = None" and room: "d_n d < d_size d"
  shows "\<exists>d' al'. dictionary_set (Some d) (Some k) None (False # al) = Some ((0, Some d'), al') \<and>
           dict_abs d' = dict_abs d \<and> d_n d' = d_n d + 1 \<and> \<not> dict_wf d'"
proof -
  have k: "Some k \<notin> set (d_key d)" using new dict_abs_None_iff[OF wf] by blast
  have g: "(if d_n d = d_size d then dictionary_grow d (False # al) else Some ((0, d), False # al)) = Some ((0, d), False # al)"
    using room by simp
  from dict_insert_result[OF wf room, of k "dictionary_hash (Some k)" None "False # al"] obtain i where
    i: "i < d_size d" "d_key d ! i = None" and
    ins: "dict_insert d k (dictionary_hash (Some k)) None (False # al) =
      Some (d\<lparr>d_key := (d_key d)[i := None], d_val := (d_val d)[i := None],
              d_hash := (d_hash d)[i := dictionary_hash (Some k)], d_n := d_n d + 1\<rparr>, al)"
    (is "_ = Some (?d, _)") by auto
  have "(d_key d)[i := None] = d_key d" "(d_val d)[i := None] = d_val d"
    using i dict_wfD(8)[OF wf i] by (metis list_update_id)+
  then show ?thesis
    using dictionary_set_miss[OF wf k g, of None] ins dict_wfD(5)[OF wf]
    by (auto simp: dict_abs_def dict_wf_def)
qed

definition dict_room_example :: dictionary where
  "dict_room_example = \<lparr>d_n = 0, d_size = 1, d_val = [None], d_key = [None], d_hash = [0]\<rparr>"

theorem dictionary_set_lost_key_witness:
  "\<exists>d' al'. dictionary_set (Some dict_room_example) (Some ''k'') None (False # []) = Some ((0, Some d'), al') \<and>
     dict_abs d' = dict_abs dict_room_example \<and> d_n d' = d_n dict_room_example + 1 \<and> \<not> dict_wf d'"
  by (rule dictionary_set_lost_key)
     (simp_all add: dict_room_example_def dict_wf_def dict_abs_def)

text \<open>
  The hash separates neighbouring keys: two keys of equal length that differ in
  exactly one character never collide, wherever the character stands.
\<close>

theorem dictionary_hash_one_char:
  assumes "c \<noteq> c'"
  shows "dictionary_hash (Some (xs @ c # ys)) \<noteq> dictionary_hash (Some (xs @ c' # ys))"
proof
  assume "dictionary_hash (Some (xs @ c # ys)) = dictionary_hash (Some (xs @ c' # ys))"
  then have "hash_loop (hash_loop 0 xs) (c # ys) = hash_loop (hash_loop 0 xs) (c' # ys)"
    by (auto dest!: dictionary_hash_final_inj simp: hash_loop_append simp del: hash_loop.simps)
  with assms show False by (blast dest: hash_loop_one_char)
qed

theorem dictionary_hash_one_char_witness:
  "CHR ''1'' \<noteq> CHR ''2'' \<and>
   dictionary_hash (Some (''dev'' @ CHR ''1'' # '':ip'')) \<noteq> dictionary_hash (Some (''dev'' @ CHR ''2'' # '':ip''))"
  using dictionary_hash_one_char[of "CHR ''1''" "CHR ''2''" "''dev''" "'':ip''"] by simp

text \<open>
  \<^verbatim>\<open>dictionary_del\<close> hands every key and every non-NULL value to \<^verbatim>\<open>free\<close> exactly once,
  slot by slot, then the three arrays and the object, and reads nothing outside the arrays.
\<close>

theorem dictionary_del_frees_all:
  assumes "dict_wf d"
  shows "dictionary_del (Some d) =
     Some (concat (map (\<lambda>(k, v). opt_blocks k @ opt_blocks v) (zip (d_key d) (d_val d))) @
           [ValArray, KeyArray, HashArray, DictObject])"
  using dict_del_loop_from[OF assms, of 0] by (simp add: dictionary_del_def)

theorem dictionary_del_frees_all_witness:
  "dictionary_del (Some dict_example) =
     Some [StrBlock ''a'', StrBlock ''v'', ValArray, KeyArray, HashArray, DictObject]"
  using dictionary_del_frees_all[OF dict_example_wf] by (simp add: dict_example_def opt_blocks_def)

text \<open>
  \<^verbatim>\<open>dictionary_new\<close> does not survive a failed allocation. When the value or the hash
  array cannot be allocated it frees a pointer made from the size (undefined behaviour);
  when only the key array cannot be allocated it reports success with an object on which
  the first lookup dereferences NULL.
\<close>

theorem dictionary_new_failures:
  "dictionary_new sz (True # False # al) = None \<and>
   dictionary_new sz (True # True # True # False # al) = None \<and>
   (\<exists>d. dictionary_new sz (True # True # False # True # al) = Some (Some d, al) \<and>
        dictionary_get (Some d) (Some k) def = None)"
  by (auto simp: dictionary_new_def dictionary_get_def DICTMINSZ_def Let_def aget_def
        dict_search.simps[where i = 0] split: prod.splits)

end
