(* ===== verification/Iniparser.thy ===== *)
theory Iniparser
  imports Dictionary
begin

text \<open>
  The INI file parser of \<^verbatim>\<open>iniparser-main/iniparser.c\<close> on top of the dictionary: string
  helpers, the queries and typed getters, the dump functions, the line parser with the
  \<^verbatim>\<open>sscanf\<close> formats it uses, and the loader with its line buffer, continuation lines and
  error handling.
\<close>

section \<open>String helpers\<close>

definition ASCIILINESZ :: nat where
  "ASCIILINESZ = 1024"

datatype line_status =
  LINE_UNPROCESSED | LINE_ERROR | LINE_EMPTY | LINE_COMMENT | LINE_SECTION | LINE_VALUE

fun strlwc_loop :: "string \<Rightarrow> nat \<Rightarrow> string" where
  "strlwc_loop [] m = []"
| "strlwc_loop (c # cs) 0 = []"
| "strlwc_loop (c # cs) (Suc m) = tolower c # strlwc_loop cs m"

definition strlwc :: "cptr \<Rightarrow> nat \<Rightarrow> cptr" where
  "strlwc inp len =
     (case inp of None \<Rightarrow> None | Some s \<Rightarrow> if len = 0 then None else Some (strlwc_loop s (len - 1)))"

definition strstrip :: "string \<Rightarrow> string" where
  "strstrip s = rev (dropWhile isspace (rev (dropWhile isspace s)))"

definition iniparser_set_error_callback :: "'f \<Rightarrow> 'f option \<Rightarrow> 'f" where
  "iniparser_set_error_callback default_cb errback =
     (case errback of Some f \<Rightarrow> f | None \<Rightarrow> default_cb)"

section \<open>Walking the dictionary\<close>

text \<open>
  The loop header that most queries share: every index from \<^verbatim>\<open>i\<close> below \<^verbatim>\<open>size\<close>, empty slots
  skipped, the body run on the key with the loop's own state.
\<close>

function for_keys :: "dictionary \<Rightarrow> (nat \<Rightarrow> string \<Rightarrow> 's \<Rightarrow> 's option) \<Rightarrow> nat \<Rightarrow> 's \<Rightarrow> 's option" where
  "for_keys d body i s =
     (if i < d_size d then
        do { k \<leftarrow> aget (d_key d) i;
             s' \<leftarrow> (case k of None \<Rightarrow> Some s | Some t \<Rightarrow> body i t s);
             for_keys d body (Suc i) s' }
      else Some s)"
  by pat_completeness auto
termination
  by (relation "measure (\<lambda>(d, body, i, s). d_size d - i)") auto

declare for_keys.simps [simp del]

definition iniparser_getnsec :: "dictionary option \<Rightarrow> int option" where
  "iniparser_getnsec dp =
     (case dp of None \<Rightarrow> Some (-1)
      | Some d \<Rightarrow> for_keys d (\<lambda>i k nsec. Some (if CHR '':'' \<notin> set k then nsec + 1 else nsec)) 0 0)"

text \<open>The loop of \<^verbatim>\<open>iniparser_getsecname\<close> stops at the section it looks for.\<close>

function secname_loop :: "dictionary \<Rightarrow> int \<Rightarrow> nat \<Rightarrow> int \<Rightarrow> (nat \<times> int) option" where
  "secname_loop d n i foundsec =
     (if i < d_size d then
        do { k \<leftarrow> aget (d_key d) i;
             (case k of
                None \<Rightarrow> secname_loop d n (Suc i) foundsec
              | Some s \<Rightarrow>
                  if CHR '':'' \<notin> set s then
                    (if foundsec + 1 > n then Some (i, foundsec + 1)
                     else secname_loop d n (Suc i) (foundsec + 1))
                  else secname_loop d n (Suc i) foundsec) }
      else Some (i, foundsec))"
  by pat_completeness auto
termination
  by (relation "measure (\<lambda>(d, n, i, f). d_size d - i)") auto

declare secname_loop.simps [simp del]

definition iniparser_getsecname :: "dictionary option \<Rightarrow> int \<Rightarrow> cptr option" where
  "iniparser_getsecname dp n =
     (case dp of None \<Rightarrow> Some None
      | Some d \<Rightarrow>
          if n < 0 then Some None
          else do { (i, foundsec) \<leftarrow> secname_loop d n 0 0;
                    if foundsec \<le> n then Some None else aget (d_key d) i })"

text \<open>A file open for writing is its contents so far, \<^const>\<open>None\<close> for a NULL pointer.\<close>

definition iniparser_dump :: "dictionary option \<Rightarrow> string option \<Rightarrow> string option option" where
  "iniparser_dump dp f =
     (case (dp, f) of
        (Some d, Some out) \<Rightarrow>
          map_option Some (for_keys d (\<lambda>i k out.
            do { v \<leftarrow> aget (d_val d) i;
                 Some (out @ ''['' @ k @ '']='' @
                       (case v of Some t \<Rightarrow> ''['' @ t @ '']'' | None \<Rightarrow> ''UNDEF'') @ [LF]) }) 0 out)
      | _ \<Rightarrow> Some f)"

section \<open>Lookup and typed getters\<close>

definition iniparser_getstring :: "dictionary option \<Rightarrow> cptr \<Rightarrow> cval \<Rightarrow> cval option" where
  "iniparser_getstring dp key def =
     (case (dp, key) of
        (Some d, Some k) \<Rightarrow> dictionary_get dp (strlwc key (ASCIILINESZ + 1)) def
      | _ \<Rightarrow> Some def)"

definition iniparser_getlongint :: "dictionary option \<Rightarrow> cptr \<Rightarrow> int \<Rightarrow> int option" where
  "iniparser_getlongint dp key notfound =
     do { str \<leftarrow> iniparser_getstring dp key PtrM1;
          Some (case str of Ptr (Some s) \<Rightarrow> strtol0 s | _ \<Rightarrow> notfound) }"

definition iniparser_getint64 :: "dictionary option \<Rightarrow> cptr \<Rightarrow> int \<Rightarrow> int option" where
  "iniparser_getint64 dp key notfound =
     do { str \<leftarrow> iniparser_getstring dp key PtrM1;
          Some (case str of Ptr (Some s) \<Rightarrow> strtol0 s | _ \<Rightarrow> notfound) }"

definition iniparser_getuint64 :: "dictionary option \<Rightarrow> cptr \<Rightarrow> nat \<Rightarrow> nat option" where
  "iniparser_getuint64 dp key notfound =
     do { str \<leftarrow> iniparser_getstring dp key PtrM1;
          Some (case str of Ptr (Some s) \<Rightarrow> strtoul0 s | _ \<Rightarrow> notfound) }"

text \<open>The conversion of a \<^verbatim>\<open>long\<close> to \<^verbatim>\<open>int\<close> keeps the low 32 bits.\<close>

definition int_cast :: "int \<Rightarrow> int" where
  "int_cast v = sint (word_of_int v :: u32)"

definition iniparser_getint :: "dictionary option \<Rightarrow> cptr \<Rightarrow> int \<Rightarrow> int option" where
  "iniparser_getint dp key notfound =
     do { v \<leftarrow> iniparser_getlongint dp key notfound; Some (int_cast v) }"

text \<open>\<^verbatim>\<open>atof\<close> and the type of doubles are parameters.\<close>

definition iniparser_getdouble ::
    "(string \<Rightarrow> 'd) \<Rightarrow> dictionary option \<Rightarrow> cptr \<Rightarrow> 'd \<Rightarrow> 'd option" where
  "iniparser_getdouble atof dp key notfound =
     do { str \<leftarrow> iniparser_getstring dp key PtrM1;
          Some (case str of Ptr (Some s) \<Rightarrow> atof s | _ \<Rightarrow> notfound) }"

definition iniparser_getboolean :: "dictionary option \<Rightarrow> cptr \<Rightarrow> int \<Rightarrow> int option" where
  "iniparser_getboolean dp key notfound =
     do { c \<leftarrow> iniparser_getstring dp key PtrM1;
          Some (case c of
             Ptr (Some s) \<Rightarrow>
               (case s of [] \<Rightarrow> notfound
                | c0 # _ \<Rightarrow>
                    if c0 \<in> set ''yY1tT'' then 1
                    else if c0 \<in> set ''nN0fF'' then 0
                    else notfound)
           | _ \<Rightarrow> notfound) }"

definition iniparser_find_entry :: "dictionary option \<Rightarrow> cptr \<Rightarrow> bool option" where
  "iniparser_find_entry ini entry =
     do { r \<leftarrow> iniparser_getstring ini entry PtrM1; Some (r \<noteq> PtrM1) }"

definition iniparser_set ::
    "dictionary option \<Rightarrow> cptr \<Rightarrow> cptr \<Rightarrow> alloc \<Rightarrow> ((int \<times> dictionary option) \<times> alloc) option" where
  "iniparser_set ini entry val al =
     dictionary_set ini (strlwc entry (ASCIILINESZ + 1)) (map_option (take ASCIILINESZ) val) al"

definition iniparser_unset :: "dictionary option \<Rightarrow> cptr \<Rightarrow> dictionary option option" where
  "iniparser_unset ini entry = dictionary_unset ini (strlwc entry (ASCIILINESZ + 1))"

section \<open>Section queries\<close>

text \<open>
  The section prefix that \<^verbatim>\<open>iniparser_getsecnkeys\<close> and \<^verbatim>\<open>iniparser_getseckeys\<close> build in a
  buffer of \<^verbatim>\<open>ASCIILINESZ + 1\<close> bytes: the lower-cased name, then a colon stored at index
  \<^verbatim>\<open>seclen\<close>, which must lie in the buffer.
\<close>

definition section_prefix :: "string \<Rightarrow> string option" where
  "section_prefix s =
     (if length s < ASCIILINESZ + 1 then Some (strlwc_loop s ASCIILINESZ @ '':'') else None)"

fun has_prefix :: "string \<Rightarrow> string \<Rightarrow> bool" where
  "has_prefix [] ys = True"
| "has_prefix (x # xs) [] = False"
| "has_prefix (x # xs) (y # ys) = (x = y \<and> has_prefix xs ys)"

definition iniparser_getsecnkeys :: "dictionary option \<Rightarrow> cptr \<Rightarrow> int option" where
  "iniparser_getsecnkeys dp sp =
     (case dp of None \<Rightarrow> Some 0
      | Some d \<Rightarrow>
          do { found \<leftarrow> iniparser_find_entry dp sp;
               if \<not> found then Some 0
               else (case sp of None \<Rightarrow> None | Some s \<Rightarrow>
                 do { keym \<leftarrow> section_prefix s;
                      for_keys d (\<lambda>j k nkeys. Some (if has_prefix keym k then nkeys + 1 else nkeys)) 0 0 }) })"

text \<open>The array handed in by the caller is the list of keys stored so far.\<close>

definition iniparser_getseckeys :: "dictionary option \<Rightarrow> cptr \<Rightarrow> string list option option" where
  "iniparser_getseckeys dp sp =
     (case dp of None \<Rightarrow> Some None
      | Some d \<Rightarrow>
          do { found \<leftarrow> iniparser_find_entry dp sp;
               if \<not> found then Some None
               else (case sp of None \<Rightarrow> None | Some s \<Rightarrow>
                 do { keym \<leftarrow> section_prefix s;
                      ks \<leftarrow> for_keys d (\<lambda>j k ks. Some (if has_prefix keym k then ks @ [k] else ks)) 0 [];
                      Some (Some ks) }) })"

section \<open>Dumping a loadable file\<close>

fun escape_loop :: "string \<Rightarrow> string" where
  "escape_loop [] = []"
| "escape_loop (c # cs) =
     (if c = BSLASH \<or> c = DQUOTE then BSLASH # c # escape_loop cs else c # escape_loop cs)"

text \<open>
  \<^verbatim>\<open>escape_value\<close> writes into a buffer of \<^verbatim>\<open>2 * ASCIILINESZ + 2\<close> bytes; for a NULL value it
  returns at once and the buffer keeps what it held.
\<close>

definition escape_value :: "string \<Rightarrow> cptr \<Rightarrow> string option" where
  "escape_value escaped value =
     (case value of None \<Rightarrow> Some escaped
      | Some s \<Rightarrow> if length (escape_loop s) < 2 * ASCIILINESZ + 2 then Some (escape_loop s) else None)"

text \<open>
  \<^verbatim>\<open>iniparser_dumpsection_ini\<close>: the prefix goes into a buffer of \<^verbatim>\<open>ASCIILINESZ + 1\<close> bytes,
  two more than the section name has characters.
\<close>

definition iniparser_dumpsection_ini :: "dictionary option \<Rightarrow> cptr \<Rightarrow> string option \<Rightarrow> string option option" where
  "iniparser_dumpsection_ini dp sp f =
     (case (dp, f) of
        (Some d, Some out) \<Rightarrow>
          do { found \<leftarrow> iniparser_find_entry dp sp;
               if \<not> found then Some f
               else (case sp of None \<Rightarrow> None | Some s \<Rightarrow>
                 if length s > ASCIILINESZ + 1 then Some f
                 else if length s + 2 > ASCIILINESZ + 1 then None
                 else
                   do { (escaped, out') \<leftarrow> for_keys d (\<lambda>j k (escaped, out).
                          if has_prefix (s @ '':'') k then
                            do { v \<leftarrow> aget (d_val d) j;
                                 escaped' \<leftarrow> escape_value escaped v;
                                 Some (escaped', out @ pad_right 30 (drop (length s + 1) k) @
                                       '' = '' @ [DQUOTE] @ escaped' @ [DQUOTE, LF]) }
                          else Some (escaped, out)) 0 ([], out @ [LF] @ ''['' @ s @ '']'' @ [LF]);
                        Some (Some (out' @ [LF])) }) }
      | _ \<Rightarrow> Some f)"

fun dump_sections :: "dictionary option \<Rightarrow> nat \<Rightarrow> int \<Rightarrow> string option \<Rightarrow> string option option" where
  "dump_sections dp 0 i f = Some f"
| "dump_sections dp (Suc m) i f =
     do { secname \<leftarrow> iniparser_getsecname dp i;
          f' \<leftarrow> iniparser_dumpsection_ini dp secname f;
          dump_sections dp m (i + 1) f' }"

definition iniparser_dump_ini :: "dictionary option \<Rightarrow> string option \<Rightarrow> string option option" where
  "iniparser_dump_ini dp f =
     (case (dp, f) of
        (Some d, Some out) \<Rightarrow>
          do { nsec \<leftarrow> iniparser_getnsec dp;
               if nsec < 1 then
                 do { (escaped, out') \<leftarrow> for_keys d (\<lambda>i k (escaped, out).
                        do { v \<leftarrow> aget (d_val d) i;
                             escaped' \<leftarrow> escape_value escaped v;
                             Some (escaped', out @ k @ '' = '' @ [DQUOTE] @ escaped' @ [DQUOTE, LF]) }) 0 ([], out);
                      Some (Some out') }
               else
                 do { f' \<leftarrow> dump_sections dp (nat nsec) 0 f;
                      Some (map_option (\<lambda>o'. o' @ [LF]) f') } }
      | _ \<Rightarrow> Some f)"

section \<open>The line parser\<close>

fun quoted_loop :: "char \<Rightarrow> bool \<Rightarrow> string \<Rightarrow> string" where
  "quoted_loop quote esc [] = []"
| "quoted_loop quote esc (c # cs) =
     (if \<not> esc \<and> c = BSLASH then quoted_loop quote True cs
      else if \<not> esc \<and> c = quote then []
      else c # quoted_loop quote False cs)"

text \<open>When the copy cannot be allocated the value becomes empty.\<close>

definition parse_quoted_value :: "string \<Rightarrow> char \<Rightarrow> alloc \<Rightarrow> string \<times> alloc" where
  "parse_quoted_value value quote al =
     (case xstrdup (Some value) al of
        (None, al') \<Rightarrow> ([], al')
      | (Some quoted, al') \<Rightarrow> (quoted_loop quote False quoted, al'))"

text \<open>
  The \<^verbatim>\<open>sscanf\<close> calls. Each takes the line and the current contents of the two buffers
  and gives the number of conversions and the new contents: a conversion that did match
  is stored even when a later one fails. A space in a format skips any white space.
\<close>

definition scan_key :: "string \<Rightarrow> string \<times> string" where
  "scan_key line = (takeWhile (\<lambda>c. c \<noteq> CHR ''='') line, dropWhile (\<lambda>c. c \<noteq> CHR ''='') line)"

definition scan_key_eq :: "(string \<Rightarrow> string option) \<Rightarrow> string \<Rightarrow> string \<Rightarrow> string \<Rightarrow> nat \<times> string \<times> string" where
  "scan_key_eq scan_val line key value =
     (let (k, r) = scan_key line in
      if k = [] then (0, key, value)
      else (case dropWhile isspace r of
              c # r' \<Rightarrow>
                if c = CHR ''='' then
                  (case scan_val (dropWhile isspace r') of
                     Some v \<Rightarrow> (2, k, v)
                   | None \<Rightarrow> (1, k, value))
                else (1, k, value)
            | [] \<Rightarrow> (1, k, value)))"

definition nonempty :: "string \<Rightarrow> string option" where
  "nonempty v = (if v = [] then None else Some v)"

definition scan_quoted :: "char \<Rightarrow> string \<Rightarrow> string option" where
  "scan_quoted q r = (case r of c # r' \<Rightarrow> if c = q then nonempty (takeWhile (\<lambda>c. c \<noteq> LF) r') else None | [] \<Rightarrow> None)"

definition scan_plain :: "string \<Rightarrow> string option" where
  "scan_plain r = nonempty (takeWhile (\<lambda>c. c \<noteq> CHR '';'' \<and> c \<noteq> CHR ''#'') r)"

definition scan_comment :: "string \<Rightarrow> string option" where
  "scan_comment r = nonempty (takeWhile (\<lambda>c. c = CHR '';'' \<or> c = CHR ''#'') r)"

definition scan_key_only :: "string \<Rightarrow> string \<Rightarrow> string \<Rightarrow> nat \<times> string \<times> string" where
  "scan_key_only line key value =
     (let (k, r) = scan_key line in
      if k = [] then (0, key, value)
      else (case nonempty (takeWhile (\<lambda>c. c = CHR ''='') (dropWhile isspace r)) of
              Some v \<Rightarrow> (2, k, v) | None \<Rightarrow> (1, k, value)))"

text \<open>Buffers of \<^verbatim>\<open>ASCIILINESZ + 1\<close> bytes hold strings of at most \<^verbatim>\<open>ASCIILINESZ\<close> characters.\<close>

definition fits :: "string \<Rightarrow> bool" where
  "fits s \<longleftrightarrow> length s \<le> ASCIILINESZ"

record line_bufs =
  b_section :: string
  b_key :: string
  b_val :: string

definition store_kv :: "line_bufs \<Rightarrow> string \<Rightarrow> string \<Rightarrow> line_bufs option" where
  "store_kv b k v = (if fits k \<and> fits v then Some (b\<lparr>b_key := k, b_val := v\<rparr>) else None)"

definition lower_key :: "string \<Rightarrow> nat \<Rightarrow> string" where
  "lower_key k len = strlwc_loop (strstrip k) (len - 1)"

text \<open>The branch for a section header: name without its brackets, stripped, lower case.\<close>

definition line_section :: "string \<Rightarrow> line_bufs \<Rightarrow> line_bufs option" where
  "line_section line b =
     (let body = takeWhile (\<lambda>c. c \<noteq> LF) (tl line);
          section = (if body = [] then b_section b else body);
          len = length section in
      if \<not> fits section \<or> len = 0 then None
      else (let cut = (if section ! (len - 1) = CHR '']'' then take (len - 1) section else section)
            in Some (b\<lparr>b_section := strlwc_loop (strstrip cut) (len - 1)\<rparr>)))"

text \<open>The branches for key and value, tried in the order of the source.\<close>

definition line_keyval :: "string \<Rightarrow> line_bufs \<Rightarrow> alloc \<Rightarrow> ((line_status \<times> line_bufs) \<times> alloc) option" where
  "line_keyval line b al =
     (let len = length line;
          (d_quote, k1, v1) = scan_key_eq (scan_quoted DQUOTE) line (b_key b) (b_val b) in
      do { b1 \<leftarrow> store_kv b k1 v1;
           let (s_quote, k2, v2) = (if d_quote = 2 then (0, k1, v1)
                                    else scan_key_eq (scan_quoted SQUOTE) line k1 v1);
           b2 \<leftarrow> store_kv b1 k2 v2;
           if d_quote = 2 \<or> s_quote = 2 then
             (let (v, al') = parse_quoted_value v2 (if d_quote = 2 then DQUOTE else SQUOTE) al in
              Some ((LINE_VALUE, b2\<lparr>b_key := lower_key k2 len, b_val := v\<rparr>), al'))
           else
             (let (n3, k3, v3) = scan_key_eq scan_plain line k2 v2 in
              do { b3 \<leftarrow> store_kv b2 k3 v3;
                   if n3 = 2 then
                     (let v = strstrip v3 in
                      Some ((LINE_VALUE, b3\<lparr>b_key := lower_key k3 len,
                               b_val := (if v = [DQUOTE, DQUOTE] \<or> v = [SQUOTE, SQUOTE] then [] else v)\<rparr>), al))
                   else
                     (let (n4, k4, v4) = scan_key_eq scan_comment line k3 v3 in
                      do { b4 \<leftarrow> store_kv b3 k4 v4;
                           let (n5, k5, v5) = (if n4 = 2 then (0, k4, v4) else scan_key_only line k4 v4);
                           b5 \<leftarrow> store_kv b4 k5 v5;
                           if n4 = 2 \<or> n5 = 2 then
                             Some ((LINE_VALUE, b5\<lparr>b_key := lower_key k5 len, b_val := []\<rparr>), al)
                           else Some ((LINE_ERROR, b5), al) }) }) })"

definition iniparser_line :: "string \<Rightarrow> line_bufs \<Rightarrow> alloc \<Rightarrow> ((line_status \<times> line_bufs) \<times> alloc) option" where
  "iniparser_line input_line b al =
     (let (dup, al1) = xstrdup (Some input_line) al;
          line = (case dup of None \<Rightarrow> [] | Some s \<Rightarrow> strstrip s) in
      if line = [] then Some ((LINE_EMPTY, b), al1)
      else if hd line = CHR ''#'' \<or> hd line = CHR '';'' then Some ((LINE_COMMENT, b), al1)
      else if hd line = CHR ''['' \<and> last line = CHR '']'' then
        do { b' \<leftarrow> line_section line b; Some ((LINE_SECTION, b'), al1) }
      else line_keyval line b al1)"

section \<open>The loader\<close>

datatype ini_error = LineTooLong nat | SyntaxError nat string | MemErr

record load_state =
  l_dict :: "dictionary option"
  l_bufs :: line_bufs
  l_line :: string   \<comment> \<open>the first \<^verbatim>\<open>last\<close> characters of the line buffer\<close>
  l_lineno :: nat
  l_errs :: nat
  l_log :: "ini_error list"
  l_alloc :: alloc

definition rstrip :: "string \<Rightarrow> string" where
  "rstrip s = rev (dropWhile isspace (rev s))"

datatype loop_exit = Next load_state | Break load_state | TooLong load_state

text \<open>What the loop does with one complete line, the \<^verbatim>\<open>switch\<close> and the code after it.\<close>

definition load_switch :: "string \<Rightarrow> load_state \<Rightarrow> loop_exit option" where
  "load_switch line st =
     do { ((sta, b), al) \<leftarrow> iniparser_line line (l_bufs st) (l_alloc st);
          let st1 = st\<lparr>l_bufs := b, l_alloc := al, l_line := []\<rparr>;
          ((mem_err, dp), al') \<leftarrow>
            (case sta of
               LINE_SECTION \<Rightarrow> dictionary_set (l_dict st1) (Some (b_section b)) None al
             | LINE_VALUE \<Rightarrow>
                 if length (b_section b @ '':'' @ b_key b) < 2 * ASCIILINESZ + 2
                 then dictionary_set (l_dict st1) (Some (b_section b @ '':'' @ b_key b)) (Some (b_val b)) al
                 else None
             | _ \<Rightarrow> Some ((0, l_dict st1), al));
          let st2 = st1\<lparr>l_dict := dp, l_alloc := al'\<rparr>;
          let st3 = (if sta = LINE_ERROR
                     then st2\<lparr>l_errs := l_errs st2 + 1, l_log := l_log st2 @ [SyntaxError (l_lineno st2) line]\<rparr>
                     else st2);
          Some (if mem_err < 0 then Break (st3\<lparr>l_log := l_log st3 @ [MemErr]\<rparr>) else Next st3) }"

text \<open>
  One iteration of the loop: \<^verbatim>\<open>chunk\<close> is what \<^verbatim>\<open>fgets\<close> stored at \<^verbatim>\<open>line + last\<close>, \<^verbatim>\<open>eof\<close> the
  result of \<^verbatim>\<open>feof\<close>.
\<close>

definition load_step :: "string \<Rightarrow> bool \<Rightarrow> load_state \<Rightarrow> loop_exit option" where
  "load_step chunk eof st0 =
     (let st = st0\<lparr>l_lineno := l_lineno st0 + 1\<rparr>;
          line = l_line st @ cstr chunk in
      if length line \<le> 1 then Some (Next (st\<lparr>l_line := take (length (l_line st)) line\<rparr>))
      else if last line \<noteq> LF \<and> \<not> eof then
        Some (TooLong (st\<lparr>l_log := l_log st @ [LineTooLong (l_lineno st)]\<rparr>))
      else
        (let s = rstrip line in
         if s \<noteq> [] \<and> last s = BSLASH then Some (Next (st\<lparr>l_line := butlast s\<rparr>))
         else load_switch s st))"

partial_function (option) load_loop :: "string \<Rightarrow> load_state \<Rightarrow> (load_state \<times> bool) option" where
  "load_loop input st =
     (case fgets_chunk (ASCIILINESZ - length (l_line st) - 1) input of
        (chunk, rest, eof) \<Rightarrow>
          if chunk = [] \<and> eof then Some (st, True)
          else do { e \<leftarrow> load_step chunk eof st;
                    (case e of
                       Next st' \<Rightarrow> load_loop rest st'
                     | Break st' \<Rightarrow> Some (st', True)
                     | TooLong st' \<Rightarrow> Some (st', False)) })"

definition init_bufs :: line_bufs where
  "init_bufs = \<lparr>b_section = [], b_key = [], b_val = []\<rparr>"

definition init_load :: "dictionary \<Rightarrow> alloc \<Rightarrow> load_state" where
  "init_load d al = \<lparr>l_dict = Some d, l_bufs = init_bufs, l_line = [], l_lineno = 0, l_errs = 0,
                     l_log = [], l_alloc = al\<rparr>"

text \<open>The dictionary returned (NULL on any error) and the errors reported.\<close>

definition iniparser_load_file :: "string \<Rightarrow> alloc \<Rightarrow> (dictionary option \<times> ini_error list) option" where
  "iniparser_load_file inp al =
     do { (dp, al1) \<leftarrow> dictionary_new 0 al;
          (case dp of
             None \<Rightarrow> Some (None, [])
           | Some d \<Rightarrow>
               do { (st, finished) \<leftarrow> load_loop inp (init_load d al1);
                    if \<not> finished \<or> l_errs st > 0 then
                      do { _ \<leftarrow> dictionary_del (l_dict st); Some (None, l_log st) }
                    else Some (l_dict st, l_log st) }) }"

text \<open>The file system is a parameter: the contents a name opens to, if it opens.\<close>

definition iniparser_load :: "(string \<Rightarrow> string option) \<Rightarrow> string \<Rightarrow> alloc \<Rightarrow> dictionary option option" where
  "iniparser_load fopen ininame al =
     (case fopen ininame of
        None \<Rightarrow> Some None
      | Some inp \<Rightarrow> map_option fst (iniparser_load_file inp al))"

definition iniparser_freedict :: "dictionary option \<Rightarrow> block list option" where
  "iniparser_freedict d = dictionary_del d"

section \<open>Strings as the parser treats them\<close>

named_theorems ini_len \<open>length bounds of the parser's string functions\<close>

lemma strlwc_loop_eq: "strlwc_loop s m = map tolower (take m s)"
  by (induction s m rule: strlwc_loop.induct) auto

lemma strlwc_len [ini_len]: "length (strlwc_loop s m) \<le> length s"
  by (simp add: strlwc_loop_eq)

lemma strstrip_len [ini_len]: "length (strstrip s) \<le> length s"
  unfolding strstrip_def by (metis length_dropWhile_le length_rev order_trans)

lemma set_strstrip: "set (strstrip s) \<subseteq> set s"
  unfolding strstrip_def by (metis set_dropWhileD set_rev subsetI)

lemma lower_key_len [ini_len]: "length (lower_key k n) \<le> length k"
  unfolding lower_key_def using strlwc_len strstrip_len order_trans by blast

lemma quoted_loop_len [ini_len]: "length (quoted_loop q e s) \<le> length s"
  by (induction q e s rule: quoted_loop.induct) auto

lemma fits_mono: "fits s \<Longrightarrow> length t \<le> length s \<Longrightarrow> fits t"
  by (simp add: fits_def)

lemma fits_Nil [simp]: "fits []"
  by (simp add: fits_def)

definition bufs_ok :: "line_bufs \<Rightarrow> bool" where
  "bufs_ok b \<longleftrightarrow> fits (b_section b) \<and> fits (b_key b) \<and> fits (b_val b)"

definition scan_bounded :: "(string \<Rightarrow> string option) \<Rightarrow> bool" where
  "scan_bounded sv \<longleftrightarrow> (\<forall>r v. sv r = Some v \<longrightarrow> length v \<le> length r)"

lemma scan_bounded_quoted: "scan_bounded (scan_quoted q)"
  by (auto simp: scan_bounded_def scan_quoted_def nonempty_def length_takeWhile_le le_SucI
      split: list.splits if_splits)

lemma scan_bounded_plain: "scan_bounded scan_plain" and scan_bounded_comment: "scan_bounded scan_comment"
  by (auto simp: scan_bounded_def scan_plain_def scan_comment_def nonempty_def length_takeWhile_le
      split: if_splits)

lemmas scan_bounded_intros = scan_bounded_quoted scan_bounded_plain scan_bounded_comment

lemma fits_takeWhile [intro]: "fits s \<Longrightarrow> fits (takeWhile P s)"
  and fits_dropWhile [intro]: "fits s \<Longrightarrow> fits (dropWhile P s)"
  by (meson fits_mono length_takeWhile_le length_dropWhile_le)+

lemma scan_key_eq_fits:
  assumes "scan_bounded sv" "fits line" "fits k" "fits v" "scan_key_eq sv line k v = (n, k', v')"
  shows "fits k' \<and> fits v'"
proof -
  have v: "fits w" if "dropWhile isspace (dropWhile P line) = c # r" and "sv (dropWhile isspace r) = Some w" for P c r w
  proof (rule fits_mono)
    show "fits (c # r)" using assms(2) that(1) by (metis fits_dropWhile)
    show "length w \<le> length (c # r)"
      using assms(1) that(2) length_dropWhile_le[of isspace r] by (force simp: scan_bounded_def)
  qed
  show ?thesis
    using assms(2-5)
    by (auto simp: scan_key_eq_def scan_key_def Let_def split: if_splits list.splits option.splits intro: v)
qed

lemma scan_key_only_fits:
  assumes "fits line" "fits k" "fits v" "scan_key_only line k v = (n, k', v')"
  shows "fits k' \<and> fits v'"
  using assms by (auto simp: scan_key_only_def scan_key_def nonempty_def Let_def split: if_splits option.splits)

lemma parse_quoted_value_fits:
  assumes "fits s"
  shows "\<exists>v al'. parse_quoted_value s q al = (v, al') \<and> fits v"
  using fits_mono[OF assms quoted_loop_len] by (auto simp: parse_quoted_value_def split: prod.splits option.splits)

lemma store_kv_fits: "fits k \<Longrightarrow> fits v \<Longrightarrow> store_kv b k v = Some (b\<lparr>b_key := k, b_val := v\<rparr>)"
  by (simp add: store_kv_def)

lemma line_keyval_ok:
  assumes "fits line" "bufs_ok b"
  shows "\<exists>sta b' al'. line_keyval line b al = Some ((sta, b'), al') \<and> bufs_ok b' \<and> b_section b' = b_section b
     \<and> (sta = LINE_VALUE \<or> sta = LINE_ERROR)"
proof -
  note sk = scan_key_eq_fits[OF _ assms(1)]
  have b: "fits (b_key b)" "fits (b_val b)" "fits (b_section b)" using assms(2) by (auto simp: bufs_ok_def)
  obtain n1 k1 v1 where s1: "scan_key_eq (scan_quoted DQUOTE) line (b_key b) (b_val b) = (n1, k1, v1)"
    by (rule prod_cases3)
  have f1: "fits k1" "fits v1" using sk[OF scan_bounded_quoted b(1,2) s1] by auto
  obtain n2 k2 v2 where s2: "scan_key_eq (scan_quoted SQUOTE) line k1 v1 = (n2, k2, v2)" by (rule prod_cases3)
  have f2: "fits k2" "fits v2" using sk[OF scan_bounded_quoted f1 s2] by auto
  obtain n3 k3 v3 where s3: "scan_key_eq scan_plain line k2 v2 = (n3, k3, v3)" by (rule prod_cases3)
  have f3: "fits k3" "fits v3" using sk[OF scan_bounded_plain f2 s3] by auto
  obtain n4 k4 v4 where s4: "scan_key_eq scan_comment line k3 v3 = (n4, k4, v4)" by (rule prod_cases3)
  have f4: "fits k4" "fits v4" using sk[OF scan_bounded_comment f3 s4] by auto
  obtain n5 k5 v5 where s5: "scan_key_only line k4 v4 = (n5, k5, v5)" by (rule prod_cases3)
  have f5: "fits k5" "fits v5" using scan_key_only_fits[OF assms(1) f4 s5] by auto
  note f = f1 f2 f3 f4 f5 b
  have q: "fits s \<Longrightarrow> fits (lower_key s m)" "fits s \<Longrightarrow> fits (strstrip s)" for s m
    by (auto intro: fits_mono ini_len)
  obtain w1 al1 where p1: "parse_quoted_value v1 DQUOTE al = (w1, al1)" "fits w1"
    using parse_quoted_value_fits[OF f1(2)] by blast
  obtain w2 al2 where p2: "parse_quoted_value v2 SQUOTE al = (w2, al2)" "fits w2"
    using parse_quoted_value_fits[OF f2(2)] by blast
  note s = line_keyval_def Let_def s1 s2 s3 s4 s5 p1 p2 f q store_kv_fits bufs_ok_def
  consider "n1 = 2" | "n1 \<noteq> 2" "n2 = 2" | "n1 \<noteq> 2" "n2 \<noteq> 2" "n3 = 2"
    | "n1 \<noteq> 2" "n2 \<noteq> 2" "n3 \<noteq> 2" "n4 = 2" | "n1 \<noteq> 2" "n2 \<noteq> 2" "n3 \<noteq> 2" "n4 \<noteq> 2" by blast
  then show ?thesis by cases (simp_all add: s)
qed

lemma line_section_ok:
  assumes "fits line" "LF \<notin> set line" "2 \<le> length line" "bufs_ok b"
  shows "\<exists>b'. line_section line b = Some b' \<and> bufs_ok b'"
proof -
  have body: "takeWhile (\<lambda>c. c \<noteq> LF) (tl line) = tl line"
    using assms(2) by (cases line) (auto simp: takeWhile_eq_all_conv)
  have ne: "tl line \<noteq> []" using assms(3) by (cases line) auto
  have "length (strlwc_loop (strstrip s) m) \<le> length s" for s m
    by (meson strlwc_len strstrip_len order_trans)
  then have "fits s \<Longrightarrow> fits (strlwc_loop (strstrip s) m)" "fits s \<Longrightarrow> fits (strlwc_loop (strstrip (take n s)) m)" for s m n
    by (auto simp: fits_def intro: order_trans) (metis length_take min.bounded_iff order_trans linorder_le_cases)
  moreover have "fits (tl line)" using assms(1) by (rule fits_mono) simp
  ultimately show ?thesis using ne assms(4)
    by (auto simp: line_section_def Let_def body bufs_ok_def)
qed

lemma iniparser_line_ok:
  assumes "fits line" "LF \<notin> set line" "bufs_ok b"
  shows "\<exists>sta b' al'. iniparser_line line b al = Some ((sta, b'), al') \<and> bufs_ok b'"
proof -
  obtain dup al1 where d: "xstrdup (Some line) al = (dup, al1)" by (rule prod.exhaust)
  define l where "l = (case dup of None \<Rightarrow> [] | Some s \<Rightarrow> strstrip s)"
  have dup: "dup = None \<or> dup = Some line" using d by (auto split: prod.splits if_splits)
  then have l: "fits l" "LF \<notin> set l"
    using assms(1,2) set_strstrip[of line] strstrip_len[of line] by (auto simp: l_def intro: fits_mono)
  have two: "2 \<le> length l" if "l \<noteq> []" "hd l = CHR ''[''" "last l = CHR '']''"
    using that by (cases l; cases "tl l") auto
  show ?thesis
    using line_section_ok[OF l _ assms(3)] two line_keyval_ok[OF l(1) assms(3), of al1] assms(3)
    unfolding iniparser_line_def d Let_def prod.case l_def[symmetric] by fastforce
qed

section \<open>The loader is total\<close>

definition load_ok :: "load_state \<Rightarrow> bool" where
  "load_ok st \<longleftrightarrow> (\<exists>d. l_dict st = Some d \<and> dict_wf d) \<and> list_all id (l_alloc st) \<and> bufs_ok (l_bufs st) \<and>
     LF \<notin> set (l_line st) \<and> length (l_line st) + 2 \<le> ASCIILINESZ"

fun exit_state :: "loop_exit \<Rightarrow> load_state" where
  "exit_state (Next st) = st"
| "exit_state (Break st) = st"
| "exit_state (TooLong st) = st"

lemma bufs_ok_tmp:
  "bufs_ok b \<Longrightarrow> length (b_section b @ '':'' @ b_key b) < 2 * ASCIILINESZ + 2"
  by (simp add: bufs_ok_def fits_def)

lemma malloc_alloc: "malloc al = (ok, al') \<Longrightarrow> list_all id al \<Longrightarrow> ok \<and> list_all id al'"
  by (cases al) auto

lemma iniparser_line_alloc:
  assumes "iniparser_line line b al = Some (r, al')" "list_all id al"
  shows "list_all id al'"
  using assms by (auto simp: iniparser_line_def line_keyval_def parse_quoted_value_def Let_def
        split: if_splits prod.splits option.splits bind_splits dest!: malloc_alloc)

lemma load_switch_ok:
  assumes "load_ok st" "fits line" "LF \<notin> set line"
  shows "\<exists>e. load_switch line st = Some e \<and> load_ok (exit_state e) \<and> l_line (exit_state e) = []"
proof -
  from assms(1) obtain d where d: "l_dict st = Some d" "dict_wf d" "list_all id (l_alloc st)" "bufs_ok (l_bufs st)"
    by (auto simp: load_ok_def)
  obtain sta b al where l: "iniparser_line line (l_bufs st) (l_alloc st) = Some ((sta, b), al)" "bufs_ok b"
    using iniparser_line_ok[OF assms(2,3) d(4)] by blast
  note al = iniparser_line_alloc[OF l(1) d(3)]
  show ?thesis
    using dictionary_set_abs[OF d(2) al, of "b_section b" None]
      dictionary_set_abs[OF d(2) al, of "b_section b @ '':'' @ b_key b" "Some (b_val b)"]
      bufs_ok_tmp[OF l(2)] l d al
    by (cases sta) (auto simp: load_switch_def load_ok_def Let_def ASCIILINESZ_def)
qed

lemma rstrip_len [ini_len]: "length (rstrip s) \<le> length s"
  unfolding rstrip_def by (metis length_dropWhile_le length_rev)

lemma rstrip_snoc: "isspace c \<Longrightarrow> rstrip (xs @ [c]) = rstrip xs"
  by (simp add: rstrip_def)

lemma set_rstrip: "set (rstrip s) \<subseteq> set s"
  unfolding rstrip_def using set_dropWhileD by fastforce

lemma isspace_LF [simp]: "isspace LF"
  by (simp add: isspace_def LF_def)

lemma rstrip_no_LF: "LF \<notin> set (butlast s) \<Longrightarrow> LF \<notin> set (rstrip s)"
proof (cases s rule: rev_cases)
  case (snoc xs c)
  assume "LF \<notin> set (butlast s)"
  with snoc show ?thesis using set_rstrip[of xs] set_rstrip[of s]
    by (cases "c = LF") (auto simp: rstrip_snoc)
qed (simp add: rstrip_def)

lemma butlast_cstr: "x \<in> set (butlast (cstr ch)) \<Longrightarrow> x \<in> set (butlast ch)"
proof (induction ch)
  case (Cons a ch)
  then show ?case by (cases ch) (auto simp: cstr_def split: if_splits)
qed (simp add: cstr_def)

lemma cstr_len [ini_len]: "length (cstr ch) \<le> length ch"
  by (simp add: cstr_def length_takeWhile_le)

lemma load_step_ok:
  assumes st: "load_ok st" and len: "length chunk \<le> ASCIILINESZ - length (l_line st) - 1"
    and lf: "LF \<notin> set (butlast chunk)"
  shows "\<exists>e. load_step chunk eof st = Some e \<and> load_ok (exit_state e)"
proof -
  define st1 where "st1 = st\<lparr>l_lineno := l_lineno st + 1\<rparr>"
  define line where "line = l_line st @ cstr chunk"
  have st1: "load_ok st1" using st by (simp add: st1_def load_ok_def)
  have ln: "length line < ASCIILINESZ" "LF \<notin> set (butlast line)"
    using st len cstr_len[of chunk] lf butlast_cstr[of LF chunk]
    by (auto simp: line_def load_ok_def butlast_append dest: in_set_butlastD)
  have s: "length (rstrip line) < ASCIILINESZ" "LF \<notin> set (rstrip line)"
    using rstrip_len[of line] ln(1) rstrip_no_LF[OF ln(2)] by auto
  have shorter: "load_ok (st1\<lparr>l_line := take (length (l_line st)) line\<rparr>)" "load_ok (st1\<lparr>l_log := lg\<rparr>)" for lg
    using st1 by (auto simp: load_ok_def st1_def line_def)
  have cont: "load_ok (st1\<lparr>l_line := butlast (rstrip line)\<rparr>)" if "rstrip line \<noteq> []"
    using st1 s that by (cases "rstrip line" rule: rev_cases) (auto simp: load_ok_def)
  obtain e where "load_switch (rstrip line) st1 = Some e" "load_ok (exit_state e)"
    using load_switch_ok[OF st1 _ s(2)] s(1) by (auto simp: fits_def)
  then show ?thesis using shorter cont
    unfolding load_step_def by (simp add: Let_def flip: st1_def line_def) (auto simp: st1_def)
qed

lemma load_loop_ok:
  "load_ok st \<Longrightarrow> \<exists>st' fin. load_loop inp st = Some (st', fin) \<and> load_ok st'"
proof (induction "length inp" arbitrary: inp st rule: less_induct)
  case less
  obtain chunk rest eof where ch: "fgets_chunk (ASCIILINESZ - length (l_line st) - 1) inp = (chunk, rest, eof)"
    by (rule prod_cases3)
  obtain m where m: "ASCIILINESZ - length (l_line st) - 1 = Suc m"
    using less.prems by (cases "ASCIILINESZ - length (l_line st) - 1") (auto simp: load_ok_def)
  obtain e where e: "load_step chunk eof st = Some e" "load_ok (exit_state e)"
    using load_step_ok[OF less.prems fgets_chunk_length[OF ch] fgets_chunk_LF[OF ch]] by blast
  have emp: "chunk = [] \<longleftrightarrow> inp = []" using fgets_chunk_progress ch m by simp
  show ?case
  proof (cases "inp = []")
    case True
    with ch m have "chunk = [] \<and> eof" by simp
    with less.prems ch show ?thesis by (subst load_loop.simps) auto
  next
    case False
    then have "length rest < length inp" using arg_cong[OF fgets_chunk_append[OF ch], of length] emp by simp
    moreover have "load_loop inp st = (case e of Next st' \<Rightarrow> load_loop rest st' | Break st' \<Rightarrow> Some (st', True)
        | TooLong st' \<Rightarrow> Some (st', False))"
      using e(1) ch False emp by (subst load_loop.simps) simp
    ultimately show ?thesis using less.hyps[of rest] e(2) by (cases e) auto
  qed
qed

lemma iniparser_load_file_ok:
  assumes "list_all id al"
  shows "\<exists>dp log. iniparser_load_file inp al = Some (dp, log) \<and> (\<forall>d. dp = Some d \<longrightarrow> dict_wf d)"
proof -
  obtain d al1 where d: "dictionary_new 0 al = Some (Some d, al1)" "dict_wf d" "list_all id al1"
    using assms
    by (auto simp: dictionary_new_def Let_def alloc_ok_malloc alloc_ok_tl DICTMINSZ_def dict_wf_def)
  have "load_ok (init_load d al1)"
    using d by (simp add: load_ok_def init_load_def init_bufs_def bufs_ok_def ASCIILINESZ_def)
  from load_loop_ok[OF this, of inp] obtain st fin d' where
    l: "load_loop inp (init_load d al1) = Some (st, fin)" "l_dict st = Some d'" "dict_wf d'"
    by (auto simp: load_ok_def)
  have "dictionary_del (Some d') \<noteq> None"
    using dict_del_loop_from[OF l(3), of 0] by (simp add: dictionary_del_def)
  with l d show ?thesis by (auto simp: iniparser_load_file_def)
qed

end
