(* ===== verification/IniRoundtrip.thy ===== *)
theory IniRoundtrip
  imports Iniparser
begin

text \<open>
  Dumping and loading again. The queries and the dump functions of \<^verbatim>\<open>iniparser.c\<close> are
  folds over the entries of the dictionary; the loader undoes what the dump wrote, line by
  line: the quoting of values, the padding of keys and the section headers.
\<close>

section \<open>The entries of a dictionary\<close>

fun slot_entries :: "string option list \<Rightarrow> string option list \<Rightarrow> (string \<times> cptr) list" where
  "slot_entries (Some k # ks) (v # vs) = (k, v) # slot_entries ks vs"
| "slot_entries (None # ks) (v # vs) = slot_entries ks vs"
| "slot_entries _ _ = []"

definition entries :: "dictionary \<Rightarrow> (string \<times> cptr) list" where
  "entries d = slot_entries (d_key d) (d_val d)"

lemma map_of_slot_entries: "map_of (slot_entries ks vs) = slots_map ks vs"
  by (induction ks vs rule: slot_entries.induct) auto

lemma map_of_entries: "map_of (entries d) = dict_abs d"
  by (simp add: entries_def dict_abs_def map_of_slot_entries)

lemma keys_slot_entries:
  "length ks = length vs \<Longrightarrow> map Some (map fst (slot_entries ks vs)) = used ks"
  by (induction ks vs rule: slot_entries.induct) auto

lemma distinct_entries:
  assumes "dict_wf d"
  shows "distinct (map fst (entries d))"
proof -
  have "distinct (map Some (map fst (entries d)))"
    unfolding entries_def using dict_wfD[OF assms] by (subst keys_slot_entries) auto
  then show ?thesis by (simp only: distinct_map)
qed

lemma entries_abs:
  assumes "dict_wf d"
  shows "(k, v) \<in> set (entries d) \<longleftrightarrow> dict_abs d k = Some v"
  using distinct_entries[OF assms] by (simp flip: map_of_entries)

text \<open>
  The loop over the slots is a fold over the entries, whenever the body succeeds on them.
\<close>

lemma for_keys_drop:
  assumes wf: "dict_wf d"
    and body: "\<And>i k s. i < d_size d \<Longrightarrow> d_key d ! i = Some k \<Longrightarrow> body i k s = Some (f k (d_val d ! i) s)"
  shows "i \<le> d_size d \<Longrightarrow> for_keys d body i s =
     Some (fold (\<lambda>(k, v). f k v) (slot_entries (drop i (d_key d)) (drop i (d_val d))) s)"
proof (induction "d_size d - i" arbitrary: i s)
  case 0
  then show ?case using dict_wfD[OF wf] by (subst for_keys.simps) simp
next
  case (Suc m)
  then have i: "i < d_size d" and m: "m = d_size d - Suc i" by simp_all
  have d: "drop i (d_key d) = d_key d ! i # drop (Suc i) (d_key d)"
    "drop i (d_val d) = d_val d ! i # drop (Suc i) (d_val d)"
    using i dict_wfD[OF wf] by (simp_all add: Cons_nth_drop_Suc)
  show ?case
    using i Suc(1)[OF m] body[OF i] dict_wfD(2)[OF wf]
    by (subst for_keys.simps) (cases "d_key d ! i", simp_all add: array_simps d)
qed

lemma for_keys_entries:
  assumes "dict_wf d"
    and "\<And>i k s. i < d_size d \<Longrightarrow> d_key d ! i = Some k \<Longrightarrow> body i k s = Some (f k (d_val d ! i) s)"
  shows "for_keys d body 0 s = Some (fold (\<lambda>(k, v). f k v) (entries d) s)"
  using for_keys_drop[where f = f, OF assms, of 0 s] by (simp add: entries_def)

lemma nth_entries:
  assumes "dict_wf d" "i < d_size d" "d_key d ! i = Some k"
  shows "(k, d_val d ! i) \<in> set (entries d)"
  using assms dict_abs_nth entries_abs by blast

section \<open>Queries\<close>

abbreviation is_section :: "string \<Rightarrow> bool" where
  "is_section k \<equiv> CHR '':'' \<notin> set k"

definition sections :: "dictionary \<Rightarrow> string list" where
  "sections d = filter is_section (map fst (entries d))"

lemma fold_count: "fold (\<lambda>(k, v) n. if P k then n + 1 else n) es (n :: int) = n + int (length (filter P (map fst es)))"
  by (induction es arbitrary: n) auto

lemma fold_collect: "fold (\<lambda>(k, v) xs. if P k then xs @ [k] else xs) es xs = xs @ filter P (map fst es)"
  by (induction es arbitrary: xs) auto

lemma getnsec_entries:
  assumes "dict_wf d"
  shows "iniparser_getnsec (Some d) = Some (int (length (sections d)))"
  unfolding iniparser_getnsec_def
  by (simp add: for_keys_entries[OF assms, where f = "\<lambda>k v n. if is_section k then n + 1 else n"]
      fold_count sections_def)

lemma secname_loop_from:
  assumes wf: "dict_wf d"
  shows "i \<le> d_size d \<Longrightarrow> f \<le> n \<Longrightarrow>
     (let secs = filter is_section (map fst (slot_entries (drop i (d_key d)) (drop i (d_val d)))) in
      if nat (n - f) < length secs
      then \<exists>j. secname_loop d n i f = Some (j, n + 1) \<and> j < d_size d \<and> d_key d ! j = Some (secs ! nat (n - f))
      else \<exists>j f'. secname_loop d n i f = Some (j, f') \<and> f' \<le> n)"
proof (induction "d_size d - i" arbitrary: i f)
  case 0
  then show ?case using dict_wfD[OF wf] by (subst (1 2) secname_loop.simps) simp
next
  case (Suc m)
  then have i: "i < d_size d" and m: "m = d_size d - Suc i" by simp_all
  have d: "drop i (d_key d) = d_key d ! i # drop (Suc i) (d_key d)"
    "drop i (d_val d) = d_val d ! i # drop (Suc i) (d_val d)"
    using i dict_wfD[OF wf] by (simp_all add: Cons_nth_drop_Suc)
  note IH = Suc(1)[OF m]
  consider "d_key d ! i = None" | k where "d_key d ! i = Some k" "\<not> is_section k"
    | k where "d_key d ! i = Some k" "is_section k" "f + 1 > n" | k where "d_key d ! i = Some k" "is_section k" "f + 1 \<le> n"
    by (cases "d_key d ! i") force+
  then show ?case
  proof cases
    case 1
    then show ?thesis using IH[of f] i Suc.prems dict_wfD(2)[OF wf]
      by (subst (1 2) secname_loop.simps) (simp add: array_simps d)
  next
    case 2
    then show ?thesis using IH[of f] i Suc.prems dict_wfD(2)[OF wf]
      by (subst (1 2) secname_loop.simps) (simp add: array_simps d)
  next
    case (3 k)
    with Suc.prems have "f = n" by simp
    with 3 show ?thesis using i dict_wfD(2)[OF wf]
      by (subst (1 2) secname_loop.simps) (simp add: array_simps d)
  next
    case (4 k)
    then obtain u where u: "nat (n - f) = Suc u" "nat (n - (f + 1)) = u" by (cases "nat (n - f)") auto
    with 4 show ?thesis using IH[of "f + 1", unfolded u(2)] i Suc.prems dict_wfD(2)[OF wf]
      by (subst (1 2) secname_loop.simps) (simp add: array_simps d)
  qed
qed

lemma getsecname_entries:
  assumes "dict_wf d" "0 \<le> n"
  shows "iniparser_getsecname (Some d) n =
     Some (if nat n < length (sections d) then Some (sections d ! nat n) else None)"
proof -
  note s = secname_loop_from[OF assms(1), of 0 0 n]
  from s assms show ?thesis using dict_wfD(2)[OF assms(1)]
    by (auto simp: iniparser_getsecname_def sections_def entries_def Let_def array_simps split: if_splits)
qed

lemma fold_prefix_keys:
  assumes wf: "dict_wf d"
  shows "for_keys d (\<lambda>j k n. Some (if has_prefix p k then n + 1 else n)) 0 (0 :: int) =
           Some (int (length (filter (has_prefix p) (map fst (entries d)))))"
    and "for_keys d (\<lambda>j k ks. Some (if has_prefix p k then ks @ [k] else ks)) 0 [] =
           Some (filter (has_prefix p) (map fst (entries d)))"
  by (simp_all add: for_keys_entries[OF wf, where f = "\<lambda>k v n. if has_prefix p k then n + 1 else n"]
      for_keys_entries[OF wf, where f = "\<lambda>k v ks. if has_prefix p k then ks @ [k] else ks"]
      fold_count fold_collect)

lemma getstring_abs:
  assumes "dict_wf d"
  shows "iniparser_getstring (Some d) (Some k) def =
     Some (case dict_abs d (map tolower (take ASCIILINESZ k)) of None \<Rightarrow> def | Some v \<Rightarrow> Ptr v)"
  by (simp add: iniparser_getstring_def strlwc_def strlwc_loop_eq dictionary_get_abs[OF assms])

lemma find_entry_abs:
  assumes "dict_wf d"
  shows "iniparser_find_entry (Some d) (Some k) = Some (dict_abs d (map tolower (take ASCIILINESZ k)) \<noteq> None)"
  by (auto simp: iniparser_find_entry_def getstring_abs[OF assms] split: option.splits)

section \<open>Lines the dump writes and the parser reads\<close>

definition stripped :: "string \<Rightarrow> bool" where
  "stripped s \<longleftrightarrow> s = [] \<or> \<not> isspace (hd s) \<and> \<not> isspace (last s)"

definition plain :: "string \<Rightarrow> bool" where
  "plain s \<longleftrightarrow> NUL \<notin> set s \<and> LF \<notin> set s"

definition lower :: "string \<Rightarrow> bool" where
  "lower s \<longleftrightarrow> map tolower s = s"

definition entry_line :: "nat \<Rightarrow> string \<Rightarrow> string \<Rightarrow> string" where
  "entry_line w k v = pad_right w k @ '' = '' @ [DQUOTE] @ escape_loop v @ [DQUOTE]"

definition section_line :: "string \<Rightarrow> string" where
  "section_line s = ''['' @ s @ '']''"

definition key_ok :: "string \<Rightarrow> bool" where
  "key_ok k \<longleftrightarrow> k \<noteq> [] \<and> stripped k \<and> lower k \<and> plain k \<and> CHR ''='' \<notin> set k \<and>
     hd k \<noteq> CHR ''#'' \<and> hd k \<noteq> CHR '';''"

lemma quoted_loop_escape: "quoted_loop DQUOTE False (escape_loop v @ DQUOTE # r) = v"
  by (induction v) (auto simp: char_names)

lemma dropWhile_isspace_stripped: "stripped s \<Longrightarrow> dropWhile isspace s = s"
  by (cases s) (auto simp: stripped_def)

lemma strstrip_stripped: "stripped s \<Longrightarrow> strstrip s = s"
  by (cases s rule: rev_cases) (auto simp: strstrip_def dropWhile_isspace_stripped, simp add: stripped_def)

lemma rstrip_stripped: "stripped s \<Longrightarrow> rstrip s = s"
  by (cases s rule: rev_cases) (auto simp: rstrip_def stripped_def)

lemma strstrip_spaces:
  assumes "stripped s" "s \<noteq> []"
  shows "strstrip (s @ replicate n (CHR '' '')) = s"
proof -
  have "dropWhile isspace (s @ t) = s @ t" for t
    using assms by (cases s) (auto simp: stripped_def)
  moreover have "dropWhile isspace (replicate n (CHR '' '') @ rev s) = rev s"
    using assms by (induction n) (cases s rule: rev_cases; auto simp: stripped_def isspace_def)+
  ultimately show ?thesis by (simp add: strstrip_def)
qed

lemma set_escape_loop: "set (escape_loop v) \<subseteq> insert BSLASH (set v)"
  by (induction v) auto

lemma escape_loop_len: "length (escape_loop v) \<le> 2 * length v"
  by (induction v) auto

lemma entry_line_plain: "plain k \<Longrightarrow> plain v \<Longrightarrow> plain (entry_line w k v)"
  using set_escape_loop[of v]
  by (auto simp: plain_def entry_line_def pad_right_def char_names set_replicate_conv_if)

lemma entry_line_shape:
  assumes "key_ok k"
  shows "entry_line w k v \<noteq> []" "hd (entry_line w k v) = hd k" "last (entry_line w k v) = DQUOTE"
    "stripped (entry_line w k v)"
  using assms by (auto simp: entry_line_def key_ok_def pad_right_def stripped_def char_names isspace_def)

lemma scan_entry_line:
  assumes "key_ok k" "plain v"
  shows "scan_key_eq (scan_quoted DQUOTE) (entry_line w k v) key val =
     (2, pad_right w k @ '' '', escape_loop v @ [DQUOTE])"
proof -
  let ?pre = "pad_right w k @ '' ''" and ?post = "'' '' @ [DQUOTE] @ escape_loop v @ [DQUOTE]"
  have eq: "entry_line w k v = ?pre @ CHR ''='' # ?post" by (simp add: entry_line_def)
  have pre: "\<forall>c \<in> set ?pre. c \<noteq> CHR ''=''" using assms(1) by (auto simp: key_ok_def pad_right_def)
  have "takeWhile (\<lambda>c. c \<noteq> LF) (escape_loop v @ [DQUOTE]) = escape_loop v @ [DQUOTE]"
    using assms(2) set_escape_loop[of v] by (auto simp: takeWhile_eq_all_conv plain_def char_names)
  then have sq: "scan_quoted DQUOTE (dropWhile isspace ?post) = Some (escape_loop v @ [DQUOTE])"
    by (simp add: scan_quoted_def nonempty_def isspace_def char_names)
  have "scan_key (entry_line w k v) = (?pre, CHR ''='' # ?post)"
    unfolding eq scan_key_def using pre by (subst takeWhile_append2, blast, subst dropWhile_append2, blast) simp
  then show ?thesis using sq by (simp add: scan_key_eq_def Let_def isspace_def)
qed

lemma lower_key_padded:
  assumes "key_ok k" "length k < n"
  shows "lower_key (pad_right w k @ '' '') n = k"
proof -
  have "pad_right w k @ '' '' = k @ replicate (w - length k + 1) (CHR '' '')"
    by (simp add: pad_right_def replicate_append_same)
  with assms show ?thesis
    by (simp add: lower_key_def strstrip_spaces strlwc_loop_eq key_ok_def lower_def del: replicate_Suc replicate.simps)
qed

lemma iniparser_line_entry:
  assumes k: "key_ok k" and v: "plain v" and b: "bufs_ok b" and len: "fits (entry_line w k v)" and al: "list_all id al"
  shows "\<exists>al'. iniparser_line (entry_line w k v) b al = Some ((LINE_VALUE, b\<lparr>b_key := k, b_val := v\<rparr>), al') \<and> list_all id al'"
proof -
  let ?l = "entry_line w k v"
  have f: "fits (pad_right w k @ '' '')" "fits (escape_loop v @ [DQUOTE])" "length k < length ?l"
    using len by (auto simp: fits_def entry_line_def pad_right_def)
  have "iniparser_line ?l b al = line_keyval ?l b (tl al)"
    using entry_line_shape[OF k] k
    by (simp add: iniparser_line_def alloc_ok_malloc[OF al] strstrip_stripped key_ok_def DQUOTE_def)
  also have "\<dots> = Some ((LINE_VALUE, b\<lparr>b_key := k, b_val := v\<rparr>), tl (tl al))"
    by (simp add: line_keyval_def scan_entry_line[OF k v] store_kv_fits f parse_quoted_value_def
        alloc_ok_malloc alloc_ok_tl al lower_key_padded[OF k] quoted_loop_escape Let_def)
  finally show ?thesis using al by (simp add: alloc_ok_tl)
qed

lemma iniparser_line_section:
  assumes s: "stripped s" "lower s" "plain s" and len: "length s < ASCIILINESZ" and al: "list_all id al"
  shows "iniparser_line (section_line s) b al = Some ((LINE_SECTION, b\<lparr>b_section := s\<rparr>), tl al)"
proof -
  have st: "stripped (section_line s)" by (simp add: section_line_def stripped_def isspace_def)
  have tw: "takeWhile (\<lambda>c. c \<noteq> LF) (s @ '']'') = s @ '']''"
    using s(3) by (auto simp: takeWhile_eq_all_conv plain_def LF_def)
  have "line_section (section_line s) b = Some (b\<lparr>b_section := s\<rparr>)"
    using s(2) len tw
    by (simp add: section_line_def line_section_def Let_def fits_def strstrip_stripped[OF s(1)] strlwc_loop_eq lower_def)
  then show ?thesis
    using strstrip_stripped[OF st] by (simp add: iniparser_line_def alloc_ok_malloc[OF al] section_line_def)
qed

section \<open>Loading line by line\<close>

definition load_at :: "load_state \<Rightarrow> (string \<rightharpoonup> cptr) \<Rightarrow> string \<Rightarrow> bool" where
  "load_at st m sec \<longleftrightarrow> load_ok st \<and> l_line st = [] \<and> l_errs st = 0 \<and> l_log st = [] \<and> b_section (l_bufs st) = sec \<and>
     (\<exists>d. l_dict st = Some d \<and> dict_wf d \<and> dict_abs d = m)"

lemma cstr_plain: "NUL \<notin> set s \<Longrightarrow> cstr s = s"
  unfolding cstr_def by (auto simp: takeWhile_eq_all_conv)

lemma load_loop_chunk:
  assumes "fgets_chunk (ASCIILINESZ - length (l_line st) - 1) inp = (chunk, rest, eof)" "chunk \<noteq> []"
  shows "load_loop inp st =
     do { e \<leftarrow> load_step chunk eof st;
          case e of Next st' \<Rightarrow> load_loop rest st' | Break st' \<Rightarrow> Some (st', True) | TooLong st' \<Rightarrow> Some (st', False) }"
  using assms by (subst load_loop.simps) (simp del: diff_diff_left)

lemma escape_loop_ge: "length v \<le> length (escape_loop v)"
  by (induction v) auto

lemma load_loop_blank:
  assumes "load_at st m sec"
  shows "\<exists>st'. load_loop (LF # rest) st = load_loop rest st' \<and> load_at st' m sec"
proof (intro exI conjI)
  have ch: "fgets_chunk (ASCIILINESZ - length (l_line st) - 1) (LF # rest) = ([LF], rest, False)"
    using assms fgets_chunk_line[of "[]"] by (simp add: load_at_def ASCIILINESZ_def)
  have c: "cstr [LF] = [LF]" by (simp add: cstr_def char_names)
  show "load_loop (LF # rest) st = load_loop rest (st\<lparr>l_lineno := l_lineno st + 1, l_line := []\<rparr>)"
    using assms by (simp add: load_loop_chunk[OF ch] load_step_def load_at_def c)
  show "load_at (st\<lparr>l_lineno := l_lineno st + 1, l_line := []\<rparr>) m sec"
    using assms by (simp add: load_at_def load_ok_def)
qed

lemma load_loop_line:
  assumes st: "load_at st m sec" and l: "plain l" "stripped l" "l \<noteq> []" "last l \<noteq> BSLASH" "length l + 2 \<le> ASCIILINESZ"
  shows "load_loop (l @ LF # rest) st =
     do { e \<leftarrow> load_switch l (st\<lparr>l_lineno := l_lineno st + 1\<rparr>);
          case e of Next st' \<Rightarrow> load_loop rest st' | Break st' \<Rightarrow> Some (st', True) | TooLong st' \<Rightarrow> Some (st', False) }"
proof -
  have ch: "fgets_chunk (ASCIILINESZ - length (l_line st) - 1) (l @ LF # rest) = (l @ [LF], rest, False)"
    using st l by (intro trans[OF _ fgets_chunk_line]) (auto simp: load_at_def plain_def)
  have c: "cstr (l @ [LF]) = l @ [LF]"
    using l(1) by (intro cstr_plain) (auto simp: plain_def char_names)
  have r: "rstrip (l @ [LF]) = l" using l(2) by (simp add: rstrip_snoc rstrip_stripped)
  have "load_step (l @ [LF]) False st = load_switch l (st\<lparr>l_lineno := l_lineno st + 1\<rparr>)"
    using st l(3,4) by (simp add: load_step_def c r Let_def load_at_def Suc_le_eq)
  then show ?thesis by (simp add: load_loop_chunk[OF ch])
qed

lemma load_loop_section:
  assumes st: "load_at st m sec" and s: "stripped s" "lower s" "plain s" "length s + 4 \<le> ASCIILINESZ"
  shows "\<exists>st'. load_loop (section_line s @ LF # rest) st = load_loop rest st' \<and> load_at st' (m(s \<mapsto> None)) s"
proof -
  let ?st = "st\<lparr>l_lineno := l_lineno st + 1\<rparr>"
  from st obtain d where d: "l_dict st = Some d" "dict_wf d" "dict_abs d = m" and al: "list_all id (l_alloc st)"
    by (auto simp: load_at_def load_ok_def)
  obtain d' al' where set: "dictionary_set (Some d) (Some s) None (tl (l_alloc st)) = Some ((0, Some d'), al')"
    "dict_wf d'" "dict_abs d' = m(s \<mapsto> None)" "list_all id al'"
    using dictionary_set_abs[OF d(2) alloc_ok_tl[OF al]] d(3) by blast
  have sl: "plain (section_line s)" "stripped (section_line s)" "section_line s \<noteq> []"
    "last (section_line s) \<noteq> BSLASH" "length (section_line s) + 2 \<le> ASCIILINESZ"
    using s by (auto simp: section_line_def plain_def stripped_def isspace_def char_names)
  have len: "length s < ASCIILINESZ" using s(4) by simp
  let ?st' = "?st\<lparr>l_bufs := (l_bufs st)\<lparr>b_section := s\<rparr>, l_line := [], l_dict := Some d', l_alloc := al'\<rparr>"
  have "load_switch (section_line s) ?st = Some (Next ?st')"
    using d set by (simp add: load_switch_def iniparser_line_section[OF s(1-3) len al])
  then have "load_loop (section_line s @ LF # rest) st = load_loop rest ?st'"
    by (simp add: load_loop_line[OF st sl])
  moreover have "load_at ?st' (m(s \<mapsto> None)) s"
    using st set s(4) by (auto simp: load_at_def load_ok_def bufs_ok_def fits_def)
  ultimately show ?thesis by blast
qed

lemma load_loop_entry:
  assumes st: "load_at st m sec" and k: "key_ok k" and v: "plain v" and len: "length (entry_line w k v) + 2 \<le> ASCIILINESZ"
  shows "\<exists>st'. load_loop (entry_line w k v @ LF # rest) st = load_loop rest st' \<and>
           load_at st' (m(sec @ '':'' @ k \<mapsto> Some v)) sec"
proof -
  let ?st = "st\<lparr>l_lineno := l_lineno st + 1\<rparr>" and ?b = "(l_bufs st)\<lparr>b_key := k, b_val := v\<rparr>"
  from st obtain d where d: "l_dict st = Some d" "dict_wf d" "dict_abs d = m" and al: "list_all id (l_alloc st)"
    and b: "bufs_ok (l_bufs st)" "b_section (l_bufs st) = sec"
    by (auto simp: load_at_def load_ok_def)
  have f: "fits (entry_line w k v)" using len by (simp add: fits_def)
  obtain al1 where il: "iniparser_line (entry_line w k v) (l_bufs st) (l_alloc st) = Some ((LINE_VALUE, ?b), al1)"
    and al1: "list_all id al1"
    using iniparser_line_entry[OF k v b(1) f al] by blast
  obtain d' al' where set: "dictionary_set (Some d) (Some (sec @ '':'' @ k)) (Some v) al1 = Some ((0, Some d'), al')"
    "dict_wf d'" "dict_abs d' = m(sec @ '':'' @ k \<mapsto> Some v)" "list_all id al'"
    using dictionary_set_abs[OF d(2) al1] d(3) by blast
  have b': "bufs_ok ?b"
    using b f escape_loop_ge[of v] by (auto simp: bufs_ok_def fits_def entry_line_def pad_right_def)
  let ?st' = "?st\<lparr>l_bufs := ?b, l_line := [], l_dict := Some d', l_alloc := al'\<rparr>"
  have "load_switch (entry_line w k v) ?st = Some (Next ?st')"
    using d set bufs_ok_tmp[OF b'] b by (simp add: load_switch_def il)
  moreover have "plain (entry_line w k v)" "last (entry_line w k v) \<noteq> BSLASH"
    using k v entry_line_shape(3)[OF k] by (auto intro: entry_line_plain simp: key_ok_def char_names)
  ultimately have "load_loop (entry_line w k v @ LF # rest) st = load_loop rest ?st'"
    using load_loop_line[OF st _ entry_line_shape(4,1)[OF k] _ len] by simp
  moreover have "load_at ?st' (m(sec @ '':'' @ k \<mapsto> Some v)) sec"
    using st set b' b by (auto simp: load_at_def load_ok_def)
  ultimately show ?thesis by blast
qed

section \<open>The text of a dump\<close>

definition section_entries :: "(string \<times> cptr) list \<Rightarrow> string \<Rightarrow> (string \<times> cptr) list" where
  "section_entries es s = filter (\<lambda>(k, v). has_prefix (s @ '':'') k) es"

definition entry_text :: "string \<Rightarrow> string \<times> cptr \<Rightarrow> string" where
  "entry_text s kv = entry_line 30 (drop (length s + 1) (fst kv)) (the (snd kv)) @ [LF]"

definition section_text :: "(string \<times> cptr) list \<Rightarrow> string \<Rightarrow> string" where
  "section_text es s = [LF] @ section_line s @ [LF] @ concat (map (entry_text s) (section_entries es s)) @ [LF]"

lemma has_prefix_iff: "has_prefix p s \<longleftrightarrow> (\<exists>t. s = p @ t)"
  by (induction p s rule: has_prefix.induct) auto

lemma fold_append: "fold (\<lambda>kv (e, out). if P kv then (f kv, out @ g kv) else (e, out)) es (e, out) =
    (fold (\<lambda>kv e. if P kv then f kv else e) es e, out @ concat (map g (filter P es)))"
  by (induction es arbitrary: e out) auto

lemma dumpsection_text:
  assumes wf: "dict_wf d" and s: "dict_abs d s \<noteq> None" "lower s" "length s + 2 \<le> ASCIILINESZ"
    and vals: "\<And>k v. (k, v) \<in> set (section_entries (entries d) s) \<Longrightarrow> \<exists>t. v = Some t \<and> length (escape_loop t) < 2 * ASCIILINESZ + 2"
  shows "iniparser_dumpsection_ini (Some d) (Some s) (Some out) = Some (Some (out @ section_text (entries d) s))"
proof -
  have found: "iniparser_find_entry (Some d) (Some s) = Some True"
    using s by (auto simp: find_entry_abs[OF wf] lower_def)
  let ?P = "\<lambda>(k, v :: cptr). has_prefix (s @ '':'') k"
  let ?f = "\<lambda>k v (e, out). if has_prefix (s @ '':'') k then (escape_loop (the v), out @ entry_text s (k, v)) else (e, out)"
  have body: "(\<lambda>(escaped, out).
       if has_prefix (s @ '':'') k then
         do { v \<leftarrow> aget (d_val d) j; escaped' \<leftarrow> escape_value escaped v;
              Some (escaped', out @ pad_right 30 (drop (length s + 1) k) @ '' = '' @ [DQUOTE] @ escaped' @ [DQUOTE, LF]) }
       else Some (escaped, out)) st = Some (?f k (d_val d ! j) st)"
    if j: "j < d_size d" "d_key d ! j = Some k" for j k st
  proof (cases "has_prefix (s @ '':'') k")
    case True
    then obtain t where "d_val d ! j = Some t" "length (escape_loop t) < 2 * ASCIILINESZ + 2"
      using vals[of k "d_val d ! j"] nth_entries[OF wf j] by (auto simp: section_entries_def)
    then show ?thesis using True j dict_wfD(3)[OF wf]
      by (cases st) (simp add: array_simps escape_value_def entry_text_def entry_line_def)
  qed (cases st, simp)
  have eq: "(\<lambda>(k, v). ?f k v) = (\<lambda>kv (e, out). if ?P kv then (escape_loop (the (snd kv)), out @ entry_text s kv) else (e, out))"
    by (auto simp: fun_eq_iff)
  show ?thesis
    using s(3) unfolding iniparser_dumpsection_ini_def
    by (simp add: found for_keys_entries[where f = ?f, OF wf body] eq fold_append section_text_def section_line_def section_entries_def
        split: prod.splits)
qed

section \<open>Dictionaries that survive\<close>

text \<open>
  A storable section name is lower case without surrounding blanks; a storable entry lies
  in a section of the dictionary, has a non-NULL value, and its line fits the line buffer.
\<close>

definition section_ok :: "string \<Rightarrow> bool" where
  "section_ok s \<longleftrightarrow> stripped s \<and> lower s \<and> plain s \<and> length s + 4 \<le> ASCIILINESZ"

definition entry_ok :: "string \<Rightarrow> string \<Rightarrow> bool" where
  "entry_ok key t \<longleftrightarrow> key_ok key \<and> plain t \<and> length (entry_line 30 key t) + 2 \<le> ASCIILINESZ"

definition storable :: "dictionary \<Rightarrow> bool" where
  "storable d \<longleftrightarrow>
     list_all (\<lambda>(k, v).
       if is_section k then section_ok k \<and> v = None
       else dict_abs d (takeWhile (\<lambda>c. c \<noteq> CHR '':'') k) \<noteq> None \<and>
            (case v of None \<Rightarrow> False
             | Some t \<Rightarrow> entry_ok (tl (dropWhile (\<lambda>c. c \<noteq> CHR '':'') k)) t)) (entries d)"

definition upd :: "(string \<times> cptr) list \<Rightarrow> (string \<rightharpoonup> cptr) \<Rightarrow> (string \<rightharpoonup> cptr)" where
  "upd kvs m = fold (\<lambda>(k, v) m. m(k \<mapsto> v)) kvs m"

lemma upd_simps [simp]:
  "upd [] m = m" "upd ((k, v) # kvs) m = upd kvs (m(k \<mapsto> v))" "upd (kvs @ kvs') m = upd kvs' (upd kvs m)"
  by (simp_all add: upd_def)

lemma upd_map_of: "upd kvs m = m ++ map_of (rev kvs)"
proof (induction kvs arbitrary: m)
  case (Cons kv kvs)
  then show ?case by (cases kv) (simp add: map_add_upd_left map_add_def fun_eq_iff split: option.splits)
qed simp

lemma upd_same:
  assumes "set L = set E" "distinct (map fst E)"
  shows "upd L Map.empty = map_of E"
proof
  fix k
  have mem: "map_of (rev L) k = Some v \<Longrightarrow> map_of E k = Some v" for v
    using assms map_of_SomeD[of "rev L" k v] by simp
  have "map_of (rev L) k = None \<longleftrightarrow> map_of E k = None"
    using assms(1) by (simp add: map_of_eq_None_iff)
  with mem show "upd L Map.empty k = map_of E k"
    by (cases "map_of (rev L) k") (auto simp: upd_map_of)
qed

text \<open>An entry of a section splits at the colon after the section's name.\<close>

lemma section_key_split:
  assumes "is_section s"
  shows "takeWhile (\<lambda>c. c \<noteq> CHR '':'') (s @ '':'' @ k) = s" "tl (dropWhile (\<lambda>c. c \<noteq> CHR '':'') (s @ '':'' @ k)) = k"
  using assms by (induction s) auto

lemma storable_section: "storable d \<Longrightarrow> s \<in> set (sections d) \<Longrightarrow> section_ok s \<and> (s, None) \<in> set (entries d) \<and> is_section s"
  by (force simp: storable_def sections_def list_all_iff)

lemma storable_entry:
  assumes "storable d" "(k, v) \<in> set (section_entries (entries d) s)" "is_section s"
  shows "\<exists>key t. k = s @ '':'' @ key \<and> v = Some t \<and> entry_ok key t"
proof -
  from assms(2) obtain key where k: "k = s @ '':'' @ key" "(k, v) \<in> set (entries d)"
    by (auto simp: section_entries_def has_prefix_iff)
  with assms(1) section_key_split(2)[OF assms(3), of key] show ?thesis
    by (fastforce simp: storable_def list_all_iff split: option.splits)
qed

lemma entry_ok_escape: "entry_ok key t \<Longrightarrow> length (escape_loop t) < 2 * ASCIILINESZ + 2"
  by (simp add: entry_ok_def entry_line_def)

lemma dump_sections_text:
  assumes wf: "dict_wf d" and st: "storable d"
  shows "i + m = length (sections d) \<Longrightarrow> dump_sections (Some d) m (int i) (Some out) =
     Some (Some (out @ concat (map (section_text (entries d)) (drop i (sections d)))))"
proof (induction m arbitrary: i out)
  case (Suc m)
  let ?s = "sections d ! i"
  have i: "i < length (sections d)" using Suc.prems by simp
  then have s: "section_ok ?s" "(?s, None) \<in> set (entries d)" "is_section ?s"
    using storable_section[OF st, of ?s] by auto
  have "iniparser_dumpsection_ini (Some d) (Some ?s) (Some out) = Some (Some (out @ section_text (entries d) ?s))"
    using s entries_abs[OF wf] storable_entry[OF st _ s(3)] entry_ok_escape
    by (intro dumpsection_text[OF wf]) (auto simp: section_ok_def, blast)
  moreover have "drop i (sections d) = ?s # drop (Suc i) (sections d)" using i by (simp add: Cons_nth_drop_Suc)
  ultimately show ?case
    using Suc.IH[of "Suc i"] Suc.prems i by (simp add: getsecname_entries[OF wf] add.commute)
qed simp

lemma load_loop_entries:
  "load_at st m s \<Longrightarrow> (\<And>k v. (k, v) \<in> set es \<Longrightarrow> \<exists>key t. k = s @ '':'' @ key \<and> v = Some t \<and> entry_ok key t) \<Longrightarrow>
   \<exists>st'. load_loop (concat (map (entry_text s) es) @ rest) st = load_loop rest st' \<and> load_at st' (upd es m) s"
proof (induction es arbitrary: st m)
  case (Cons kv es)
  from Cons.prems(2)[of "fst kv" "snd kv"] obtain key t where
    kv: "kv = (s @ '':'' @ key, Some t)" "entry_ok key t" by (metis list.set_intros(1) prod.collapse)
  from load_loop_entry[OF Cons.prems(1), of key t 30 "concat (map (entry_text s) es) @ rest"] kv(2) obtain st1 where
    st1: "load_loop (entry_line 30 key t @ LF # concat (map (entry_text s) es) @ rest) st =
        load_loop (concat (map (entry_text s) es) @ rest) st1" "load_at st1 (m(s @ '':'' @ key \<mapsto> Some t)) s"
    by (auto simp: entry_ok_def)
  have "entry_text s kv = entry_line 30 key t @ [LF]" by (simp add: kv(1) entry_text_def)
  moreover obtain st' where "load_loop (concat (map (entry_text s) es) @ rest) st1 = load_loop rest st'"
    "load_at st' (upd es (m(s @ '':'' @ key \<mapsto> Some t))) s"
    using Cons.IH[OF st1(2)] Cons.prems(2) by (meson list.set_intros(2))
  ultimately show ?case using st1(1) kv(1) by auto
qed auto

lemma load_loop_sections:
  assumes st: "storable d"
  shows "load_at s0 m sec \<Longrightarrow> set secs \<subseteq> set (sections d) \<Longrightarrow>
   \<exists>st' sec'. load_loop (concat (map (section_text (entries d)) secs) @ rest) s0 = load_loop rest st' \<and>
     load_at st' (upd (concat (map (\<lambda>s. (s, None) # section_entries (entries d) s) secs)) m) sec'"
proof (induction secs arbitrary: s0 m sec)
  case (Cons s secs)
  let ?r = "concat (map (section_text (entries d)) secs) @ rest" and ?e = "section_entries (entries d) s"
  have s: "section_ok s" "is_section s" using storable_section[OF st, of s] Cons.prems(2) by auto
  from load_loop_blank[OF Cons.prems(1)] obtain s1 where s1: "load_at s1 m sec"
    "load_loop (LF # section_line s @ LF # concat (map (entry_text s) ?e) @ LF # ?r) s0 =
     load_loop (section_line s @ LF # concat (map (entry_text s) ?e) @ LF # ?r) s1" by blast
  from load_loop_section[OF s1(1)] s(1) obtain s2 where s2: "load_at s2 (m(s \<mapsto> None)) s"
    "load_loop (section_line s @ LF # concat (map (entry_text s) ?e) @ LF # ?r) s1 =
     load_loop (concat (map (entry_text s) ?e) @ LF # ?r) s2" unfolding section_ok_def by blast
  from load_loop_entries[OF s2(1), of ?e "LF # ?r"] storable_entry[OF st _ s(2)] obtain s3 where
    s3: "load_at s3 (upd ?e (m(s \<mapsto> None))) s"
    "load_loop (concat (map (entry_text s) ?e) @ LF # ?r) s2 = load_loop (LF # ?r) s3" by blast
  from load_loop_blank[OF s3(1)] obtain s4 where s4: "load_at s4 (upd ?e (m(s \<mapsto> None))) s"
    "load_loop (LF # ?r) s3 = load_loop ?r s4" by blast
  have "load_loop (section_text (entries d) s @ ?r) s0 = load_loop ?r s4"
    using s1(2) s2(2) s3(2) s4(2) by (simp add: section_text_def)
  with Cons.IH[OF s4(1)] Cons.prems(2) show ?case by auto
qed auto

lemma all_entries_dumped:
  assumes wf: "dict_wf d" and st: "storable d"
  shows "set (concat (map (\<lambda>s. (s, None) # section_entries (entries d) s) (sections d))) = set (entries d)"
proof (intro equalityI subsetI)
  fix kv assume "kv \<in> set (entries d)"
  moreover obtain k v where kv: "kv = (k, v)" by fastforce
  ultimately have mem: "(k, v) \<in> set (entries d)" by simp
  show "kv \<in> set (concat (map (\<lambda>s. (s, None) # section_entries (entries d) s) (sections d)))"
  proof (cases "is_section k")
    case True
    with mem st have "v = None" "k \<in> set (sections d)" by (force simp: storable_def sections_def list_all_iff)+
    then show ?thesis by (auto simp: kv)
  next
    case False
    define s where "s = takeWhile (\<lambda>c. c \<noteq> CHR '':'') k"
    have "k = s @ dropWhile (\<lambda>c. c \<noteq> CHR '':'') k" by (simp add: s_def)
    moreover have "dropWhile (\<lambda>c. c \<noteq> CHR '':'') k \<noteq> []" "hd (dropWhile (\<lambda>c. c \<noteq> CHR '':'') k) = CHR '':''"
      using False hd_dropWhile[of "\<lambda>c. c \<noteq> CHR '':''" k] by (auto simp: dropWhile_eq_Nil_conv)
    ultimately have "has_prefix (s @ '':'') k"
      by (metis append.assoc append_Cons append_Nil has_prefix_iff list.collapse)
    moreover have "is_section s" by (auto simp: s_def dest: set_takeWhileD)
    moreover have "dict_abs d s \<noteq> None" using mem st False by (force simp: storable_def list_all_iff s_def)
    then have "s \<in> fst ` set (entries d)" using entries_abs[OF wf] by (force simp: image_iff)
    ultimately show ?thesis using mem by (auto simp: kv sections_def section_entries_def)
  qed
next
  fix kv assume "kv \<in> set (concat (map (\<lambda>s. (s, None) # section_entries (entries d) s) (sections d)))"
  then show "kv \<in> set (entries d)"
    using storable_section[OF st] by (auto simp: section_entries_def)
qed

lemma dump_ini_text:
  assumes "dict_wf d" "storable d" "sections d \<noteq> []"
  shows "iniparser_dump_ini (Some d) (Some []) =
     Some (Some (concat (map (section_text (entries d)) (sections d)) @ [LF]))"
  using assms dump_sections_text[OF assms(1,2), of 0 "length (sections d)" "[]"]
  by (simp add: iniparser_dump_ini_def getnsec_entries)

lemma load_loop_Nil:
  assumes "load_at st m sec"
  shows "load_loop [] st = Some (st, True)"
proof -
  have "ASCIILINESZ - length (l_line st) - 1 = Suc (ASCIILINESZ - 2)"
    using assms by (simp add: load_at_def ASCIILINESZ_def)
  then show ?thesis by (subst load_loop.simps) (simp del: diff_diff_left)
qed

section \<open>Properties\<close>

text \<open>
  C3. Round trip. A well-formed dictionary with at least one section whose names and
  entries are storable, written by \<^verbatim>\<open>iniparser_dump_ini\<close> and read back by
  \<^verbatim>\<open>iniparser_load_file\<close>, gives a well-formed dictionary with the same contents, and no
  error is reported: quoting, escaping, padding and section headers are all undone.
\<close>

theorem dump_load_roundtrip:
  assumes wf: "dict_wf d" and st: "storable d" and sec: "sections d \<noteq> []"
  shows "\<exists>txt d'. iniparser_dump_ini (Some d) (Some []) = Some (Some txt) \<and>
           iniparser_load_file txt [] = Some (Some d', []) \<and> dict_wf d' \<and> dict_abs d' = dict_abs d"
proof -
  let ?L = "concat (map (\<lambda>s. (s, None) # section_entries (entries d) s) (sections d))"
  let ?txt = "concat (map (section_text (entries d)) (sections d))"
  from dictionary_new_wf[of 0] obtain d0 where d0: "dictionary_new 0 [] = Some (Some d0, [])"
    "dict_wf d0" "dict_abs d0 = Map.empty" by blast
  then have "load_at (init_load d0 []) Map.empty []"
    by (simp add: load_at_def load_ok_def init_load_def init_bufs_def bufs_ok_def ASCIILINESZ_def)
  from load_loop_sections[OF st this, of "sections d" "[LF]"] obtain s1 sec1 where
    s1: "load_loop (?txt @ [LF]) (init_load d0 []) = load_loop [LF] s1" "load_at s1 (upd ?L Map.empty) sec1" by auto
  from load_loop_blank[OF s1(2), of "[]"] obtain s2 where
    s2: "load_loop [LF] s1 = load_loop [] s2" "load_at s2 (upd ?L Map.empty) sec1" by blast
  have "load_loop [] s2 = Some (s2, True)" by (rule load_loop_Nil[OF s2(2)])
  with s1(1) s2 d0(1) obtain d' where
    "iniparser_load_file (?txt @ [LF]) [] = Some (Some d', [])" "dict_wf d'" "dict_abs d' = upd ?L Map.empty"
    by (auto simp: load_at_def iniparser_load_file_def)
  moreover have "upd ?L Map.empty = dict_abs d"
    using upd_same[OF all_entries_dumped[OF wf st] distinct_entries[OF wf]] by (simp add: map_of_entries)
  ultimately show ?thesis using dump_ini_text[OF assms] by auto
qed

definition ini_example :: dictionary where
  "ini_example = \<lparr>d_n = 2, d_size = 3, d_val = [Some ([DQUOTE] @ ''a;b''), None, None],
     d_key = [Some ''net:ip'', None, Some ''net''],
     d_hash = [dictionary_hash (Some ''net:ip''), 0, dictionary_hash (Some ''net'')]\<rparr>"

lemma ini_example_facts: "dict_wf ini_example" "storable ini_example" "sections ini_example \<noteq> []"
proof -
  show "dict_wf ini_example"
    by (simp add: ini_example_def dict_wf_def All_less_Suc numeral_3_eq_3)
  show "storable ini_example"
    by (simp add: ini_example_def storable_def entries_def dict_abs_def section_ok_def entry_ok_def key_ok_def
        stripped_def lower_def plain_def entry_line_def pad_right_def tolower_def isspace_def char_names ASCIILINESZ_def)
  show "sections ini_example \<noteq> []" by (simp add: ini_example_def sections_def entries_def)
qed

theorem dump_load_roundtrip_witness:
  "storable ini_example \<and>
   (\<exists>txt d'. iniparser_dump_ini (Some ini_example) (Some []) = Some (Some txt) \<and>
      iniparser_load_file txt [] = Some (Some d', []) \<and> dict_abs d' ''net:ip'' = Some (Some ([DQUOTE] @ ''a;b'')))"
proof -
  have "dict_abs ini_example ''net:ip'' = Some (Some ([DQUOTE] @ ''a;b''))"
    by (simp add: ini_example_def dict_abs_def)
  with dump_load_roundtrip[OF ini_example_facts] ini_example_facts(2) show ?thesis by metis
qed


text \<open>
  Case-insensitive access with truncation: after \<^verbatim>\<open>iniparser_set\<close> a lookup returns the
  new value, cut to 1024 characters, for every key that agrees with the entry in its first
  1024 characters up to case, and what it returned before for every other key.
\<close>

theorem iniparser_get_set:
  assumes "dict_wf d"
  shows "do { ((rc, dp), al) \<leftarrow> iniparser_set (Some d) (Some k) (Some v) [];
              iniparser_getstring dp (Some k') def } =
     (if map tolower (take 1024 k') = map tolower (take 1024 k) then Some (Ptr (Some (take 1024 v)))
      else iniparser_getstring (Some d) (Some k') def)"
proof -
  obtain d' al where d': "dictionary_set (Some d) (Some (map tolower (take 1024 k))) (Some (take 1024 v)) [] =
      Some ((0, Some d'), al)" "dict_wf d'" "dict_abs d' = (dict_abs d)(map tolower (take 1024 k) \<mapsto> Some (take 1024 v))"
    using dictionary_set_abs[OF assms, of "[]" "map tolower (take 1024 k)" "Some (take 1024 v)"] by auto
  then show ?thesis
    by (simp add: iniparser_set_def strlwc_def strlwc_loop_eq ASCIILINESZ_def
        getstring_abs[OF assms, unfolded ASCIILINESZ_def] getstring_abs[OF d'(2), unfolded ASCIILINESZ_def])
qed

theorem iniparser_get_set_witness:
  "dict_wf ini_example \<and>
   do { ((rc, dp), al) \<leftarrow> iniparser_set (Some ini_example) (Some ''NET:Port'') (Some ''80'') [];
        iniparser_getstring dp (Some ''net:PORT'') PtrM1 } = Some (Ptr (Some ''80''))"
proof -
  have t: "take 1024 ''NET:Port'' = ''NET:Port''" "take 1024 ''net:PORT'' = ''net:PORT''" "take 1024 ''80'' = ''80''"
    by simp_all
  have "map tolower ''NET:Port'' = ''net:port''" "map tolower ''net:PORT'' = ''net:port''" by code_simp+
  with iniparser_get_set[OF ini_example_facts(1), of "''NET:Port''" "''80''" "''net:PORT''" PtrM1, unfolded t] ini_example_facts(1)
  show ?thesis by metis
qed

text \<open>
  \<^verbatim>\<open>iniparser_getseckeys\<close> stores exactly as many pointers as \<^verbatim>\<open>iniparser_getsecnkeys\<close>
  announces, so an array of that size is never overrun: the distinct full names of the
  entries of the section, in slot order, whatever the case of the name asked for.
\<close>

theorem getseckeys_fills_getsecnkeys:
  assumes wf: "dict_wf d" and sec: "dict_abs d (map tolower s) \<noteq> None" and len: "length s \<le> 1024"
  shows "\<exists>ks. iniparser_getseckeys (Some d) (Some s) = Some (Some ks) \<and>
     iniparser_getsecnkeys (Some d) (Some s) = Some (int (length ks)) \<and> distinct ks \<and>
     set ks = {map tolower s @ '':'' @ k |k. dict_abs d (map tolower s @ '':'' @ k) \<noteq> None}"
proof -
  let ?p = "map tolower s @ '':''"
  let ?ks = "filter (has_prefix ?p) (map fst (entries d))"
  have p: "section_prefix s = Some ?p" using len by (simp add: section_prefix_def ASCIILINESZ_def strlwc_loop_eq)
  have f: "iniparser_find_entry (Some d) (Some s) = Some True"
    using sec len by (simp add: find_entry_abs[OF wf] ASCIILINESZ_def)
  have mem: "k \<in> fst ` set (entries d) \<longleftrightarrow> dict_abs d k \<noteq> None" for k
    using entries_abs[OF wf, of k] by force
  have "set ?ks = {?p @ k |k. dict_abs d (?p @ k) \<noteq> None}"
    by (auto simp: has_prefix_iff mem simp del: split_paired_Ex)
  then show ?thesis
    using distinct_entries[OF wf] fold_prefix_keys[OF wf, of ?p] p f
    by (simp add: iniparser_getseckeys_def iniparser_getsecnkeys_def)
qed

theorem getseckeys_fills_getsecnkeys_witness:
  "dict_abs ini_example (map tolower ''Net'') \<noteq> None \<and>
   (\<exists>ks. iniparser_getseckeys (Some ini_example) (Some ''Net'') = Some (Some ks) \<and>
     iniparser_getsecnkeys (Some ini_example) (Some ''Net'') = Some (int (length ks)) \<and> ''net:ip'' \<in> set ks)"
proof -
  have n: "map tolower ''Net'' = ''net''" by code_simp
  have 1: "dict_abs ini_example (map tolower ''Net'') \<noteq> None"
    and 2: "dict_abs ini_example (map tolower ''Net'' @ '':'' @ ''ip'') \<noteq> None"
    and 3: "map tolower ''Net'' @ '':'' @ ''ip'' = ''net:ip''"
    unfolding n by (simp_all add: ini_example_def dict_abs_def)
  obtain ks where ks: "iniparser_getseckeys (Some ini_example) (Some ''Net'') = Some (Some ks)"
    "iniparser_getsecnkeys (Some ini_example) (Some ''Net'') = Some (int (length ks))"
    "set ks = {map tolower ''Net'' @ '':'' @ k |k. dict_abs ini_example (map tolower ''Net'' @ '':'' @ k) \<noteq> None}"
    using getseckeys_fills_getsecnkeys[OF ini_example_facts(1) 1] by auto
  have "''net:ip'' \<in> set ks" unfolding ks(3) by (rule CollectI, rule exI[of _ "''ip''"]) (use 2 3 in simp)
  with 1 ks show ?thesis by blast
qed

text \<open>
  Without a section the dump is not loadable as it stands: the only entry \<^verbatim>\<open>:key\<close> of a
  dictionary (what the loader stores for a key before the first section) is written with
  its colon, and loading that text stores it under \<^verbatim>\<open>::key\<close>.
\<close>

theorem sectionless_dump_drifts:
  assumes wf: "dict_wf d" and e: "entries d = [('':'' @ k, Some v)]"
    and k: "key_ok ('':'' @ k)" "plain v" "length (entry_line 0 ('':'' @ k) v) + 2 \<le> ASCIILINESZ"
  shows "\<exists>txt d'. iniparser_dump_ini (Some d) (Some []) = Some (Some txt) \<and>
           iniparser_load_file txt [] = Some (Some d', []) \<and> dict_abs d' = [''::'' @ k \<mapsto> Some v] \<and> dict_abs d' \<noteq> dict_abs d"
proof -
  let ?key = "'':'' @ k" and ?txt = "entry_line 0 ('':'' @ k) v @ [LF]"
  let ?f = "\<lambda>k v (e, out). (escape_loop (the v), out @ entry_line 0 k (the v) @ [LF])"
  have esc: "length (escape_loop v) < 2 * ASCIILINESZ + 2" using k(3) by (simp add: entry_line_def)
  have body: "(\<lambda>(escaped, out). do { v \<leftarrow> aget (d_val d) i; escaped' \<leftarrow> escape_value escaped v;
      Some (escaped', out @ k' @ '' = '' @ [DQUOTE] @ escaped' @ [DQUOTE, LF]) }) st = Some (?f k' (d_val d ! i) st)"
    if i: "i < d_size d" "d_key d ! i = Some k'" for i k' st
    using nth_entries[OF wf i] i esc dict_wfD(3)[OF wf]
    by (cases st) (simp add: e array_simps escape_value_def entry_line_def pad_right_def)
  have "iniparser_dump_ini (Some d) (Some []) = Some (Some ?txt)"
    by (simp add: iniparser_dump_ini_def getnsec_entries[OF wf] sections_def e for_keys_entries[where f = ?f, OF wf body] del: append_Cons append.simps)
  moreover from dictionary_new_wf[of 0] obtain d0 where d0: "dictionary_new 0 [] = Some (Some d0, [])"
    "dict_wf d0" "dict_abs d0 = Map.empty" by blast
  have "load_at (init_load d0 []) Map.empty []"
    using d0 by (simp add: load_at_def load_ok_def init_load_def init_bufs_def bufs_ok_def ASCIILINESZ_def)
  from load_loop_entry[OF this k, of "[]"] obtain s1 where
    s1: "load_loop ?txt (init_load d0 []) = load_loop [] s1" "load_at s1 [''::'' @ k \<mapsto> Some v] []" by auto
  have "load_loop [] s1 = Some (s1, True)" by (rule load_loop_Nil[OF s1(2)])
  with s1 d0 obtain d' where "iniparser_load_file ?txt [] = Some (Some d', [])" "dict_abs d' = [''::'' @ k \<mapsto> Some v]"
    by (auto simp: load_at_def iniparser_load_file_def)
  moreover have "dict_abs d = [?key \<mapsto> Some v]" using e by (simp flip: map_of_entries)
  then have "[''::'' @ k \<mapsto> Some v] \<noteq> dict_abs d" by (auto simp: fun_eq_iff dest: spec[of _ ?key])
  ultimately show ?thesis by metis
qed

definition flat_example :: dictionary where
  "flat_example = \<lparr>d_n = 1, d_size = 1, d_val = [Some ''1''], d_key = [Some '':port''],
     d_hash = [dictionary_hash (Some '':port'')]\<rparr>"

theorem sectionless_dump_drifts_witness:
  "\<exists>txt d'. iniparser_dump_ini (Some flat_example) (Some []) = Some (Some txt) \<and>
     iniparser_load_file txt [] = Some (Some d', []) \<and> dict_abs d' = [''::'' @ ''port'' \<mapsto> Some ''1''] \<and>
     dict_abs d' \<noteq> dict_abs flat_example"
  by (rule sectionless_dump_drifts)
     (simp_all add: flat_example_def dict_wf_def entries_def key_ok_def stripped_def lower_def plain_def
        entry_line_def pad_right_def tolower_def isspace_def char_names ASCIILINESZ_def)

text \<open>
  The length check of \<^verbatim>\<open>iniparser_dumpsection_ini\<close> is off by two: for a section name of
  1024 characters, which \<^verbatim>\<open>iniparser_set\<close> can create, \<^verbatim>\<open>sprintf\<close> writes 1026 bytes into the
  buffer of 1025.
\<close>

theorem dumpsection_overflow:
  assumes wf: "dict_wf d" and s: "dict_abs d s \<noteq> None" "map tolower s = s" "length s = 1024"
  shows "iniparser_dumpsection_ini (Some d) (Some s) (Some out) = None"
  using s by (simp add: iniparser_dumpsection_ini_def find_entry_abs[OF wf] ASCIILINESZ_def)

definition long_example :: dictionary where
  "long_example = \<lparr>d_n = 1, d_size = 1, d_val = [None], d_key = [Some (replicate 1024 (CHR ''a''))],
     d_hash = [dictionary_hash (Some (replicate 1024 (CHR ''a'')))]\<rparr>"

theorem dumpsection_overflow_witness:
  "iniparser_dumpsection_ini (Some long_example) (Some (replicate 1024 (CHR ''a''))) (Some []) = None"
  by (rule dumpsection_overflow)
     (simp_all add: long_example_def dict_wf_def dict_abs_def tolower_def map_replicate)

section \<open>Numbers through strings\<close>

lemma nat_dec_len: "n < 10 ^ Suc m \<Longrightarrow> length (nat_dec n) \<le> Suc m"
proof (induction m arbitrary: n)
  case (Suc m)
  have "n div 10 < 10 ^ Suc m" using Suc.prems by (simp add: less_mult_imp_div_less)
  with Suc.IH show ?case by (subst nat_dec.simps) simp
qed (subst nat_dec.simps, simp)

lemma scan_base0_nat_dec: "scan_base0 (nat_dec n) = n"
proof (cases "n = 0")
  case True
  have "nat_dec 0 = [CHR ''0'']" by code_simp
  with True show ?thesis by simp
next
  case False
  then obtain d where d: "0 < d" "d < 10" "hd (nat_dec n) = digit_char d" using nat_dec_hd by blast
  have "digit_char d \<noteq> CHR ''0''" using of_char_digit[OF d(2)] d(1) by auto
  then have "scan_base0 (nat_dec n) = digits_val 10 0 (nat_dec n)"
    using d(3) nat_dec_nonempty[of n] by (cases "nat_dec n" rule: scan_base0.cases) auto
  then show ?thesis by (simp add: digits_val_nat_dec)
qed

lemma nat_dec_first:
  assumes "nat_dec n = c # cs"
  shows "\<not> isspace c \<and> c \<noteq> CHR ''-'' \<and> c \<noteq> CHR ''+''"
proof -
  have "\<exists>v < 10. digit_val c = Some v" using nat_dec_digits[of n] assms by simp
  then show ?thesis by (auto simp: digit_val_def isspace_def Let_def split: if_splits)
qed

lemma scan_integer_int_dec: "scan_integer (int_dec i) = (i < 0, nat \<bar>i\<bar>)"
proof -
  obtain c cs where c: "nat_dec (nat \<bar>i\<bar>) = c # cs" by (meson list.exhaust nat_dec_nonempty)
  with nat_dec_first[OF c] scan_base0_nat_dec[of "nat \<bar>i\<bar>"] show ?thesis
    by (auto simp: scan_integer_def int_dec_def isspace_def)
qed

lemma strtol0_int_dec: "LONG_MIN \<le> i \<Longrightarrow> i \<le> LONG_MAX \<Longrightarrow> strtol0 (int_dec i) = i"
  by (auto simp: strtol0_def scan_integer_int_dec)

lemma int_dec_len: "LONG_MIN \<le> i \<Longrightarrow> i \<le> LONG_MAX \<Longrightarrow> length (int_dec i) \<le> 1024"
proof -
  assume "LONG_MIN \<le> i" "i \<le> LONG_MAX"
  then have "nat \<bar>i\<bar> < 10 ^ Suc 19" by (simp add: LONG_MIN_def LONG_MAX_def nat_less_iff)
  from nat_dec_len[OF this] show ?thesis by (cases "i < 0") (simp_all add: int_dec_def)
qed

lemma int_cast_range: "- (2 ^ 31) \<le> i \<Longrightarrow> i < 2 ^ 31 \<Longrightarrow> int_cast i = i"
  by (simp add: int_cast_def signed_of_int signed_take_bit_int_eq_self)

text \<open>
  Integers survive the string representation: a \<^verbatim>\<open>long\<close> stored in decimal, negative or
  not, is what \<^verbatim>\<open>iniparser_getlongint\<close> returns, and \<^verbatim>\<open>iniparser_getint\<close> returns it whenever it
  is in the range of \<^verbatim>\<open>int\<close>; outside that range the low 32 bits come back.
\<close>

theorem getint_set_decimal:
  assumes wf: "dict_wf d" and i: "LONG_MIN \<le> i" "i \<le> LONG_MAX"
  shows "do { ((rc, dp), al) \<leftarrow> iniparser_set (Some d) (Some k) (Some (int_dec i)) [];
              l \<leftarrow> iniparser_getlongint dp (Some k) nf;
              n \<leftarrow> iniparser_getint dp (Some k) nf;
              Some (l, n) } = Some (i, if - (2 ^ 31) \<le> i \<and> i < 2 ^ 31 then i else int_cast i)"
proof -
  let ?k = "map tolower (take ASCIILINESZ k)"
  have t: "take ASCIILINESZ (int_dec i) = int_dec i" using int_dec_len[OF i] by (simp add: ASCIILINESZ_def)
  obtain d' al where d': "dictionary_set (Some d) (Some ?k) (Some (int_dec i)) [] = Some ((0, Some d'), al)"
    "dict_wf d'" "dict_abs d' = (dict_abs d)(?k \<mapsto> Some (int_dec i))"
    using dictionary_set_abs[OF wf, of "[]" ?k "Some (int_dec i)"] by auto
  then show ?thesis
    using strtol0_int_dec[OF i] int_cast_range[of i]
    by (simp add: iniparser_set_def strlwc_def strlwc_loop_eq t iniparser_getlongint_def iniparser_getint_def
        getstring_abs)
qed

theorem getint_set_decimal_witness:
  "do { ((rc, dp), al) \<leftarrow> iniparser_set (Some ini_example) (Some ''net:mtu'') (Some (int_dec (-42))) [];
        l \<leftarrow> iniparser_getlongint dp (Some ''net:mtu'') 0;
        n \<leftarrow> iniparser_getint dp (Some ''net:mtu'') 0;
        Some (l, n) } = Some (-42, -42)"
proof -
  have "LONG_MIN \<le> -42" "-42 \<le> LONG_MAX" by (simp_all add: LONG_MIN_def LONG_MAX_def)
  from getint_set_decimal[OF ini_example_facts(1) this, of "''net:mtu''" 0] show ?thesis by simp
qed

end
