(* ===== verification/CString.thy ===== *)
theory CString
  imports CLib
begin

text \<open>
  Strings in memory, for the sources that parse and build messages in fixed buffers. A
  buffer is the list of its bytes. A pointer into an object is the list of the bytes from
  the place it points to up to the end of the object, so a pointer moves by dropping bytes
  and the distance of two pointers into one object is the difference of their lengths. A
  pointer that may be NULL is an option; binding it in the option monad is the dereference,
  and \<^const>\<open>None\<close> stands, as everywhere, for undefined behaviour.
\<close>

named_theorems cstring_simps \<open>string functions on buffers with a known terminator\<close>

section \<open>Pointers and searches\<close>

type_synonym cbuf = string
type_synonym ptr = string

definition CRLF :: string where "CRLF = [CHR 0x0D, LF]"

text \<open>The string at a pointer; reading past the end of an object without a NUL is undefined.\<close>

definition str_of :: "ptr \<Rightarrow> string option" where
  "str_of p = (if NUL \<in> set p then Some (cstr p) else None)"

definition padd :: "ptr \<Rightarrow> nat \<Rightarrow> ptr option" where
  "padd p k = (if k \<le> length p then Some (drop k p) else None)"

text \<open>\<^verbatim>\<open>q - p\<close>\<close>

definition pdiff :: "ptr \<Rightarrow> ptr \<Rightarrow> int" where
  "pdiff q p = int (length p) - int (length q)"

fun find_sub :: "string \<Rightarrow> string \<Rightarrow> nat option" where
  "find_sub k [] = (if k = [] then Some 0 else None)"
| "find_sub k (c # cs) =
     (if take (length k) (c # cs) = k then Some 0 else map_option Suc (find_sub k cs))"

definition find_chr :: "char \<Rightarrow> string \<Rightarrow> nat option" where
  "find_chr c s = (if c \<in> set s then Some (length (takeWhile (\<lambda>x. x \<noteq> c) s)) else None)"

definition find_last :: "char \<Rightarrow> string \<Rightarrow> nat option" where
  "find_last c s = map_option (\<lambda>i. length s - 1 - i) (find_chr c (rev s))"

definition strstr :: "ptr \<Rightarrow> string \<Rightarrow> ptr option option" where
  "strstr p k = do { s \<leftarrow> str_of p; Some (map_option (\<lambda>i. drop i p) (find_sub k s)) }"

definition strchr :: "ptr \<Rightarrow> char \<Rightarrow> ptr option option" where
  "strchr p c = do { s \<leftarrow> str_of p; Some (map_option (\<lambda>i. drop i p) (find_chr c s)) }"

definition strrchr :: "ptr \<Rightarrow> char \<Rightarrow> ptr option option" where
  "strrchr p c = do { s \<leftarrow> str_of p; Some (map_option (\<lambda>i. drop i p) (find_last c s)) }"

text \<open>\<^verbatim>\<open>strncmp(p, k, strlen(k)) == 0\<close>\<close>

definition strncmp_eq :: "ptr \<Rightarrow> string \<Rightarrow> bool option" where
  "strncmp_eq p k =
     (if NUL \<in> set p \<or> length k \<le> length p then Some (take (length k) (cstr p) = k) else None)"

section \<open>Stores\<close>

text \<open>A negative count is converted to a \<^verbatim>\<open>size_t\<close> no buffer has room for.\<close>

definition strncpy :: "cbuf \<Rightarrow> ptr \<Rightarrow> int \<Rightarrow> cbuf option" where
  "strncpy dst src n =
     (if 0 \<le> n \<and> nat n \<le> length dst \<and> (NUL \<in> set src \<or> nat n \<le> length src)
      then Some (take (nat n) (cstr src @ replicate (nat n) NUL) @ drop (nat n) dst)
      else None)"

text \<open>\<^verbatim>\<open>pos += sprintf(&buf[pos], ...)\<close> for the text the format produces.\<close>

definition sprintf_at :: "cbuf \<Rightarrow> nat \<Rightarrow> string \<Rightarrow> (nat \<times> cbuf) option" where
  "sprintf_at buf pos s =
     (if pos + length s < length buf
      then Some (pos + length s, take pos buf @ s @ NUL # drop (pos + length s + 1) buf)
      else None)"

definition memset0 :: "cbuf \<Rightarrow> nat \<Rightarrow> cbuf option" where
  "memset0 buf n = (if n \<le> length buf then Some (replicate n NUL @ drop n buf) else None)"

text \<open>The bytes a read of at most the room from \<^verbatim>\<open>pos\<close> on stores.\<close>

definition store_at :: "cbuf \<Rightarrow> nat \<Rightarrow> string \<Rightarrow> cbuf option" where
  "store_at buf pos d =
     (if pos + length d \<le> length buf then Some (take pos buf @ d @ drop (pos + length d) buf) else None)"

section \<open>Numbers\<close>

definition isdigit :: "char \<Rightarrow> bool" where
  "isdigit c \<longleftrightarrow> 48 \<le> (of_char c :: nat) \<and> of_char c \<le> (57 :: nat)"

definition split_sign :: "string \<Rightarrow> bool \<times> string" where
  "split_sign s = (case s of
      [] \<Rightarrow> (False, [])
    | c # cs \<Rightarrow> if c = CHR ''-'' then (True, cs) else if c = CHR ''+'' then (False, cs) else (False, s))"

definition scan_int :: "string \<Rightarrow> int option" where
  "scan_int s = (let (neg, u) = split_sign (dropWhile isspace s); ds = takeWhile isdigit u in
     if ds = [] then None
     else Some (if neg then - int (digits_val 10 0 ds) else int (digits_val 10 0 ds)))"

text \<open>
  \<^verbatim>\<open>sscanf(s, "%d", &x)\<close>: the new value of \<^verbatim>\<open>x\<close>. Without a number it is unchanged; a number
  outside \<^verbatim>\<open>int\<close> is undefined.
\<close>

definition sscanf_d :: "string \<Rightarrow> int \<Rightarrow> int option" where
  "sscanf_d s old = (case scan_int s of
      None \<Rightarrow> Some old
    | Some v \<Rightarrow> if - (2 ^ 31) \<le> v \<and> v < 2 ^ 31 then Some v else None)"

section \<open>Tokens\<close>

text \<open>
  One call of \<^verbatim>\<open>strtok\<close> on a buffer whose saved position is \<^verbatim>\<open>pos\<close>: the token, the buffer with
  the delimiter after it overwritten, and the new position.
\<close>

definition strtok :: "(char \<Rightarrow> bool) \<Rightarrow> cbuf \<Rightarrow> nat \<Rightarrow> (string option \<times> cbuf \<times> nat) option" where
  "strtok delim buf pos =
     do { s \<leftarrow> str_of (drop pos buf);
          let s1 = dropWhile delim s;
          let q = pos + (length s - length s1);
          let tok = takeWhile (\<lambda>c. \<not> delim c) s1;
          let e = q + length tok;
          Some (if s1 = [] then (None, buf, q)
                else if length tok < length s1 then (Some tok, buf[e := NUL], e + 1)
                else (Some tok, buf, e)) }"

section \<open>Strings with a known terminator\<close>

lemma cstr_append [cstring_simps]: "NUL \<notin> set s \<Longrightarrow> cstr (s @ NUL # r) = s"
  by (induction s) (auto simp: cstr_def)

lemma cstr_append_cstr: "NUL \<notin> set s \<Longrightarrow> cstr (s @ r) = s @ cstr r"
  by (induction s) (auto simp: cstr_def)

lemma cstr_NUL_free: "NUL \<notin> set (cstr p)"
  by (auto simp: cstr_def dest: set_takeWhileD)

lemma length_cstr: "length (cstr p) \<le> length p"
  by (simp add: cstr_def length_takeWhile_le)

lemma str_of_append [cstring_simps]: "NUL \<notin> set s \<Longrightarrow> str_of (s @ NUL # r) = Some s"
  by (simp add: str_of_def cstr_append)

lemma str_of_SomeD: "str_of p = Some s \<Longrightarrow> NUL \<notin> set s \<and> (\<exists>r. p = s @ NUL # r)"
proof -
  assume a: "str_of p = Some s"
  then have "NUL \<in> set p" and s: "s = cstr p" by (auto simp: str_of_def split: if_splits)
  then obtain u v where "p = u @ NUL # v" "NUL \<notin> set u" by (meson split_list_first)
  with s show ?thesis using cstr_append by auto
qed

lemma find_chr_append [cstring_simps]: "c \<notin> set s \<Longrightarrow> find_chr c (s @ c # r) = Some (length s)"
  by (induction s) (auto simp: find_chr_def)

lemma find_chr_NoneI [cstring_simps]: "c \<notin> set s \<Longrightarrow> find_chr c s = None"
  by (simp add: find_chr_def)

lemma find_last_append [cstring_simps]: "c \<notin> set r \<Longrightarrow> find_last c (s @ c # r) = Some (length s)"
proof -
  assume "c \<notin> set r"
  then have "find_chr c (rev r @ c # rev s) = Some (length (rev r))" by (intro find_chr_append) simp
  then show ?thesis by (simp add: find_last_def)
qed

lemma strchr_at [cstring_simps]:
  assumes "NUL \<notin> set s" "c \<notin> set s" "NUL \<in> set r" "c \<noteq> NUL"
  shows "strchr (s @ c # r) c = Some (Some (c # r))"
proof -
  have "str_of (s @ c # r) = Some (s @ c # cstr r)"
    using assms by (simp add: str_of_def cstr_append_cstr) (simp add: cstr_def)
  then show ?thesis using assms by (simp add: strchr_def find_chr_append)
qed

lemma find_sub_Some: "find_sub k s = Some i \<Longrightarrow> \<exists>r. s = take i s @ k @ r"
proof (induction k s arbitrary: i rule: find_sub.induct)
  case (2 k c cs)
  show ?case
  proof (cases "take (length k) (c # cs) = k")
    case True
    then have "c # cs = k @ drop (length k) (c # cs)" by (metis append_take_drop_id)
    with 2 True show ?thesis by auto
  next
    case False
    with 2 show ?thesis by auto
  qed
qed (auto split: if_splits)

lemma find_sub_hit: "find_sub k (k @ r) = Some 0"
  by (cases k; cases r) auto

lemma find_sub_char: "find_sub [c] s = find_chr c s"
  by (induction s) (auto simp: find_chr_def)

text \<open>A search with one character by \<^verbatim>\<open>strstr\<close> is a search by \<^verbatim>\<open>strchr\<close>.\<close>

lemma strstr_char: "strstr p [c] = strchr p c"
  by (simp add: strstr_def strchr_def find_sub_char)

text \<open>A needle that starts with a character the front of the text lacks is found behind it.\<close>

lemma find_sub_skip: "a \<notin> set xs \<Longrightarrow> find_sub (a # k) (xs @ r) = map_option (\<lambda>i. length xs + i) (find_sub (a # k) r)"
  by (induction xs) (auto simp: option.map_comp comp_def map_option_case split: option.split)

lemma find_sub_miss: "take (length k) (c # cs) \<noteq> k \<Longrightarrow> find_sub k (c # cs) = map_option Suc (find_sub k cs)"
  by simp

section \<open>Stores at the end of what was written\<close>

lemma sprintf_at_length: "sprintf_at buf pos s = Some (q, buf') \<Longrightarrow> length buf' = length buf"
  by (auto simp: sprintf_at_def split: if_splits)

lemma sprintf_seq:
  "do { (pos, b) \<leftarrow> sprintf_at buf 0 w; (pos, b) \<leftarrow> sprintf_at b pos s; f pos b } =
   do { (pos, b) \<leftarrow> sprintf_at buf 0 (w @ s); f pos b }"
proof (cases "length (w @ s) < length buf")
  case True
  then have "drop (length s + 1) (NUL # drop (length w + 1) buf) = drop (length w + length s + 1) buf"
    by (simp add: add.commute)
  moreover have "length w + length s < Suc (length buf - Suc 0)" using True by simp
  ultimately show ?thesis using True by (simp add: sprintf_at_def)
next
  case False
  then have "\<not> (length w < length buf \<and> length w + length s < Suc (length buf - Suc 0))" by auto
  with False show ?thesis by (auto simp: sprintf_at_def)
qed

lemma sprintf_at_0: "length w < length buf \<Longrightarrow> sprintf_at buf 0 w = Some (length w, w @ NUL # drop (length w + 1) buf)"
  by (simp add: sprintf_at_def)

lemma strtok_progress:
  assumes "strtok d buf pos = Some (Some tok, buf', pos')"
  shows "length buf' = length buf" "pos < pos'" "pos < length buf"
proof -
  from assms obtain s where s: "str_of (drop pos buf) = Some s" and ne: "dropWhile d s \<noteq> []"
    by (auto simp: strtok_def Let_def bind_eq_Some_conv split: if_splits)
  have tok: "takeWhile (\<lambda>c. \<not> d c) (dropWhile d s) \<noteq> []"
    using ne hd_dropWhile[OF ne] by (cases "dropWhile d s") auto
  show "length buf' = length buf" "pos < pos'"
    using assms s ne tok by (auto simp: strtok_def Let_def split: if_splits)
  show "pos < length buf" using s by (cases "pos < length buf") (auto simp: str_of_def)
qed

lemma strtok_measure: "strtok d buf pos = Some (Some tok, buf', pos') \<Longrightarrow> length buf' - pos' < length buf - pos"
  using strtok_progress[of d buf pos tok buf' pos'] by linarith

lemma strstr_length: "strstr p k = Some (Some q) \<Longrightarrow> length q \<le> length p"
  by (auto simp: strstr_def bind_eq_Some_conv)

lemma strchr_length: "strchr p c = Some (Some q) \<Longrightarrow> length q \<le> length p"
  by (auto simp: strchr_def bind_eq_Some_conv)

lemma padd_length: "padd p k = Some q \<Longrightarrow> length p = length q + k"
  by (auto simp: padd_def split: if_splits)

lemmas ptr_lengths = strstr_length strchr_length padd_length

lemma int_dec_nat: "int_dec (int n) = nat_dec n"
  by (simp add: int_dec_def)

text \<open>A number below 1000 has at most three digits.\<close>

lemma length_nat_dec_3: "n < 1000 \<Longrightarrow> length (nat_dec n) \<le> 3"
  by (simp add: nat_dec.simps[of n] nat_dec.simps[of "n div 10"] nat_dec.simps[of "n div 10 div 10"])

end
