(* ===== verification/Posix.thy ===== *)
theory Posix
  imports CString
begin

text \<open>
  The operating system and OpenSSL as the network programs see them. A program's run is recorded as a
  trace of system calls with their replies, the newest first. The environment is a parameter:
  a function from the trace so far and the next call to the reply, so it may answer the same
  call differently each time. The wrappers read a reply the way the interface documents it:
  a read returns no more bytes than were asked for, \<^verbatim>\<open>select\<close> reports descriptors of the set
  it was given.
\<close>

section \<open>Calls, replies, traces\<close>

datatype syscall =
    Socket
  | Fcntl_getfl int
  | Fcntl_setfl int int
  | Setsockopt int string
  | Bind int int
  | Listen int nat
  | Accept int
  | Connect int string int
  | Select int "int set"
  | Recv int nat
  | Send int string
  | Close int
  | Popen string
  | Pclose int
  | System string
  | Access string
  | Remove string
  | Fopen string string
  | Fread int nat
  | Fwrite int string
  | Fclose int
  | Malloc nat
  | Free
  | Getsockname int
  | Getpeername int
  | Getservbyname string
  | Gethostbyname string
  | Inet_aton string
  | Inet_pton string
  | WSAStartup
  | WSACleanup
  | SSL_CTX_new
  | SSL_CTX_set_verify int
  | SSL_CTX_free int
  | SSL_new int
  | SSL_free int
  | BIO_new_socket int
  | SSL_set_bio int int
  | SSL_set_fd int int
  | SSL_connect int
  | SSL_get_peer_certificate int
  | SSL_read int nat
  | SSL_write int string

record reply =
  rval :: int
  rdata :: string
  rfds :: "int list"
  raddr :: u32
  rport :: u16

definition reply_of :: "int \<Rightarrow> reply" where
  "reply_of v = \<lparr> rval = v, rdata = [], rfds = [], raddr = 0, rport = 0 \<rparr>"

type_synonym trace = "(syscall \<times> reply) list"
type_synonym env = "trace \<Rightarrow> syscall \<Rightarrow> reply"

definition sys :: "env \<Rightarrow> syscall \<Rightarrow> trace \<Rightarrow> reply \<times> trace" where
  "sys env c tr = (let r = env tr c in (r, (c, r) # tr))"

definition sys_val :: "env \<Rightarrow> syscall \<Rightarrow> trace \<Rightarrow> int \<times> trace" where
  "sys_val env c tr = (let (r, tr) = sys env c tr in (rval r, tr))"

text \<open>\<^verbatim>\<open>recv\<close>: the result and the bytes stored.\<close>

definition sys_recv :: "env \<Rightarrow> int \<Rightarrow> nat \<Rightarrow> trace \<Rightarrow> int \<times> string \<times> trace" where
  "sys_recv env fd n tr =
     (let (r, tr) = sys env (Recv fd n) tr in
      if rval r < 0 then (-1, [], tr)
      else (let d = take n (rdata r) in (int (length d), d, tr)))"

text \<open>\<^verbatim>\<open>SSL_read\<close>: a positive result is the number of bytes stored; every other is an error or the end.\<close>

definition sys_ssl_read :: "env \<Rightarrow> int \<Rightarrow> nat \<Rightarrow> trace \<Rightarrow> int \<times> string \<times> trace" where
  "sys_ssl_read env ssl n tr =
     (let (r, tr) = sys env (SSL_read ssl n) tr in
      if rval r < 0 then (-1, [], tr)
      else (let d = take n (rdata r) in (int (length d), d, tr)))"

text \<open>\<^verbatim>\<open>fread(buf, 1, n, fp)\<close>: the bytes read.\<close>

definition sys_fread :: "env \<Rightarrow> int \<Rightarrow> nat \<Rightarrow> trace \<Rightarrow> string \<times> trace" where
  "sys_fread env fp n tr = (let (r, tr) = sys env (Fread fp n) tr in (take n (rdata r), tr))"

text \<open>\<^verbatim>\<open>select\<close> on the descriptors below \<^verbatim>\<open>n\<close> of a set: the number of ready ones and the ready set.\<close>

definition sys_select :: "env \<Rightarrow> int \<Rightarrow> int set \<Rightarrow> trace \<Rightarrow> int \<times> int set \<times> trace" where
  "sys_select env n fds tr =
     (let (r, tr) = sys env (Select n fds) tr in
      if rval r < 0 then (-1, fds, tr)
      else (let ready = Set.filter (\<lambda>fd. fd < n \<and> fd \<in> set (rfds r)) fds in (int (card ready), ready, tr)))"

text \<open>The bitmaps of \<^verbatim>\<open>fd_set\<close> have 1024 bits; an index outside is undefined.\<close>

definition FD_SET :: "int \<Rightarrow> int set \<Rightarrow> int set option" where
  "FD_SET fd s = (if 0 \<le> fd \<and> fd < 1024 then Some (insert fd s) else None)"

definition FD_CLR :: "int \<Rightarrow> int set \<Rightarrow> int set option" where
  "FD_CLR fd s = (if 0 \<le> fd \<and> fd < 1024 then Some (s - {fd}) else None)"

definition FD_ISSET :: "int \<Rightarrow> int set \<Rightarrow> bool option" where
  "FD_ISSET fd s = (if 0 \<le> fd \<and> fd < 1024 then Some (fd \<in> s) else None)"

text \<open>\<^verbatim>\<open>inet_ntop\<close> of an address in network order, and \<^verbatim>\<open>ntohs\<close>.\<close>

definition inet_ntop :: "u32 \<Rightarrow> string" where
  "inet_ntop a = nat_dec (unat (drop_bit 24 a AND 0xff)) @ ''.'' @ nat_dec (unat (drop_bit 16 a AND 0xff)) @ ''.'' @
     nat_dec (unat (drop_bit 8 a AND 0xff)) @ ''.'' @ nat_dec (unat (a AND 0xff))"

definition ntohs :: "u16 \<Rightarrow> u16" where
  "ntohs p = push_bit 8 p OR drop_bit 8 p"

text \<open>Taking a successful sequence of calls apart.\<close>

lemma bind_SomeE: "x \<bind> f = Some y \<Longrightarrow> (\<And>a. x = Some a \<Longrightarrow> f a = Some y \<Longrightarrow> P) \<Longrightarrow> P"
  by (cases x) auto

section \<open>Descriptors\<close>

text \<open>The descriptors the calls of a trace opened and did not close.\<close>

fun open_fds :: "trace \<Rightarrow> int set" where
  "open_fds [] = {}"
| "open_fds ((c, r) # tr) =
     (case c of
        Socket \<Rightarrow> if 0 \<le> rval r then insert (rval r) (open_fds tr) else open_fds tr
      | Accept _ \<Rightarrow> if 0 \<le> rval r then insert (rval r) (open_fds tr) else open_fds tr
      | Close fd \<Rightarrow> open_fds tr - {fd}
      | _ \<Rightarrow> open_fds tr)"

definition opens :: "syscall \<Rightarrow> bool" where
  "opens c = (case c of Socket \<Rightarrow> True | Accept _ \<Rightarrow> True | _ \<Rightarrow> False)"

text \<open>
  A new descriptor is one that is not in use; the standard streams stay open, so it is
  above 2.
\<close>

definition fresh_fds :: "env \<Rightarrow> bool" where
  "fresh_fds env \<longleftrightarrow> (\<forall>tr c. opens c \<longrightarrow> 0 \<le> rval (env tr c) \<longrightarrow> 2 < rval (env tr c) \<and> rval (env tr c) \<notin> open_fds tr)"

text \<open>An environment with this law: a new descriptor is above every number replied so far.\<close>

definition next_fd :: "trace \<Rightarrow> int" where
  "next_fd tr = foldr (\<lambda>(c, r) m. max m (rval r + 1)) tr 3"

definition numbering :: "env \<Rightarrow> env" where
  "numbering e tr c = (let r = e tr c in if opens c \<and> 0 \<le> rval r then r\<lparr> rval := next_fd tr \<rparr> else r)"

lemma open_fds_below: "fd \<in> open_fds tr \<Longrightarrow> fd < next_fd tr"
proof (induction tr)
  case (Cons x tr)
  obtain c r where x: "x = (c, r)" by force
  have n: "next_fd (x # tr) = max (next_fd tr) (rval r + 1)" by (simp add: next_fd_def x)
  have "fd \<in> open_fds tr \<or> fd = rval r" using Cons.prems by (cases c) (auto simp: x split: if_splits)
  then show ?case using Cons.IH n by auto
qed simp

lemma next_fd_3: "3 \<le> next_fd tr"
  by (induction tr) (auto simp: next_fd_def)

lemma numbering_fresh: "fresh_fds (numbering e)"
proof (unfold fresh_fds_def, intro allI impI)
  fix tr c assume "opens c" "0 \<le> rval (numbering e tr c)"
  then have "rval (numbering e tr c) = next_fd tr" by (auto simp: numbering_def Let_def split: if_splits)
  then show "2 < rval (numbering e tr c) \<and> rval (numbering e tr c) \<notin> open_fds tr"
    using next_fd_3[of tr] open_fds_below[of "next_fd tr" tr] by auto
qed

section \<open>Calls that leave the descriptors alone\<close>

lemma open_fds_other [simp]: "\<not> opens c \<Longrightarrow> \<forall>fd. c \<noteq> Close fd \<Longrightarrow> open_fds ((c, r) # tr) = open_fds tr"
  by (cases c) (auto simp: opens_def)

lemma open_fds_opens: "opens c \<Longrightarrow> open_fds ((c, r) # tr) = (if 0 \<le> rval r then insert (rval r) (open_fds tr) else open_fds tr)"
  by (cases c) (auto simp: opens_def)

end
