(* ===== verification/Ftps.thy ===== *)
theory Ftps
  imports Posix
begin

text \<open>
  The FTPS client, \<^verbatim>\<open>ftps/ftps_client.c\<close>: connecting, the control dialogue, passive data
  connections, download and upload. OpenSSL, the resolver and the file system are the
  environment. A pointer is a number, negative for \<^verbatim>\<open>NULL\<close>. Memory the program reads before
  it writes is a parameter: \<^verbatim>\<open>junk\<close> gives the bytes of the array \<^verbatim>\<open>lhost\<close> at each call, and
  \<^verbatim>\<open>fresh\<close> the structure \<^verbatim>\<open>malloc\<close> returns. The messages to the terminal and the queries for
  their error texts are left out.
\<close>

section \<open>Formatted input and output\<close>

text \<open>The directives of a \<^verbatim>\<open>sscanf\<close> format: \<^verbatim>\<open>%d\<close>, \<^verbatim>\<open>%s\<close>, white space and an ordinary character.\<close>

datatype directive = ScanInt | ScanWord | ScanBlank | ScanChar char

text \<open>The numbers and the words converted until the first mismatch.\<close>

fun sscanf :: "directive list \<Rightarrow> string \<Rightarrow> (int list \<times> string list) option" where
  "sscanf [] s = Some ([], [])"
| "sscanf (ScanBlank # fs) s = sscanf fs (dropWhile isspace s)"
| "sscanf (ScanChar c # fs) s =
     (case s of [] \<Rightarrow> Some ([], []) | x # xs \<Rightarrow> if x = c then sscanf fs xs else Some ([], []))"
| "sscanf (ScanInt # fs) s =
     (let (neg, u) = split_sign (dropWhile isspace s); ds = takeWhile isdigit u;
          v = (if neg then - int (digits_val 10 0 ds) else int (digits_val 10 0 ds)) in
      if ds = [] then Some ([], [])
      else if - (2 ^ 31) \<le> v \<and> v < 2 ^ 31 then do { (vs, ws) \<leftarrow> sscanf fs (dropWhile isdigit u); Some (v # vs, ws) }
      else None)"
| "sscanf (ScanWord # fs) s =
     (let s1 = dropWhile isspace s; w = takeWhile (\<lambda>c. \<not> isspace c) s1 in
      if w = [] then Some ([], [])
      else do { (vs, ws) \<leftarrow> sscanf fs (dropWhile (\<lambda>c. \<not> isspace c) s1); Some (vs, w # ws) })"

text \<open>\<^verbatim>\<open>snprintf\<close> with the size of the array: the text is cut to leave room for the terminator.\<close>

definition snprintf :: "cbuf \<Rightarrow> string \<Rightarrow> cbuf" where
  "snprintf b s = (let t = take (length b - 1) s in t @ NUL # drop (length t + 1) b)"

section \<open>Connections\<close>

record FtpsClient =
  ssl :: int
  ctx :: int
  sbio :: int
  connfd :: int
  mode :: int
  cli_ip :: cbuf
  cert :: int

text \<open>\<^verbatim>\<open>bzero(datahandle, sizeof(FtpsClient))\<close>\<close>

definition client0 :: FtpsClient where
  "client0 = \<lparr> ssl = -1, ctx = -1, sbio = -1, connfd = 0, mode = 0, cli_ip = replicate 16 NUL, cert = -1 \<rparr>"

definition TestConnection :: "env \<Rightarrow> int \<Rightarrow> trace \<Rightarrow> int \<times> trace" where
  "TestConnection env sock tr =
     (let (_, tr) = sys_val env (Getsockname sock) tr; (ret, tr) = sys_val env (Getpeername sock) tr in
      (if ret = 0 then 0 else -1, tr))"

text \<open>\<^verbatim>\<open>atoi\<close>; a number outside \<^verbatim>\<open>int\<close> is undefined.\<close>

definition atoi :: "string \<Rightarrow> int option" where
  "atoi s = sscanf_d s 0"

definition OpenConnectByIp :: "env \<Rightarrow> string \<Rightarrow> string \<Rightarrow> trace \<Rightarrow> (int \<times> trace) option" where
  "OpenConnectByIp env ip portno tr =
     do { p \<leftarrow> atoi portno;
          let (fd, tr) = sys_val env Socket tr;
          if fd < 0 then Some (-1, tr)
          else (let (r, tr) = sys_val env (Connect fd ip (p mod 65536)) tr in
            if r \<noteq> 0 then (let (_, tr) = sys_val env (Close fd) tr in Some (-1, tr)) else Some (fd, tr)) }"

text \<open>The port of \<^verbatim>\<open>lhost\<close>: the number, or the array with the name cut off. No number when the service is unknown.\<close>

definition host_port :: "env \<Rightarrow> cbuf \<Rightarrow> trace \<Rightarrow> (int option \<times> cbuf \<times> trace) option" where
  "host_port env lhost tr =
     do { pnum \<leftarrow> strchr lhost (CHR '':'');
          (case pnum of
             None \<Rightarrow>
               (let (r, tr) = sys env (Getservbyname ''ftp'') tr in
                Some (if rval r < 0 then None else Some (uint (ntohs (rport r))), lhost, tr))
           | Some p \<Rightarrow> do {
               s \<leftarrow> str_of (drop 1 p);
               let lhost = lhost[length lhost - length p := NUL];
               if s \<noteq> [] \<and> isdigit (hd s) then do { n \<leftarrow> atoi s; Some (Some (n mod 65536), lhost, tr) }
               else (let (r, tr) = sys env (Getservbyname s) tr in
                 if rval r < 0 then None else Some (Some (uint (ntohs (rport r))), lhost, tr)) }) }"

text \<open>The address of a host and the text stored in \<^verbatim>\<open>cli->ip\<close>; none when it is unknown.\<close>

definition host_addr :: "env \<Rightarrow> string \<Rightarrow> trace \<Rightarrow> string option \<times> trace" where
  "host_addr env name tr =
     (let (ret, tr) = sys_val env (Inet_aton name) tr in
      if ret = 0 then
        (let (r, tr) = sys env (Gethostbyname name) tr in
         (if rval r < 0 then None else Some (inet_ntop (raddr r)), tr))
      else (Some name, tr))"

text \<open>The socket with its options, connected.\<close>

definition connect_socket :: "env \<Rightarrow> string \<Rightarrow> int \<Rightarrow> trace \<Rightarrow> int \<times> trace" where
  "connect_socket env addr portno tr =
     (let (fd, tr) = sys_val env Socket tr in
      if fd = -1 then (-1, tr)
      else let (r, tr) = sys_val env (Setsockopt fd ''SO_REUSEADDR'') tr in
      if r = -1 then (-1, tr)
      else let (r, tr) = sys_val env (Setsockopt fd ''SO_LINGER'') tr in
      if r = -1 then (let (_, tr) = sys_val env (Close fd) tr in (-1, tr))
      else let (r, tr) = sys_val env (Connect fd addr portno) tr in
      if r = -1 then (-1, tr) else (fd, tr))"

definition OpenConnectByHost ::
    "env \<Rightarrow> (trace \<Rightarrow> cbuf) \<Rightarrow> FtpsClient \<Rightarrow> string \<Rightarrow> trace \<Rightarrow> (int \<times> FtpsClient \<times> trace) option" where
  "OpenConnectByHost env junk cli host tr =
     do { lhost \<leftarrow> store_at (take 24 (junk tr @ replicate 24 NUL)) 0 host;
          (portno, lhost, tr) \<leftarrow> host_port env lhost tr;
          (case portno of
             None \<Rightarrow> Some (0, cli, tr)
           | Some p \<Rightarrow> do {
               name \<leftarrow> str_of lhost;
               let (addr, tr) = host_addr env name tr;
               (case addr of
                  None \<Rightarrow> Some (-1, cli, tr)
                | Some a \<Rightarrow>
                    (let cli = cli\<lparr> cli_ip := snprintf (cli_ip cli) a \<rparr>; (fd, tr) = connect_socket env a p tr in
                     if fd = -1 then Some (-1, cli, tr) else Some (0, cli\<lparr> connfd := fd \<rparr>, tr))) }) }"

definition InitSSL :: "env \<Rightarrow> FtpsClient \<Rightarrow> trace \<Rightarrow> int \<times> FtpsClient \<times> trace" where
  "InitSSL env cli tr =
     (let (c, tr) = sys_val env SSL_CTX_new tr in
      if c < 0 then (-1, cli\<lparr> ctx := c \<rparr>, tr)
      else (let (_, tr) = sys_val env (SSL_CTX_set_verify c) tr; (s, tr) = sys_val env (SSL_new c) tr in
        (0, cli\<lparr> ctx := c, ssl := s \<rparr>, tr)))"

definition NegoSSL :: "env \<Rightarrow> FtpsClient \<Rightarrow> trace \<Rightarrow> (int \<times> FtpsClient \<times> trace) option" where
  "NegoSSL env cli tr =
     (let (b, tr) = sys_val env (BIO_new_socket (connfd cli)) tr; cli = cli\<lparr> sbio := b \<rparr> in
      if ssl cli < 0 then None
      else let (_, tr) = sys_val env (SSL_set_bio (ssl cli) b) tr;
               (_, tr) = sys_val env (SSL_set_fd (ssl cli) (connfd cli)) tr;
               (ret, tr) = sys_val env (SSL_connect (ssl cli)) tr in
        if ret \<le> 0 then Some (-1, cli, tr)
        else (let (c, tr) = sys_val env (SSL_get_peer_certificate (ssl cli)) tr in Some (0, cli\<lparr> cert := c \<rparr>, tr)))"

definition EnRecv :: "env \<Rightarrow> FtpsClient \<Rightarrow> cbuf \<Rightarrow> trace \<Rightarrow> (int \<times> cbuf \<times> trace) option" where
  "EnRecv env cli b tr =
     (if ssl cli < 0 then None
      else (let (ret, d, tr) = sys_ssl_read env (ssl cli) (length b) tr in do { b \<leftarrow> store_at b 0 d; Some (ret, b, tr) }))"

definition EnSend :: "env \<Rightarrow> FtpsClient \<Rightarrow> string \<Rightarrow> trace \<Rightarrow> (int \<times> trace) option" where
  "EnSend env cli s tr =
     (if ssl cli < 0 then None
      else (let (ret, tr) = sys_val env (SSL_write (ssl cli) s) tr in Some (if ret \<le> 0 then -1 else 0, tr)))"

definition PrintResp :: "env \<Rightarrow> FtpsClient \<Rightarrow> trace \<Rightarrow> (int \<times> trace) option" where
  "PrintResp env cli tr =
     do { (ret, b, tr) \<leftarrow> EnRecv env cli (replicate 1024 NUL) tr;
          _ \<leftarrow> str_of b;
          Some (0, tr) }"

definition FtpsConn ::
    "env \<Rightarrow> (trace \<Rightarrow> cbuf) \<Rightarrow> FtpsClient \<Rightarrow> string \<Rightarrow> trace \<Rightarrow> (int \<times> FtpsClient \<times> trace) option" where
  "FtpsConn env junk cli host tr =
     do { (ret, cli, tr) \<leftarrow> OpenConnectByHost env junk cli host tr;
          if ret \<noteq> 0 then Some (-1, cli, tr)
          else (let (ret, cli, tr) = InitSSL env cli tr in
            if ret \<noteq> 0 then Some (-1, cli, tr)
            else do {
              (ret, cli, tr) \<leftarrow> NegoSSL env cli tr;
              Some (if ret \<noteq> 0 then -1 else 0, cli, tr) }) }"

section \<open>The control dialogue\<close>

definition SetConnType :: "env \<Rightarrow> FtpsClient \<Rightarrow> int \<Rightarrow> trace \<Rightarrow> (int \<times> trace) option" where
  "SetConnType env cli type tr =
     do { (_, tr) \<leftarrow> EnSend env cli (''PROT P'' @ CRLF) tr;
          (_, tr) \<leftarrow> PrintResp env cli tr;
          (_, tr) \<leftarrow> EnSend env cli (''PBSZ 0'' @ CRLF) tr;
          (_, tr) \<leftarrow> PrintResp env cli tr;
          if type = 1 then do {
            (_, tr) \<leftarrow> EnSend env cli (''AUTH SSL'' @ CRLF) tr;
            (_, tr) \<leftarrow> PrintResp env cli tr;
            (_, tr) \<leftarrow> EnSend env cli (''AUTH_TLS'' @ CRLF) tr;
            (_, tr) \<leftarrow> PrintResp env cli tr;
            Some (0, tr) }
          else Some (0, tr) }"

definition FtpsLogin :: "env \<Rightarrow> FtpsClient \<Rightarrow> string \<Rightarrow> string \<Rightarrow> trace \<Rightarrow> (int \<times> trace) option" where
  "FtpsLogin env cli user pass tr =
     do { let buff = replicate 1024 NUL;
          (_, tr) \<leftarrow> SetConnType env cli 1 tr;
          let buff = snprintf buff (''USER '' @ user @ CRLF);
          (_, tr) \<leftarrow> EnSend env cli (cstr buff) tr;
          (_, tr) \<leftarrow> PrintResp env cli tr;
          let buff = snprintf buff (''PASS '' @ pass @ CRLF);
          (_, tr) \<leftarrow> EnSend env cli (cstr buff) tr;
          (_, tr) \<leftarrow> PrintResp env cli tr;
          Some (0, tr) }"

text \<open>The client, or none for \<^verbatim>\<open>NULL\<close>.\<close>

definition OpenFtpsClient ::
    "env \<Rightarrow> (trace \<Rightarrow> cbuf) \<Rightarrow> FtpsClient \<Rightarrow> string \<Rightarrow> trace \<Rightarrow> (FtpsClient option \<times> trace) option" where
  "OpenFtpsClient env junk fresh host tr =
     (let (p, tr) = sys_val env (Malloc 57) tr in
      if p < 0 then Some (None, tr)
      else do {
        (failed, cli, tr) \<leftarrow> FtpsConn env junk fresh host tr;
        if failed = -1 then Some (None, tr)
        else do { (_, tr) \<leftarrow> PrintResp env cli tr; Some (Some cli, tr) } })"

definition CloseFtpsClient :: "env \<Rightarrow> FtpsClient \<Rightarrow> trace \<Rightarrow> int \<times> trace" where
  "CloseFtpsClient env cli tr =
     (let tr = (if ssl cli < 0 then tr else snd (sys_val env (SSL_free (ssl cli)) tr));
          tr = (if ctx cli < 0 then tr else snd (sys_val env (SSL_CTX_free (ctx cli)) tr));
          (_, tr) = sys_val env (Close (connfd cli)) tr;
          (_, tr) = sys_val env Free tr in
      (0, tr))"

definition CloseFtpsDataConn :: "env \<Rightarrow> FtpsClient \<Rightarrow> FtpsClient \<Rightarrow> trace \<Rightarrow> (int \<times> trace) option" where
  "CloseFtpsDataConn env cli datahandle tr =
     do { (_, tr) \<leftarrow> EnSend env cli (''QUIT'' @ CRLF) tr;
          let (_, tr) = CloseFtpsClient env datahandle tr;
          Some (0, tr) }"

section \<open>Passive data connections\<close>

definition pasv_format :: "directive list" where
  "pasv_format = [ScanInt, ScanBlank, ScanWord, ScanBlank, ScanWord, ScanBlank, ScanWord, ScanBlank, ScanChar (CHR ''(''),
     ScanInt, ScanChar (CHR '',''), ScanInt, ScanChar (CHR '',''), ScanInt, ScanChar (CHR '',''),
     ScanInt, ScanChar (CHR '',''), ScanInt, ScanChar (CHR '',''), ScanInt, ScanChar (CHR '')''), ScanChar (CHR ''.'')]"

text \<open>The port of the answer to \<^verbatim>\<open>PASV\<close>; the words go to arrays of 32 bytes and the numbers to \<^verbatim>\<open>v[7]\<close>, zero at first.\<close>

definition pasv_port :: "string \<Rightarrow> int option" where
  "pasv_port s =
     do { (vs, ws) \<leftarrow> sscanf pasv_format s;
          let v = vs @ replicate (7 - length vs) 0;
          let p = v ! 5 * 256 + v ! 6;
          if list_all (\<lambda>w. length w < 32) ws \<and> - (2 ^ 31) \<le> v ! 5 * 256 \<and> v ! 5 * 256 < 2 ^ 31 \<and> - (2 ^ 31) \<le> p \<and> p < 2 ^ 31
          then Some p else None }"

definition FtpsOpenPasvSockConn ::
    "env \<Rightarrow> (trace \<Rightarrow> cbuf) \<Rightarrow> FtpsClient \<Rightarrow> FtpsClient \<Rightarrow> trace \<Rightarrow> (int \<times> FtpsClient \<times> trace) option" where
  "FtpsOpenPasvSockConn env junk cli datahandle tr =
     do { (_, tr) \<leftarrow> EnSend env cli (''PASV'' @ CRLF) tr;
          (_, buff, tr) \<leftarrow> EnRecv env cli (replicate 512 NUL) tr;
          s \<leftarrow> str_of buff;
          cp \<leftarrow> strchr buff (CHR ''('');
          if cp = None then Some (-1, datahandle, tr)
          else do {
            p \<leftarrow> pasv_port s;
            ip \<leftarrow> str_of (cli_ip cli);
            (ret, datahandle, tr) \<leftarrow> OpenConnectByHost env junk datahandle (take 255 (ip @ '':'' @ int_dec p)) tr;
            Some (if ret < 0 then -1 else 0, datahandle, tr) } }"

definition FtpsOpenPasvSslConn :: "env \<Rightarrow> FtpsClient \<Rightarrow> FtpsClient \<Rightarrow> trace \<Rightarrow> int \<times> FtpsClient \<times> trace" where
  "FtpsOpenPasvSslConn env cli datahandle tr =
     (let (s, tr) = sys_val env (SSL_new (ctx cli)) tr; datahandle = datahandle\<lparr> ssl := s \<rparr> in
      if s < 0 then (let (_, tr) = sys_val env (Close (connfd datahandle)) tr in (-1, datahandle, tr))
      else let (_, tr) = sys_val env (SSL_set_fd s (connfd datahandle)) tr;
               (success, tr) = sys_val env (SSL_connect s) tr in
        (if success \<noteq> 1 then -1 else 0, datahandle, tr))"

definition FtpsOpenPasvDataConn ::
    "env \<Rightarrow> (trace \<Rightarrow> cbuf) \<Rightarrow> FtpsClient \<Rightarrow> FtpsClient \<Rightarrow> string \<Rightarrow> trace \<Rightarrow> (int \<times> FtpsClient \<times> trace) option" where
  "FtpsOpenPasvDataConn env junk cli datahandle cmd tr =
     do { (failed, datahandle, tr) \<leftarrow> FtpsOpenPasvSockConn env junk cli datahandle tr;
          if failed \<noteq> 0 then Some (-1, datahandle, tr)
          else do {
            (_, tr) \<leftarrow> EnSend env cli (''TYPE I'' @ CRLF) tr;
            (_, tr) \<leftarrow> PrintResp env cli tr;
            (_, tr) \<leftarrow> EnSend env cli cmd tr;
            (_, buff, tr) \<leftarrow> EnRecv env cli (replicate 1024 NUL) tr;
            if hd buff = CHR ''5'' then do {
              _ \<leftarrow> str_of buff;
              let (_, tr) = sys_val env (Close (connfd datahandle)) tr;
              Some (-1, datahandle, tr) }
            else (let (failed, datahandle, tr) = FtpsOpenPasvSslConn env cli datahandle tr in
              if failed \<noteq> 0 then (let (_, tr) = sys_val env (Close (connfd datahandle)) tr in Some (-1, datahandle, tr))
              else Some (0, datahandle, tr)) } }"

section \<open>Transfers\<close>

text \<open>The loops of a download and of an upload.\<close>

partial_function (option) download_loop :: "env \<Rightarrow> int \<Rightarrow> int \<Rightarrow> trace \<Rightarrow> trace option" where
  "download_loop env s fp tr =
     (let (n, d, tr) = sys_ssl_read env s 1024 tr in
      if n \<le> 0 then Some tr
      else (let (w, tr) = sys_val env (Fwrite fp d) tr in
        if w \<le> 0 then Some tr else download_loop env s fp tr))"

partial_function (option) upload_loop :: "env \<Rightarrow> int \<Rightarrow> int \<Rightarrow> trace \<Rightarrow> trace option" where
  "upload_loop env s fp tr =
     (let (d, tr) = sys_fread env fp 1024 tr in
      if d = [] then Some tr
      else (let (w, tr) = sys_val env (SSL_write s d) tr in
        if w \<le> 0 then Some tr else upload_loop env s fp tr))"

definition FtpsAccessDataByPasvMode ::
    "env \<Rightarrow> (trace \<Rightarrow> cbuf) \<Rightarrow> FtpsClient \<Rightarrow> string option \<Rightarrow> string \<Rightarrow> trace \<Rightarrow> (int \<times> trace) option" where
  "FtpsAccessDataByPasvMode env junk cli localpath cmd tr =
     (let (p, tr) = sys_val env (Malloc 57) tr in
      if p < 0 then Some (-1, tr)
      else let (fp, tr) = sys_val env (Fopen (case localpath of None \<Rightarrow> ''./temp.record'' | Some l \<Rightarrow> l) ''wb+'') tr in
      if fp < 0 then Some (-1, tr)
      else do {
        (failed, datahandle, tr) \<leftarrow> FtpsOpenPasvDataConn env junk cli client0 cmd tr;
        if failed \<noteq> 0 then Some (-1, tr)
        else do {
          tr \<leftarrow> download_loop env (ssl datahandle) fp tr;
          (_, tr) \<leftarrow> CloseFtpsDataConn env cli datahandle tr;
          let (_, tr) = sys_val env (Fclose fp) tr;
          Some (0, tr) } })"

definition FtpsUploadDataByPasvMode ::
    "env \<Rightarrow> (trace \<Rightarrow> cbuf) \<Rightarrow> FtpsClient \<Rightarrow> string option \<Rightarrow> string \<Rightarrow> trace \<Rightarrow> (int \<times> trace) option" where
  "FtpsUploadDataByPasvMode env junk cli localpath cmd tr =
     (let (p, tr) = sys_val env (Malloc 57) tr in
      if p < 0 then Some (-1, tr)
      else let (fp, tr) = sys_val env (Fopen (case localpath of None \<Rightarrow> ''./temp.record'' | Some l \<Rightarrow> l) ''rb'') tr in
      if fp < 0 then Some (-1, tr)
      else do {
        (failed, datahandle, tr) \<leftarrow> FtpsOpenPasvDataConn env junk cli client0 cmd tr;
        if failed \<noteq> 0 then Some (-1, tr)
        else do {
          tr \<leftarrow> upload_loop env (ssl datahandle) fp tr;
          (_, tr) \<leftarrow> CloseFtpsDataConn env cli datahandle tr;
          let (_, tr) = sys_val env (Fclose fp) tr;
          Some (0, tr) } })"

definition FtpsGet ::
    "env \<Rightarrow> (trace \<Rightarrow> cbuf) \<Rightarrow> FtpsClient \<Rightarrow> string option \<Rightarrow> string \<Rightarrow> trace \<Rightarrow> (int \<times> trace) option" where
  "FtpsGet env junk cli localpath remotepath tr =
     do { (failed, tr) \<leftarrow> FtpsAccessDataByPasvMode env junk cli localpath (take 255 (''RETR '' @ remotepath @ CRLF)) tr;
          Some (if failed \<noteq> 0 then -1 else 0, tr) }"

definition FtpsPut ::
    "env \<Rightarrow> (trace \<Rightarrow> cbuf) \<Rightarrow> FtpsClient \<Rightarrow> string \<Rightarrow> string option \<Rightarrow> trace \<Rightarrow> (int \<times> trace) option" where
  "FtpsPut env junk cli remotepath localpath tr =
     do { (failed, tr) \<leftarrow> FtpsUploadDataByPasvMode env junk cli localpath (take 255 (''STOR '' @ remotepath @ CRLF)) tr;
          Some (if failed \<noteq> 0 then -1 else 0, tr) }"

definition FtpsDir ::
    "env \<Rightarrow> (trace \<Rightarrow> cbuf) \<Rightarrow> FtpsClient \<Rightarrow> string option \<Rightarrow> string \<Rightarrow> trace \<Rightarrow> (int \<times> trace) option" where
  "FtpsDir env junk cli localpath remotepath tr =
     do { (failed, tr) \<leftarrow> FtpsAccessDataByPasvMode env junk cli localpath (take 1023 (''LIST -aL '' @ remotepath @ CRLF)) tr;
          Some (if failed \<noteq> 0 then -1 else 0, tr) }"

text \<open>The two numbers \<^verbatim>\<open>%lu %lu\<close> reads; the size, or none where it is not stored.\<close>

definition scan_size :: "string \<Rightarrow> nat option" where
  "scan_size s =
     (let s1 = dropWhile isspace s; (_, u) = split_sign s1; s2 = dropWhile isspace (dropWhile isdigit u); (neg, w) = split_sign s2;
          ds = takeWhile isdigit w; n = digits_val 10 0 ds in
      if takeWhile isdigit u = [] \<or> ds = [] then None
      else Some (if n \<ge> 2 ^ 64 then 2 ^ 64 - 1 else if neg then (2 ^ 64 - n) mod 2 ^ 64 else n))"

definition FtpsSize :: "env \<Rightarrow> FtpsClient \<Rightarrow> string \<Rightarrow> nat \<Rightarrow> trace \<Rightarrow> (int \<times> nat \<times> trace) option" where
  "FtpsSize env cli path size0 tr =
     do { (_, tr) \<leftarrow> EnSend env cli (''TYPE A'' @ CRLF) tr;
          (_, buff, tr) \<leftarrow> EnRecv env cli (replicate 1024 NUL) tr;
          _ \<leftarrow> str_of buff;
          (_, tr) \<leftarrow> EnSend env cli (take 255 (''SIZE '' @ path @ CRLF)) tr;
          (_, buff, tr) \<leftarrow> EnRecv env cli (replicate 1024 NUL) tr;
          s \<leftarrow> str_of buff;
          Some (case scan_size s of None \<Rightarrow> (-1, size0, tr) | Some n \<Rightarrow> (0, n, tr)) }"

definition FtpsChdir :: "env \<Rightarrow> FtpsClient \<Rightarrow> string option \<Rightarrow> trace \<Rightarrow> (int \<times> trace) option" where
  "FtpsChdir env cli path tr =
     (case path of
        None \<Rightarrow> Some (0, tr)
      | Some path \<Rightarrow> do {
          (_, buf) \<leftarrow> sprintf_at (replicate 256 NUL) 0 (''CWD '' @ path @ CRLF);
          (ret, tr) \<leftarrow> EnSend env cli (cstr buf) tr;
          if ret < 0 then Some (-1, tr)
          else do {
            (ret, buf, tr) \<leftarrow> EnRecv env cli (replicate 256 NUL) tr;
            if ret \<le> 0 then Some (-1, tr)
            else do { s \<leftarrow> str_of buf; Some (if hd buf = CHR ''5'' then -1 else 0, tr) } } })"

section \<open>The program\<close>

definition ftps_main :: "env \<Rightarrow> (trace \<Rightarrow> cbuf) \<Rightarrow> FtpsClient \<Rightarrow> string list \<Rightarrow> trace \<Rightarrow> (int \<times> trace) option" where
  "ftps_main env junk fresh argv tr =
     (if length argv \<noteq> 8 then Some (-1, tr)
      else do {
        (_, host) \<leftarrow> sprintf_at (replicate 24 NUL) 0 (argv ! 4 @ '':'' @ argv ! 5);
        (cli, tr) \<leftarrow> OpenFtpsClient env junk fresh (cstr host) tr;
        (case cli of
           None \<Rightarrow> Some (-1, tr)
         | Some cli \<Rightarrow> do {
             (failed, tr) \<leftarrow> FtpsLogin env cli (argv ! 6) (argv ! 7) tr;
             if failed \<noteq> 0 then Some (-1, tr)
             else do {
               (failed, tr) \<leftarrow>
                 (if argv ! 1 = ''get'' then FtpsGet env junk cli (Some (argv ! 2)) (argv ! 3) tr
                  else if argv ! 1 = ''put'' then FtpsPut env junk cli (argv ! 2) (Some (argv ! 3)) tr
                  else Some (0, tr));
               if failed \<noteq> 0 then Some (-1, tr)
               else (let (_, tr) = CloseFtpsClient env cli tr in Some (0, tr)) } }) })"

end
