(* ===== verification/FileTransfer.thy ===== *)
theory FileTransfer
  imports Posix
begin

text \<open>
  Sending a file over a connection and receiving it, \<^verbatim>\<open>send_file.c\<close> and \<^verbatim>\<open>recv_file.c\<close>. A send
  may accept a part of the bytes and a receive may return any part of what has arrived; the
  loops that cope with both are partial functions, for they may never return.
\<close>

section \<open>The sender\<close>

definition sys_send :: "env \<Rightarrow> int \<Rightarrow> string \<Rightarrow> trace \<Rightarrow> int \<times> trace" where
  "sys_send env fd d tr =
     (let (r, tr) = sys env (Send fd d) tr in
      (if rval r < 0 then -1 else min (rval r) (int (length d)), tr))"

definition socket_connect :: "env \<Rightarrow> trace \<Rightarrow> int \<times> trace" where
  "socket_connect env tr =
     (let (fd, tr) = sys_val env Socket tr in
      if fd = -1 then (-1, tr)
      else let (r, tr) = sys_val env (Connect fd ''192.168.2.219'' 8000) tr in
        if r < 0 then (-1, tr) else (fd, tr))"

text \<open>
  The inner loop: \<^verbatim>\<open>ready\<close> bytes of the buffer from \<^verbatim>\<open>total_send_bytes\<close> on. A send that fails, with
  \<^verbatim>\<open>EAGAIN\<close> or any other error, is tried again.
\<close>

partial_function (option) send_all :: "env \<Rightarrow> int \<Rightarrow> string \<Rightarrow> nat \<Rightarrow> nat \<Rightarrow> trace \<Rightarrow> trace option" where
  "send_all env fd b sent ready tr =
     (if ready = 0 then Some tr
      else (let (ret, tr) = sys_send env fd (take ready (drop sent b)) tr in
        if ret = int ready then Some tr
        else if ret > 0 then send_all env fd b (sent + nat ret) (ready - nat ret) tr
        else send_all env fd b sent ready tr))"

partial_function (option) send_blocks :: "env \<Rightarrow> int \<Rightarrow> int \<Rightarrow> trace \<Rightarrow> trace option" where
  "send_blocks env fd fp tr =
     (let (d, tr) = sys_fread env fp 1024000 tr in
      if d = [] then Some tr
      else do { tr \<leftarrow> send_all env fd d 0 (length d) tr; send_blocks env fd fp tr })"

definition send_file :: "env \<Rightarrow> int \<Rightarrow> trace \<Rightarrow> (int \<times> trace) option" where
  "send_file env sockfd tr =
     (let (p, tr) = sys_val env (Malloc 1024000) tr; (fp, tr) = sys_val env (Fopen ''./test.jpg'' ''r'') tr in
      if p < 0 \<or> fp < 0 then None
      else do {
        tr \<leftarrow> send_blocks env sockfd fp tr;
        let (_, tr) = sys_val env (Fclose fp) tr;
        let (_, tr) = sys_val env Free tr;
        Some (0, tr) })"

definition send_main :: "env \<Rightarrow> trace \<Rightarrow> (int \<times> trace) option" where
  "send_main env tr =
     (let (sockfd, tr) = socket_connect env tr in
      do { (ret, tr) \<leftarrow> send_file env sockfd tr; Some (0, tr) })"

section \<open>The receiver\<close>

definition file_bind_listen :: "env \<Rightarrow> trace \<Rightarrow> int \<times> trace" where
  "file_bind_listen env tr =
     (let (fd, tr) = sys_val env Socket tr in
      if fd = -1 then (-1, tr)
      else let (r, tr) = sys_val env (Bind fd 8000) tr in
      if r < 0 then (-1, tr)
      else let (r, tr) = sys_val env (Listen fd 10) tr in
      if r < 0 then (-1, tr) else (fd, tr))"

text \<open>The loop ends when the sender has closed the connection; a failed read is tried again.\<close>

partial_function (option) recv_blocks :: "env \<Rightarrow> int \<Rightarrow> int \<Rightarrow> trace \<Rightarrow> trace option" where
  "recv_blocks env acceptfd fp tr =
     (let (n, d, tr) = sys_recv env acceptfd 1024000 tr in
      if n > 0 then
        (if fp < 0 then None
         else (let (_, tr) = sys_val env (Fwrite fp d) tr in recv_blocks env acceptfd fp tr))
      else if n = 0 then Some tr
      else recv_blocks env acceptfd fp tr)"

definition recv_file :: "env \<Rightarrow> int \<Rightarrow> trace \<Rightarrow> (int \<times> trace) option" where
  "recv_file env sockfd tr =
     (let (p, tr) = sys_val env (Malloc 1024000) tr;
          (fp, tr) = sys_val env (Fopen ''recv.jpg'' ''w'') tr;
          (acceptfd, tr) = sys_val env (Accept sockfd) tr in
      if acceptfd < 0 then Some (-1, tr)
      else if p < 0 then None
      else do {
        tr \<leftarrow> (if sockfd = -1 then Some tr else recv_blocks env acceptfd fp tr);
        if fp < 0 then None
        else (let (_, tr) = sys_val env (Fclose fp) tr; (_, tr) = sys_val env Free tr in Some (0, tr)) })"

definition recv_main :: "env \<Rightarrow> trace \<Rightarrow> (int \<times> trace) option" where
  "recv_main env tr =
     (let (sockfd, tr) = file_bind_listen env tr in
      do { (_, tr) \<leftarrow> recv_file env sockfd tr; Some (0, tr) })"

section \<open>Bytes on the way\<close>

text \<open>The bytes a connection has accepted, and those written to a file.\<close>

fun accepted :: "int \<Rightarrow> trace \<Rightarrow> string" where
  "accepted fd [] = []"
| "accepted fd ((c, r) # tr) = accepted fd tr @
     (case c of Send fd' d \<Rightarrow> if fd' = fd then take (nat (rval r)) d else [] | _ \<Rightarrow> [])"

fun written :: "int \<Rightarrow> trace \<Rightarrow> string" where
  "written fp [] = []"
| "written fp ((c, r) # tr) = (case c of
       Fopen _ m \<Rightarrow> if rval r = fp then [] else written fp tr
     | Fwrite fp' d \<Rightarrow> written fp tr @ (if fp' = fp then take (nat (rval r)) d else [])
     | _ \<Rightarrow> written fp tr)"

text \<open>How many bytes of a file were read since it was opened, and of a connection were received.\<close>

fun read_count :: "int \<Rightarrow> trace \<Rightarrow> nat" where
  "read_count fp [] = 0"
| "read_count fp ((c, r) # tr) = (case c of
       Fopen _ _ \<Rightarrow> if rval r = fp then 0 else read_count fp tr
     | Fread fp' n \<Rightarrow> read_count fp tr + (if fp' = fp then min n (length (rdata r)) else 0)
     | _ \<Rightarrow> read_count fp tr)"

fun recv_count :: "int \<Rightarrow> trace \<Rightarrow> nat" where
  "recv_count fd [] = 0"
| "recv_count fd ((c, r) # tr) = (case c of
       Recv fd' n \<Rightarrow> recv_count fd tr + (if fd' = fd \<and> 0 \<le> rval r then min n (length (rdata r)) else 0)
     | Accept _ \<Rightarrow> if rval r = fd then 0 else recv_count fd tr
     | _ \<Rightarrow> recv_count fd tr)"

text \<open>
  What the two programs rely on: the file is read from the front, every send accepts at least
  a byte; the bytes of the sender arrive in order, in pieces of any size, and writes to the
  file are complete.
\<close>

definition sends_file :: "env \<Rightarrow> int \<Rightarrow> string \<Rightarrow> bool" where
  "sends_file env fd F \<longleftrightarrow> (\<forall>tr. 0 \<le> rval (env tr (Malloc 1024000)) \<and> 0 \<le> rval (env tr (Fopen ''./test.jpg'' ''r'')) \<and>
     (\<forall>fp n. rdata (env tr (Fread fp n)) = drop (read_count fp tr) F) \<and> (\<forall>d. d \<noteq> [] \<longrightarrow> 0 < rval (env tr (Send fd d))))"

definition delivers :: "env \<Rightarrow> string \<Rightarrow> bool" where
  "delivers env D \<longleftrightarrow> (\<forall>tr. 0 \<le> rval (env tr (Malloc 1024000)) \<and> 0 \<le> rval (env tr (Fopen ''recv.jpg'' ''w'')) \<and>
     (\<forall>fd. 0 \<le> rval (env tr (Accept fd))) \<and>
     (\<forall>fd n. 0 \<le> rval (env tr (Recv fd n)) \<and>
        (\<exists>k. rdata (env tr (Recv fd n)) = take (Suc k) (drop (recv_count fd tr) D))) \<and>
     (\<forall>fp d. rval (env tr (Fwrite fp d)) = int (length d)))"

section \<open>The file arrives\<close>

lemma read_count_send: "read_count fp ((Send fd d, r) # tr) = read_count fp tr"
  by simp

lemma send_all_sends:
  assumes "\<And>tr d. d \<noteq> [] \<Longrightarrow> 0 < rval (env tr (Send fd d))"
  shows "sent + ready \<le> length b \<Longrightarrow>
    \<exists>tr'. send_all env fd b sent ready tr = Some tr' \<and> accepted fd tr' = accepted fd tr @ take ready (drop sent b) \<and>
      (\<forall>fp. read_count fp tr' = read_count fp tr)"
proof (induction ready arbitrary: sent tr rule: less_induct)
  case (less ready)
  show ?case
  proof (cases "ready = 0")
    case True
    then show ?thesis by (subst send_all.simps) simp
  next
    case False
    let ?d = "take ready (drop sent b)"
    let ?r = "env tr (Send fd ?d)"
    let ?tr = "(Send fd ?d, ?r) # tr"
    have ld: "length ?d = ready" using less.prems by simp
    then have pos: "0 < rval ?r" using False by (intro assms) auto
    define k where "k = min (nat (rval ?r)) ready"
    have s: "sys_send env fd ?d tr = (int k, ?tr)" using pos ld by (simp add: sys_send_def sys_def k_def Let_def)
    have a: "accepted fd ?tr = accepted fd tr @ take k ?d" using ld by (simp add: k_def min_def)
    show ?thesis
    proof (cases "k = ready")
      case True
      then have "send_all env fd b sent ready tr = Some ?tr" using s False by (subst send_all.simps) simp
      then show ?thesis using a True by simp
    next
      case False
      have k: "0 < k" "k < ready" using False pos \<open>ready \<noteq> 0\<close> by (auto simp: k_def)
      have "send_all env fd b sent ready tr = send_all env fd b (sent + k) (ready - k) ?tr"
        using s k by (subst send_all.simps) simp
      moreover obtain tr' where t: "send_all env fd b (sent + k) (ready - k) ?tr = Some tr'"
          "accepted fd tr' = accepted fd ?tr @ take (ready - k) (drop (sent + k) b)" "\<forall>fp. read_count fp tr' = read_count fp ?tr"
        using less.IH[of "ready - k" "sent + k" ?tr] k less.prems by auto
      moreover have "take k ?d @ take (ready - k) (drop (sent + k) b) = ?d"
        using k by (metis add.commute drop_drop le_add_diff_inverse less_imp_le take_add take_take min.absorb1)
      ultimately show ?thesis using a by (metis append_assoc read_count_send)
    qed
  qed
qed

lemma send_blocks_sends:
  assumes "sends_file env fd F"
  shows "read_count fp tr \<le> length F \<Longrightarrow>
    \<exists>tr'. send_blocks env fd fp tr = Some tr' \<and> accepted fd tr' = accepted fd tr @ drop (read_count fp tr) F"
proof (induction "length F - read_count fp tr" arbitrary: tr rule: less_induct)
  case less
  let ?c = "read_count fp tr"
  define d where "d = take 1024000 (drop ?c F)"
  let ?r = "env tr (Fread fp 1024000)"
  let ?tr = "(Fread fp 1024000, ?r) # tr"
  have r: "rdata ?r = drop ?c F" using assms by (simp add: sends_file_def)
  have f: "sys_fread env fp 1024000 tr = (d, ?tr)" by (simp add: sys_fread_def sys_def r Let_def d_def)
  show ?case
  proof (cases "d = []")
    case True
    then have "drop ?c F = []" by (simp add: d_def)
    moreover have "send_blocks env fd fp tr = Some ?tr" using f True by (subst send_blocks.simps) simp
    ultimately show ?thesis by simp
  next
    case False
    have p: "\<And>tr d. d \<noteq> [] \<Longrightarrow> 0 < rval (env tr (Send fd d))" using assms by (simp add: sends_file_def)
    obtain tr1 where t1: "send_all env fd d 0 (length d) ?tr = Some tr1" "accepted fd tr1 = accepted fd ?tr @ d"
        "\<forall>fp. read_count fp tr1 = read_count fp ?tr"
      using send_all_sends[of env fd 0 "length d" d ?tr, OF p] by auto
    have c: "read_count fp tr1 = ?c + length d" using t1(3) by (simp add: r d_def min.commute)
    have ld: "0 < length d" "?c + length d \<le> length F" using False less.prems by (auto simp: d_def)
    have lt: "length F - read_count fp tr1 < length F - ?c" "read_count fp tr1 \<le> length F" using c ld by linarith+
    obtain tr2 where t2: "send_blocks env fd fp tr1 = Some tr2" "accepted fd tr2 = accepted fd tr1 @ drop (read_count fp tr1) F"
      using less.hyps[of tr1] lt by blast
    have "send_blocks env fd fp tr = Some tr2" using f False t1(1) t2(1) by (subst send_blocks.simps) simp
    moreover have "d @ drop (?c + length d) F = drop ?c F"
      by (simp add: d_def) (metis append_take_drop_id drop_drop add.commute length_drop min_def order_refl take_all drop_all)
    ultimately show ?thesis using t1(2) t2(2) c by auto
  qed
qed

lemma send_file_done:
  assumes "sends_file env fd F"
  shows "\<exists>tr'. send_file env fd tr = Some (0, tr') \<and> accepted fd tr' = accepted fd tr @ F"
proof -
  let ?m = "(Malloc 1024000, env tr (Malloc 1024000)) # tr"
  let ?fp = "rval (env ?m (Fopen ''./test.jpg'' ''r''))"
  let ?o = "(Fopen ''./test.jpg'' ''r'', env ?m (Fopen ''./test.jpg'' ''r'')) # ?m"
  have pos: "0 \<le> rval (env tr (Malloc 1024000))" "0 \<le> ?fp" using assms by (auto simp: sends_file_def)
  obtain tr1 where t: "send_blocks env fd ?fp ?o = Some tr1" "accepted fd tr1 = accepted fd ?o @ drop (read_count ?fp ?o) F"
    using send_blocks_sends[OF assms, of ?fp ?o] by auto
  then show ?thesis using pos by (auto simp: send_file_def sys_val_def sys_def Let_def)
qed

lemma recv_blocks_writes:
  assumes "delivers env D" "0 \<le> fp"
  shows "recv_count fd tr \<le> length D \<Longrightarrow>
    \<exists>tr'. recv_blocks env fd fp tr = Some tr' \<and> written fp tr' = written fp tr @ drop (recv_count fd tr) D \<and> set tr \<subseteq> set tr'"
proof (induction "length D - recv_count fd tr" arbitrary: tr rule: less_induct)
  case less
  let ?c = "recv_count fd tr"
  let ?r = "env tr (Recv fd 1024000)"
  let ?tr = "(Recv fd 1024000, ?r) # tr"
  obtain k where r: "0 \<le> rval ?r" "rdata ?r = take (Suc k) (drop ?c D)"
    using assms(1) unfolding delivers_def by meson
  define d where "d = take 1024000 (rdata ?r)"
  have rv: "sys_recv env fd 1024000 tr = (int (length d), d, ?tr)" using r(1) by (simp add: sys_recv_def sys_def Let_def d_def)
  have d: "d = take (length d) (drop ?c D)" by (simp add: d_def r(2) min_def)
  show ?case
  proof (cases "d = []")
    case True
    then have "drop ?c D = []" by (simp add: d_def r(2))
    moreover have "recv_blocks env fd fp tr = Some ?tr" using rv True by (subst recv_blocks.simps) simp
    ultimately show ?thesis by auto
  next
    case False
    let ?w = "env ?tr (Fwrite fp d)"
    let ?t = "(Fwrite fp d, ?w) # ?tr"
    have w: "rval ?w = int (length d)" using assms(1) by (simp add: delivers_def)
    have c: "recv_count fd ?t = ?c + length d" using r(1) by (simp add: d_def min.commute)
    have len: "0 < length d" "?c + length d \<le> length D" using False less.prems arg_cong[OF d, of length] by auto
    have lt: "length D - recv_count fd ?t < length D - ?c" "recv_count fd ?t \<le> length D" using c len by linarith+
    obtain tr2 where t2: "recv_blocks env fd fp ?t = Some tr2" "written fp tr2 = written fp ?t @ drop (recv_count fd ?t) D" "set ?t \<subseteq> set tr2"
      using less.hyps[of ?t] lt by blast
    have "recv_blocks env fd fp tr = Some tr2"
      using rv False t2(1) assms(2) by (subst recv_blocks.simps) (simp add: sys_val_def sys_def Let_def)
    moreover have "written fp ?t = written fp tr @ d" by (simp add: w)
    moreover have "d @ drop (?c + length d) D = drop ?c D" by (metis d append_take_drop_id drop_drop add.commute)
    moreover have "set tr \<subseteq> set tr2" using t2(3) by auto
    ultimately show ?thesis using t2(2) c by (metis append_assoc)
  qed
qed

lemma recv_file_done:
  assumes "delivers env D" "sockfd \<noteq> -1"
  shows "\<exists>tr' r. recv_file env sockfd tr = Some (0, tr') \<and> (Fopen ''recv.jpg'' ''w'', r) \<in> set tr' \<and> written (rval r) tr' = D"
proof -
  let ?m = "(Malloc 1024000, env tr (Malloc 1024000)) # tr"
  let ?r = "env ?m (Fopen ''recv.jpg'' ''w'')"
  let ?o = "(Fopen ''recv.jpg'' ''w'', ?r) # ?m"
  let ?fd = "rval (env ?o (Accept sockfd))"
  let ?a = "(Accept sockfd, env ?o (Accept sockfd)) # ?o"
  have pos: "0 \<le> rval (env tr (Malloc 1024000))" "0 \<le> rval ?r" "0 \<le> ?fd" using assms by (auto simp: delivers_def)
  obtain tr1 where t: "recv_blocks env ?fd (rval ?r) ?a = Some tr1" "written (rval ?r) tr1 = D" "set ?a \<subseteq> set tr1"
    using recv_blocks_writes[OF assms(1) pos(2), of ?fd ?a] by auto
  define tr2 where "tr2 = (Fclose (rval ?r), env tr1 (Fclose (rval ?r))) # tr1"
  define tr3 where "tr3 = (Free, env tr2 Free) # tr2"
  have "recv_file env sockfd tr = Some (0, tr3)"
    using t(1) pos assms(2) by (simp add: recv_file_def sys_val_def sys_def Let_def tr2_def tr3_def)
  moreover have "written (rval ?r) tr3 = D" "(Fopen ''recv.jpg'' ''w'', ?r) \<in> set tr3"
    using t(2,3) by (auto simp: tr2_def tr3_def)
  ultimately show ?thesis by blast
qed

lemma socket_connect_sends_nothing: "socket_connect env tr = (fd, tr') \<Longrightarrow> accepted k tr' = accepted k tr"
  by (auto simp: socket_connect_def sys_val_def sys_def Let_def split: if_splits)

lemma send_main_done:
  assumes "socket_connect env [] = (fd, tr0)" "sends_file env fd F"
  shows "\<exists>tr. send_main env [] = Some (0, tr) \<and> accepted fd tr = F"
  using send_file_done[OF assms(2), of tr0] assms(1) socket_connect_sends_nothing[OF assms(1)] by (auto simp: send_main_def)

text \<open>
  C12. Where the file can be read and every send accepts at least a byte, the sender ends,
  and where the receiver gets the bytes the sender's connection accepted, in pieces of any
  size, it ends too and \<^verbatim>\<open>recv.jpg\<close> holds exactly the bytes of \<^verbatim>\<open>test.jpg\<close>.
\<close>

theorem file_arrives:
  assumes "socket_connect envS [] = (fd, tr0)" "sends_file envS fd F"
    and "file_bind_listen envR [] = (lfd, tr1)" "lfd \<noteq> -1"
    and "\<And>trS. send_main envS [] = Some (0, trS) \<Longrightarrow> delivers envR (accepted fd trS)"
  shows "\<exists>trS trR r. send_main envS [] = Some (0, trS) \<and> recv_main envR [] = Some (0, trR) \<and>
    (Fopen ''recv.jpg'' ''w'', r) \<in> set trR \<and> written (rval r) trR = F"
proof -
  obtain trS where m: "send_main envS [] = Some (0, trS)" "accepted fd trS = F"
    using send_main_done[OF assms(1,2)] by blast
  obtain trR r where "recv_file envR lfd tr1 = Some (0, trR)" "(Fopen ''recv.jpg'' ''w'', r) \<in> set trR" "written (rval r) trR = F"
    using recv_file_done[OF assms(5)[OF m(1)] assms(4)] m(2) by metis
  then show ?thesis using m assms(3) by (auto simp: recv_main_def)
qed

section \<open>A connection that fails\<close>

lemma send_all_stuck:
  assumes "send_all env fd b sent ready tr = Some y"
  shows "ready = 0 \<or> (\<exists>tr d. 0 \<le> rval (env tr (Send fd d)))"
proof (rule send_all.raw_induct[OF _ assms])
  fix f :: "env \<Rightarrow> int \<Rightarrow> string \<Rightarrow> nat \<Rightarrow> nat \<Rightarrow> trace \<Rightarrow> trace option" and env fd b sent ready tr y
  assume IH: "\<And>env fd b sent ready tr y. f env fd b sent ready tr = Some y \<Longrightarrow>
      ready = 0 \<or> (\<exists>tr d. 0 \<le> rval (env tr (Send fd d)))"
    and step: "(if ready = 0 then Some tr
      else (let (ret, tr) = sys_send env fd (take ready (drop sent b)) tr in
        if ret = int ready then Some tr
        else if ret > 0 then f env fd b (sent + nat ret) (ready - nat ret) tr
        else f env fd b sent ready tr)) = Some y"
  show "ready = 0 \<or> (\<exists>tr d. 0 \<le> rval (env tr (Send fd d)))"
  proof (rule ccontr)
    assume "\<not> ?thesis"
    then have n: "ready \<noteq> 0" "\<And>tr d. rval (env tr (Send fd d)) < 0" by (auto simp: not_le)
    then have "\<exists>tr'. f env fd b sent ready tr' = Some y"
      using step by (auto simp: sys_send_def sys_def Let_def)
    then show False using IH n by (metis not_le)
  qed
qed


section \<open>A transfer\<close>

definition sender_env :: "string \<Rightarrow> env" where
  "sender_env F tr c = (case c of
      Fread fp n \<Rightarrow> (reply_of 0)\<lparr> rdata := drop (read_count fp tr) F \<rparr>
    | Send fd d \<Rightarrow> reply_of 2
    | _ \<Rightarrow> reply_of 3)"

definition receiver_env :: "string \<Rightarrow> env" where
  "receiver_env D tr c = (case c of
      Recv fd n \<Rightarrow> (reply_of 0)\<lparr> rdata := take (Suc 0) (drop (recv_count fd tr) D) \<rparr>
    | Fwrite fp d \<Rightarrow> reply_of (int (length d))
    | _ \<Rightarrow> reply_of 3)"

lemma receiver_env_delivers: "delivers (receiver_env D) D"
  by (auto simp: delivers_def receiver_env_def reply_of_def)

theorem file_arrives_witness:
  "\<exists>trS trR r. send_main (sender_env ''image'') [] = Some (0, trS) \<and> recv_main (receiver_env ''image'') [] = Some (0, trR) \<and>
    (Fopen ''recv.jpg'' ''w'', r) \<in> set trR \<and> written (rval r) trR = ''image''"
proof -
  have s: "sends_file (sender_env ''image'') 3 ''image''" by (simp add: sends_file_def sender_env_def reply_of_def)
  obtain tr0 where c: "socket_connect (sender_env ''image'') [] = (3, tr0)"
    by (simp add: socket_connect_def sys_val_def sys_def Let_def sender_env_def reply_of_def)
  obtain tr1 where b: "file_bind_listen (receiver_env ''image'') [] = (3, tr1)"
    by (simp add: file_bind_listen_def sys_val_def sys_def Let_def receiver_env_def reply_of_def)
  show ?thesis
  proof (rule file_arrives[OF c s b])
    fix trS assume "send_main (sender_env ''image'') [] = Some (0, trS)"
    then have "accepted 3 trS = ''image''" using send_main_done[OF c s] by auto
    then show "delivers (receiver_env ''image'') (accepted 3 trS)" by (simp add: receiver_env_delivers)
  qed simp
qed

definition refused_env :: env where
  "refused_env tr c = (case c of
      Connect _ _ _ \<Rightarrow> reply_of (-1) | Send _ _ \<Rightarrow> reply_of (-1) | _ \<Rightarrow> (reply_of 3)\<lparr> rdata := ''x'' \<rparr>)"


end
