(* ===== verification/FtpsTransfer.thy ===== *)
theory FtpsTransfer
  imports Ftps FileTransfer
begin

text \<open>
  What the FTPS client does: the port of a passive connection and how the uninitialised array
  changes it, the order of the control commands, and the closing of its sockets.
\<close>

section \<open>The answer to PASV\<close>

lemma nat_dec_char: "c \<in> set (nat_dec n) \<Longrightarrow> isdigit c"
proof -
  assume "c \<in> set (nat_dec n)"
  from bspec[OF nat_dec_digits this] obtain v where "v < 10" "digit_val c = Some v" by blast
  then show ?thesis by (simp add: digit_val_def isdigit_def Let_def split: if_splits)
qed

lemma isdigit_plain: "isdigit c \<Longrightarrow> \<not> isspace c \<and> c \<noteq> CHR ''-'' \<and> c \<noteq> CHR ''+'' \<and> c \<noteq> NUL \<and> c \<noteq> CHR '':'' \<and> c \<noteq> CHR ''(''"
  by (auto simp: isdigit_def isspace_def NUL_def)

lemma nat_dec_scan:
  assumes "r = [] \<or> \<not> isdigit (hd r)"
  shows "split_sign (dropWhile isspace (nat_dec n @ r)) = (False, nat_dec n @ r)"
    "takeWhile isdigit (nat_dec n @ r) = nat_dec n" "dropWhile isdigit (nat_dec n @ r) = r"
proof -
  obtain c cs where c: "nat_dec n = c # cs" using nat_dec_nonempty[of n] by (cases "nat_dec n") auto
  then have "isdigit c" using nat_dec_char[of c n] by simp
  then show "split_sign (dropWhile isspace (nat_dec n @ r)) = (False, nat_dec n @ r)"
    using isdigit_plain[of c] by (simp add: c split_sign_def)
  have all: "\<forall>x \<in> set (nat_dec n). isdigit x" using nat_dec_char by blast
  then show "takeWhile isdigit (nat_dec n @ r) = nat_dec n" "dropWhile isdigit (nat_dec n @ r) = r"
    using assms by (cases r; simp add: takeWhile_append2 dropWhile_append2)+
qed

lemma sscanf_nat:
  assumes "r = [] \<or> \<not> isdigit (hd r)" "n < 2147483648"
  shows "sscanf (ScanInt # fs) (nat_dec n @ r) = do { (vs, ws) \<leftarrow> sscanf fs r; Some (int n # vs, ws) }"
  using assms(2) nat_dec_scan[OF assms(1)] by (simp add: digits_val_nat_dec nat_dec_nonempty Let_def)

text \<open>The text of a 227 answer.\<close>

definition pasv_answer :: "nat list \<Rightarrow> nat \<Rightarrow> nat \<Rightarrow> string" where
  "pasv_answer h p1 p2 = ''227 Entering Passive Mode ('' @ concat (map (\<lambda>n. nat_dec n @ '','') h) @ nat_dec p1 @ '','' @ nat_dec p2 @ '').'' @ CRLF"

lemma sscanf_front:
  "sscanf pasv_format (''227 Entering Passive Mode ('' @ r) =
   do { (vs, ws) \<leftarrow> sscanf (drop 9 pasv_format) r; Some (227 # vs, [''Entering'', ''Passive'', ''Mode''] @ ws) }"
  by (simp add: pasv_format_def split_sign_def isspace_def isdigit_def digit_val_def case_prod_unfold)

lemma pasv_port_reads:
  assumes "length h = 4" "list_all (\<lambda>n. n < 256) h" "p1 < 256" "p2 < 256"
  shows "pasv_port (pasv_answer h p1 p2) = Some (int (p1 * 256 + p2))"
proof -
  obtain a b c d where h: "h = [a, b, c, d]" using assms(1) by (auto simp: numeral_eq_Suc length_Suc_conv)
  have lt: "a < 2147483648" "b < 2147483648" "c < 2147483648" "d < 2147483648" "p1 < 2147483648" "p2 < 2147483648" using assms by (auto simp: h)
  have nd: "\<not> isdigit (CHR '','')" "\<not> isdigit (CHR '')'')" by (simp_all add: isdigit_def)
  have "sscanf (drop 9 pasv_format) (nat_dec a @ '','' @ nat_dec b @ '','' @ nat_dec c @ '','' @ nat_dec d @ '','' @ nat_dec p1 @ '','' @ nat_dec p2 @ '').'' @ CRLF) =
    Some ([int a, int b, int c, int d, int p1, int p2], [])"
    using nd by (simp add: pasv_format_def sscanf_nat lt del: sscanf.simps(4))
  then have "sscanf pasv_format (pasv_answer h p1 p2) =
      Some ([227, int a, int b, int c, int d, int p1, int p2], [''Entering'', ''Passive'', ''Mode''])"
    unfolding pasv_answer_def sscanf_front by (simp add: h del: sscanf.simps)
  then show ?thesis using assms(3,4) by (simp add: pasv_port_def)
qed

section \<open>The port of a host\<close>

lemma scan_digits:
  assumes "\<forall>c \<in> set ds. isdigit c" "ds \<noteq> []" "r = [] \<or> \<not> isdigit (hd r)"
  shows "scan_int (ds @ r) = Some (int (digits_val 10 0 ds))"
proof -
  obtain c cs where c: "ds = c # cs" using assms(2) by (cases ds) auto
  have "split_sign (dropWhile isspace (ds @ r)) = (False, ds @ r)"
    using isdigit_plain[of c] assms(1) by (simp add: c split_sign_def)
  moreover have "takeWhile isdigit (ds @ r) = ds" using assms(1,3) by (cases r) (simp_all add: takeWhile_append2)
  ultimately show ?thesis using assms(2) by (simp add: scan_int_def)
qed

text \<open>The bytes of \<^verbatim>\<open>lhost\<close> that are not written, up to the first NUL.\<close>

definition leftover :: "(trace \<Rightarrow> cbuf) \<Rightarrow> nat \<Rightarrow> trace \<Rightarrow> cbuf" where
  "leftover junk n tr = drop n (take 24 (junk tr @ replicate 24 NUL))"

definition host_number :: "(trace \<Rightarrow> cbuf) \<Rightarrow> string \<Rightarrow> nat \<Rightarrow> trace \<Rightarrow> nat" where
  "host_number junk ip p tr =
     digits_val 10 0 (nat_dec p @ takeWhile isdigit (cstr (leftover junk (length (ip @ '':'' @ nat_dec p)) tr)))"

lemma host_port_reads:
  assumes "NUL \<notin> set ip" "CHR '':'' \<notin> set ip" "NUL \<in> set g"
    and n: "n = digits_val 10 0 (nat_dec p @ takeWhile isdigit (cstr g))" "n < 2 ^ 31"
  shows "host_port env (ip @ CHR '':'' # nat_dec p @ g) tr = Some (Some (int n mod 65536), ip @ NUL # nat_dec p @ g, tr)"
proof -
  let ?s = "nat_dec p @ cstr g"
  have nn: "NUL \<notin> set (nat_dec p)" using nat_dec_char isdigit_plain by blast
  have 1: "strchr (ip @ CHR '':'' # nat_dec p @ g) (CHR '':'') = Some (Some (CHR '':'' # nat_dec p @ g))"
    using assms(1-3) by (intro strchr_at) (auto simp: NUL_def)
  have 2: "str_of (nat_dec p @ g) = Some ?s" using assms(3) nn by (simp add: str_of_def cstr_append_cstr)
  let ?d = "takeWhile isdigit (cstr g)" and ?r = "dropWhile isdigit (cstr g)"
  have "scan_int ((nat_dec p @ ?d) @ ?r) = Some (int n)"
    unfolding n(1) using nat_dec_char nat_dec_nonempty hd_dropWhile[of isdigit "cstr g"]
    by (intro scan_digits) (auto dest: set_takeWhileD)
  then have a: "atoi ?s = Some (int n)" using n(2) by (simp add: atoi_def sscanf_d_def)
  have h: "?s \<noteq> []" "isdigit (hd ?s)" using nat_dec_nonempty[of p] nat_dec_char[of "hd (nat_dec p)" p] by auto
  show ?thesis using h a by (simp add: host_port_def 1 2 list_update_append)
qed

section \<open>The commands sent\<close>

definition is_write :: "syscall \<Rightarrow> bool" where
  "is_write c = (case c of SSL_write _ _ \<Rightarrow> True | _ \<Rightarrow> False)"

definition payload :: "syscall \<Rightarrow> string" where
  "payload c = (case c of SSL_write _ d \<Rightarrow> d | _ \<Rightarrow> [])"

text \<open>What was written to secure connections, in order.\<close>

definition writes :: "trace \<Rightarrow> string list" where
  "writes tr = rev (map payload (filter is_write (map fst tr)))"

lemma writes_Nil [simp]: "writes [] = []"
  by (simp add: writes_def)

lemma writes_Cons: "writes ((c, r) # tr) = writes tr @ (if is_write c then [payload c] else [])"
  by (simp add: writes_def)

lemma writes_sys: "writes (snd (sys env c tr)) = writes tr @ (if is_write c then [payload c] else [])"
  by (simp add: sys_def Let_def writes_Cons)

lemma writes_sys_val: "writes (snd (sys_val env c tr)) = writes tr @ (if is_write c then [payload c] else [])"
  by (simp add: sys_val_def case_prod_unfold Let_def writes_sys)

lemma writes_ssl_read: "writes (snd (snd (sys_ssl_read env s n tr))) = writes tr"
  by (simp add: sys_ssl_read_def case_prod_unfold Let_def writes_sys is_write_def)

lemmas writes_simps = writes_sys writes_sys_val writes_ssl_read is_write_def payload_def case_prod_unfold Let_def

lemma writes_EnSend: "EnSend env cli s tr = Some p \<Longrightarrow> writes (snd p) = writes tr @ [s]"
  by (auto simp: EnSend_def writes_simps split: if_splits)

lemma writes_EnRecv: "EnRecv env cli b tr = Some p \<Longrightarrow> writes (snd (snd p)) = writes tr"
  by (auto simp: EnRecv_def writes_simps split: if_splits elim!: bind_SomeE)

lemma writes_PrintResp: "PrintResp env cli tr = Some p \<Longrightarrow> writes (snd p) = writes tr"
  by (auto simp: PrintResp_def elim!: bind_SomeE dest!: writes_EnRecv)

lemma writes_host_port: "host_port env l tr = Some p \<Longrightarrow> writes (snd (snd p)) = writes tr"
  by (auto simp: host_port_def writes_simps split: if_splits option.splits elim!: bind_SomeE)

lemma writes_host_addr: "writes (snd (host_addr env name tr)) = writes tr"
  by (simp add: host_addr_def writes_simps)

lemma writes_connect: "writes (snd (connect_socket env a p tr)) = writes tr"
  by (simp add: connect_socket_def writes_simps)

lemma writes_Open: "OpenConnectByHost env junk cli host tr = Some p \<Longrightarrow> writes (snd (snd p)) = writes tr"
  by (auto simp: OpenConnectByHost_def case_prod_unfold Let_def writes_host_addr writes_connect
      split: if_splits option.splits elim!: bind_SomeE dest!: writes_host_port)

lemma writes_InitSSL: "writes (snd (snd (InitSSL env cli tr))) = writes tr"
  by (simp add: InitSSL_def writes_simps)

lemma writes_NegoSSL: "NegoSSL env cli tr = Some p \<Longrightarrow> writes (snd (snd p)) = writes tr"
  by (auto simp: NegoSSL_def writes_simps split: if_splits)

lemma writes_FtpsConn: "FtpsConn env junk cli host tr = Some p \<Longrightarrow> writes (snd (snd p)) = writes tr"
  by (auto simp: FtpsConn_def case_prod_unfold Let_def writes_InitSSL split: if_splits elim!: bind_SomeE
      dest!: writes_Open writes_NegoSSL)

lemma writes_OpenFtps: "OpenFtpsClient env junk fresh host tr = Some p \<Longrightarrow> writes (snd p) = writes tr"
  by (auto simp: OpenFtpsClient_def writes_simps split: if_splits elim!: bind_SomeE dest!: writes_FtpsConn writes_PrintResp)

lemma writes_Close: "writes (snd (CloseFtpsClient env cli tr)) = writes tr"
  by (simp add: CloseFtpsClient_def writes_simps)

lemma writes_CloseData: "CloseFtpsDataConn env cli d tr = Some p \<Longrightarrow> writes (snd p) = writes tr @ [''QUIT'' @ CRLF]"
  by (auto simp: CloseFtpsDataConn_def case_prod_unfold Let_def writes_Close elim!: bind_SomeE dest!: writes_EnSend)

definition login_commands :: "string \<Rightarrow> string \<Rightarrow> string list" where
  "login_commands user pass = [''PROT P'' @ CRLF, ''PBSZ 0'' @ CRLF, ''AUTH SSL'' @ CRLF, ''AUTH_TLS'' @ CRLF,
     take 1023 (''USER '' @ user @ CRLF), take 1023 (''PASS '' @ pass @ CRLF)]"

lemma writes_SetConnType:
  "SetConnType env cli 1 tr = Some p \<Longrightarrow>
   writes (snd p) = writes tr @ [''PROT P'' @ CRLF, ''PBSZ 0'' @ CRLF, ''AUTH SSL'' @ CRLF, ''AUTH_TLS'' @ CRLF]"
  by (auto simp: SetConnType_def case_prod_unfold elim!: bind_SomeE dest!: writes_EnSend writes_PrintResp)

lemma cstr_snprintf: "NUL \<notin> set s \<Longrightarrow> b \<noteq> [] \<Longrightarrow> cstr (snprintf b s) = take (length b - 1) s"
  using cstr_append[of "take (length b - 1) s"] by (auto simp: snprintf_def Let_def dest: in_set_takeD)

lemma length_snprintf: "b \<noteq> [] \<Longrightarrow> length (snprintf b s) = length b"
  by (cases b) (auto simp: snprintf_def Let_def min_def)

lemma CRLF_NUL: "NUL \<notin> set CRLF"
  by (simp add: CRLF_def LF_def NUL_def)

lemma writes_FtpsLogin:
  assumes "FtpsLogin env cli user pass tr = Some p" "NUL \<notin> set user" "NUL \<notin> set pass"
  shows "writes (snd p) = writes tr @ login_commands user pass"
proof -
  define U where "U = ''USER '' @ user @ CRLF"
  define P where "P = ''PASS '' @ pass @ CRLF"
  have n: "NUL \<notin> set U" "NUL \<notin> set P" using assms(2,3) CRLF_NUL by (auto simp: U_def P_def NUL_def)
  have b: "replicate 1024 NUL \<noteq> []" by simp
  have l: "length (snprintf (replicate 1024 NUL) U) = 1024" using length_snprintf[OF b] by simp
  have nb: "snprintf (replicate 1024 NUL) U \<noteq> []" using l by (metis list.size(3) zero_neq_numeral)
  have c: "cstr (snprintf (replicate 1024 NUL) U) = take 1023 U" "cstr (snprintf (snprintf (replicate 1024 NUL) U) P) = take 1023 P"
    using cstr_snprintf[OF n(1) b] cstr_snprintf[OF n(2) nb] l by simp_all
  note login = assms(1)[unfolded FtpsLogin_def case_prod_unfold Let_def, folded U_def P_def, unfolded c]
  show ?thesis using login unfolding login_commands_def U_def[symmetric] P_def[symmetric]
    by (elim bind_SomeE) (auto dest!: writes_SetConnType writes_EnSend writes_PrintResp)
qed

lemma writes_PasvSock:
  "FtpsOpenPasvSockConn env junk cli d tr = Some p \<Longrightarrow> writes (snd (snd p)) = writes tr @ [''PASV'' @ CRLF]"
  by (auto simp: FtpsOpenPasvSockConn_def case_prod_unfold elim!: bind_SomeE split: if_splits
      dest!: writes_EnSend writes_EnRecv writes_Open)

lemma writes_PasvSsl: "writes (snd (snd (FtpsOpenPasvSslConn env cli d tr))) = writes tr"
  by (simp add: FtpsOpenPasvSslConn_def writes_simps)

lemma writes_PasvData:
  "FtpsOpenPasvDataConn env junk cli d cmd tr = Some p \<Longrightarrow> fst p = 0 \<Longrightarrow>
   writes (snd (snd p)) = writes tr @ [''PASV'' @ CRLF, ''TYPE I'' @ CRLF, cmd]"
  by (auto simp: FtpsOpenPasvDataConn_def writes_simps writes_PasvSsl elim!: bind_SomeE split: if_splits
      dest!: writes_PasvSock writes_EnSend writes_EnRecv writes_PrintResp)

lemma writes_download:
  assumes "download_loop env s fp tr = Some y"
  shows "writes y = writes tr"
proof (rule download_loop.raw_induct[OF _ assms])
  fix f :: "env \<Rightarrow> int \<Rightarrow> int \<Rightarrow> trace \<Rightarrow> trace option" and env s fp tr y
  assume IH: "\<And>env s fp tr y. f env s fp tr = Some y \<Longrightarrow> writes y = writes tr"
    and step: "(let (n, d, tr) = sys_ssl_read env s 1024 tr in
      if n \<le> 0 then Some tr
      else (let (w, tr) = sys_val env (Fwrite fp d) tr in if w \<le> 0 then Some tr else f env s fp tr)) = Some y"
  show "writes y = writes tr" using step by (auto simp: writes_simps split: if_splits dest!: IH)
qed

lemma writes_Access:
  "FtpsAccessDataByPasvMode env junk cli l cmd tr = Some p \<Longrightarrow> fst p = 0 \<Longrightarrow>
   writes (snd p) = writes tr @ [''PASV'' @ CRLF, ''TYPE I'' @ CRLF, cmd, ''QUIT'' @ CRLF]"
  by (auto simp: FtpsAccessDataByPasvMode_def writes_simps elim!: bind_SomeE split: if_splits
      dest!: writes_PasvData writes_download writes_CloseData)

lemma writes_FtpsGet:
  "FtpsGet env junk cli l r tr = Some p \<Longrightarrow> fst p = 0 \<Longrightarrow>
   writes (snd p) = writes tr @ [''PASV'' @ CRLF, ''TYPE I'' @ CRLF, take 255 (''RETR '' @ r @ CRLF), ''QUIT'' @ CRLF]"
  by (auto simp: FtpsGet_def case_prod_unfold elim!: bind_SomeE split: if_splits dest!: writes_Access)

text \<open>
  C24. Whatever the server answers, a run of \<^verbatim>\<open>ftps_client get\<close> that reports success has sent
  exactly these commands in this order: protection and buffer size, the two authentication
  commands, user and password, and then the transfer with \<^verbatim>\<open>QUIT\<close> as its last command.
\<close>

theorem ftps_get_commands:
  assumes "ftps_main env junk fresh [prog, ''get'', localpath, remotepath, ip, portno, user, pass] [] = Some (0, tr)"
    and "NUL \<notin> set user" "NUL \<notin> set pass"
  shows "writes tr = login_commands user pass @
    [''PASV'' @ CRLF, ''TYPE I'' @ CRLF, take 255 (''RETR '' @ remotepath @ CRLF), ''QUIT'' @ CRLF]"
  using assms(1) unfolding ftps_main_def case_prod_unfold Let_def
  by (auto simp: writes_Close elim!: bind_SomeE split: if_splits option.splits
      dest!: writes_OpenFtps writes_FtpsLogin[OF _ assms(2,3)] writes_FtpsGet)

section \<open>Sockets\<close>

definition is_open :: "trace \<Rightarrow> int \<Rightarrow> bool" where
  "is_open tr fd \<longleftrightarrow> fd \<in> open_fds tr"

text \<open>No descriptor is open afterwards that was not open before, other than \<^verbatim>\<open>c\<close>.\<close>

definition adds :: "int \<Rightarrow> trace \<Rightarrow> trace \<Rightarrow> bool" where
  "adds c tr tr' \<longleftrightarrow> (\<forall>fd. is_open tr' fd \<longrightarrow> fd = c \<or> is_open tr fd)"

lemma adds_same: "is_open tr' = is_open tr \<Longrightarrow> adds c tr tr'"
  by (simp add: adds_def)

lemma adds_cong: "is_open t1 = is_open tr \<Longrightarrow> is_open t2 = is_open tr' \<Longrightarrow> adds c t1 t2 = adds c tr tr'"
  by (simp add: adds_def)

lemma fds_sys_val: "is_open (snd (sys_val env c tr)) =
    (\<lambda>fd. (case c of Socket \<Rightarrow> 0 \<le> fst (sys_val env c tr) \<and> fd = fst (sys_val env c tr) | Accept _ \<Rightarrow> 0 \<le> fst (sys_val env c tr) \<and> fd = fst (sys_val env c tr) | _ \<Rightarrow> False)
      \<or> is_open tr fd \<and> c \<noteq> Close fd)"
  by (rule ext, cases c) (simp_all add: is_open_def sys_val_def sys_def Let_def, blast)

lemma fds_sys: "is_open (snd (sys env c tr)) = is_open (snd (sys_val env c tr))"
  by (simp add: sys_val_def sys_def Let_def)

lemma fds_ssl_read: "is_open (snd (snd (sys_ssl_read env s n tr))) = is_open tr"
  by (simp add: sys_ssl_read_def fds_sys fds_sys_val case_prod_unfold Let_def)

lemmas fds_simps = fds_sys fds_sys_val fds_ssl_read case_prod_unfold Let_def

lemma fds_EnSend: "EnSend env cli s tr = Some p \<Longrightarrow> is_open (snd p) = is_open tr"
  by (auto simp: EnSend_def fds_simps split: if_splits)

lemma fds_EnRecv: "EnRecv env cli b tr = Some p \<Longrightarrow> is_open (snd (snd p)) = is_open tr"
  by (auto simp: EnRecv_def fds_simps split: if_splits elim!: bind_SomeE)

lemma fds_PrintResp: "PrintResp env cli tr = Some p \<Longrightarrow> is_open (snd p) = is_open tr"
  by (auto simp: PrintResp_def elim!: bind_SomeE dest!: fds_EnRecv)

lemma fds_host_port: "host_port env l tr = Some p \<Longrightarrow> is_open (snd (snd p)) = is_open tr"
  by (auto simp: host_port_def fds_simps split: if_splits option.splits elim!: bind_SomeE)

lemma fds_host_addr: "is_open (snd (host_addr env name tr)) = is_open tr"
  by (simp add: host_addr_def fds_simps)

lemma fds_connect:
  "fst (connect_socket env a p tr) \<noteq> -1 \<Longrightarrow> adds (fst (connect_socket env a p tr)) tr (snd (connect_socket env a p tr))"
  by (auto simp: connect_socket_def adds_def fds_simps split: if_splits)

lemma fds_Open:
  assumes "OpenConnectByHost env junk cli host tr = Some (v, cli', tr')"
  shows "v = 0 \<and> adds (connfd cli') tr tr' \<or> v = -1"
proof -
  have c: "adds (fst (connect_socket env a q (snd (host_addr env n t)))) tr (snd (connect_socket env a q (snd (host_addr env n t))))"
    if "fst (connect_socket env a q (snd (host_addr env n t))) \<noteq> -1" "is_open t = is_open tr" for a q n t
    using fds_connect[OF that(1)] that(2) by (simp add: adds_def fds_host_addr)
  from assms c show ?thesis unfolding OpenConnectByHost_def case_prod_unfold Let_def
    by (auto split: if_splits option.splits elim!: bind_SomeE dest!: fds_host_port) (simp add: adds_def)
qed

lemma fds_InitSSL: "is_open (snd (snd (InitSSL env cli tr))) = is_open tr" "connfd (fst (snd (InitSSL env cli tr))) = connfd cli"
  by (simp_all add: InitSSL_def fds_simps)

lemma fds_NegoSSL:
  "NegoSSL env cli tr = Some p \<Longrightarrow> is_open (snd (snd p)) = is_open tr \<and> connfd (fst (snd p)) = connfd cli"
  by (auto simp: NegoSSL_def fds_simps split: if_splits)

lemma fds_FtpsConn:
  "FtpsConn env junk cli host tr = Some (v, cli', tr') \<Longrightarrow> v = -1 \<or> adds (connfd cli') tr tr'"
  by (auto simp: FtpsConn_def case_prod_unfold Let_def fds_InitSSL adds_def split: if_splits elim!: bind_SomeE
      dest!: fds_NegoSSL fds_Open) blast

lemma fds_OpenFtps: "OpenFtpsClient env junk fresh host tr = Some (Some cli, tr') \<Longrightarrow> adds (connfd cli) tr tr'"
  by (auto simp: OpenFtpsClient_def fds_simps adds_def split: if_splits elim!: bind_SomeE dest!: fds_PrintResp fds_FtpsConn) blast

lemma fds_Close: "is_open (snd (CloseFtpsClient env cli tr)) = (\<lambda>fd. is_open tr fd \<and> fd \<noteq> connfd cli)"
  by (auto simp: CloseFtpsClient_def fds_simps)

lemma fds_CloseData: "CloseFtpsDataConn env cli d tr = Some p \<Longrightarrow> is_open (snd p) = (\<lambda>fd. is_open tr fd \<and> fd \<noteq> connfd d)"
  by (auto simp: CloseFtpsDataConn_def case_prod_unfold Let_def fds_Close elim!: bind_SomeE dest!: fds_EnSend)

lemma fds_Login: "FtpsLogin env cli u w tr = Some p \<Longrightarrow> is_open (snd p) = is_open tr"
  by (auto simp: FtpsLogin_def SetConnType_def case_prod_unfold Let_def elim!: bind_SomeE dest!: fds_EnSend fds_PrintResp)

lemma fds_PasvSock: "FtpsOpenPasvSockConn env junk cli d tr = Some (0, d', tr') \<Longrightarrow> adds (connfd d') tr tr'"
  by (auto simp: FtpsOpenPasvSockConn_def case_prod_unfold adds_def elim!: bind_SomeE split: if_splits
      dest!: fds_EnSend fds_EnRecv fds_Open) blast

lemma fds_PasvSsl:
  "FtpsOpenPasvSslConn env cli d tr = (0, d', tr') \<Longrightarrow> is_open tr' = is_open tr \<and> connfd d' = connfd d"
  by (auto simp: FtpsOpenPasvSslConn_def fds_simps split: if_splits)

lemma fds_PasvData:
  assumes "FtpsOpenPasvDataConn env junk cli d cmd tr = Some (0, d', tr')"
  shows "adds (connfd d') tr tr'"
proof -
  obtain d1 t1 t2 where s: "FtpsOpenPasvSockConn env junk cli d tr = Some (0, d1, t1)" "is_open t2 = is_open t1"
      "FtpsOpenPasvSslConn env cli d1 t2 = (0, d', tr')"
    using assms by (auto simp: FtpsOpenPasvDataConn_def case_prod_unfold Let_def elim!: bind_SomeE split: if_splits
        dest!: fds_EnSend fds_EnRecv fds_PrintResp) (metis prod.collapse)
  show ?thesis using fds_PasvSock[OF s(1)] fds_PasvSsl[OF s(3)] s(2) by (simp add: adds_def)
qed

lemma fds_download:
  assumes "download_loop env s fp tr = Some y"
  shows "is_open y = is_open tr"
proof (rule download_loop.raw_induct[OF _ assms])
  fix f :: "env \<Rightarrow> int \<Rightarrow> int \<Rightarrow> trace \<Rightarrow> trace option" and env s fp tr y
  assume IH: "\<And>env s fp tr y. f env s fp tr = Some y \<Longrightarrow> is_open y = is_open tr"
    and step: "(let (n, d, tr) = sys_ssl_read env s 1024 tr in
      if n \<le> 0 then Some tr
      else (let (w, tr) = sys_val env (Fwrite fp d) tr in if w \<le> 0 then Some tr else f env s fp tr)) = Some y"
  show "is_open y = is_open tr" using step by (auto simp: fds_simps split: if_splits dest!: IH)
qed

lemma fds_upload:
  assumes "upload_loop env s fp tr = Some y"
  shows "is_open y = is_open tr"
proof (rule upload_loop.raw_induct[OF _ assms])
  fix f :: "env \<Rightarrow> int \<Rightarrow> int \<Rightarrow> trace \<Rightarrow> trace option" and env s fp tr y
  assume IH: "\<And>env s fp tr y. f env s fp tr = Some y \<Longrightarrow> is_open y = is_open tr"
    and step: "(let (d, tr) = sys_fread env fp 1024 tr in
      if d = [] then Some tr
      else (let (w, tr) = sys_val env (SSL_write s d) tr in if w \<le> 0 then Some tr else f env s fp tr)) = Some y"
  show "is_open y = is_open tr" using step by (auto simp: sys_fread_def fds_simps split: if_splits dest!: IH)
qed

lemma fds_Access: "FtpsAccessDataByPasvMode env junk cli l cmd tr = Some (0, tr') \<Longrightarrow> is_open tr' fd \<Longrightarrow> is_open tr fd"
  by (auto simp: FtpsAccessDataByPasvMode_def fds_simps adds_def elim!: bind_SomeE split: if_splits
      dest!: fds_PasvData fds_download fds_CloseData) blast

lemma fds_Upload: "FtpsUploadDataByPasvMode env junk cli l cmd tr = Some (0, tr') \<Longrightarrow> is_open tr' fd \<Longrightarrow> is_open tr fd"
  by (auto simp: FtpsUploadDataByPasvMode_def fds_simps adds_def elim!: bind_SomeE split: if_splits
      dest!: fds_PasvData fds_upload fds_CloseData) blast

text \<open>
  C25. Whatever the server and the file system answer, a run of the client that reports
  success has closed every socket it opened.
\<close>

theorem ftps_main_closes:
  assumes "ftps_main env junk fresh argv [] = Some (0, tr)"
  shows "open_fds tr = {}"
proof -
  have get: "is_open t fd" if "FtpsGet env junk cli l r t = Some (0, t')" "is_open t' fd" for cli l r t t' fd
    using that by (auto simp: FtpsGet_def case_prod_unfold elim!: bind_SomeE split: if_splits intro: fds_Access)
  have put: "is_open t fd" if "FtpsPut env junk cli r l t = Some (0, t')" "is_open t' fd" for cli l r t t' fd
    using that by (auto simp: FtpsPut_def case_prod_unfold elim!: bind_SomeE split: if_splits intro: fds_Upload)
  have "\<not> is_open tr fd" for fd
    using assms unfolding ftps_main_def case_prod_unfold Let_def
    by (auto simp: fds_Close adds_def is_open_def[of "[]"] elim!: bind_SomeE split: if_splits option.splits
        dest!: fds_Login fds_OpenFtps) (metis get put)+
  then show ?thesis by (auto simp: is_open_def)
qed

end
