(* ===== verification/FtpsFiles.thy ===== *)
theory FtpsFiles
  imports FtpsTransfer
begin

text \<open>
  Whole transfers of the FTPS client. A server that answers as the protocol describes is a
  predicate on the environment; under it a download stores exactly the bytes of the data
  connection and an upload sends exactly the bytes of the file.
\<close>

section \<open>Calls that leave files and other connections alone\<close>

definition harmless :: "int \<Rightarrow> syscall \<Rightarrow> bool" where
  "harmless c k = (case k of Fopen _ _ \<Rightarrow> False | Fread _ _ \<Rightarrow> False | Fwrite _ _ \<Rightarrow> False | SSL_new _ \<Rightarrow> False
     | SSL_connect _ \<Rightarrow> False | SSL_read s _ \<Rightarrow> s = c | SSL_write s _ \<Rightarrow> s = c | _ \<Rightarrow> True)"

definition frame :: "int \<Rightarrow> trace \<Rightarrow> trace \<Rightarrow> bool" where
  "frame c tr tr' \<longleftrightarrow> (\<exists>us. tr' = us @ tr \<and> list_all (\<lambda>(k, r). harmless c k) us)"

text \<open>The bytes read from a secure connection since it was made, and those written to it.\<close>

fun ssl_count :: "int \<Rightarrow> trace \<Rightarrow> nat" where
  "ssl_count s [] = 0"
| "ssl_count s ((c, r) # tr) = (case c of
       SSL_read s' n \<Rightarrow> ssl_count s tr + (if s' = s \<and> 0 \<le> rval r then min n (length (rdata r)) else 0)
     | SSL_new _ \<Rightarrow> if rval r = s then 0 else ssl_count s tr
     | _ \<Rightarrow> ssl_count s tr)"

fun uploaded :: "int \<Rightarrow> trace \<Rightarrow> string" where
  "uploaded s [] = []"
| "uploaded s ((c, r) # tr) = (case c of
       SSL_write s' d \<Rightarrow> uploaded s tr @ (if s' = s \<and> 0 < rval r then d else [])
     | SSL_new _ \<Rightarrow> if rval r = s then [] else uploaded s tr
     | _ \<Rightarrow> uploaded s tr)"

lemma ctl_frame_refl: "frame c tr tr"
  by (simp add: frame_def)

lemma ctl_frame_trans: "frame c tr tr1 \<Longrightarrow> frame c tr1 tr2 \<Longrightarrow> frame c tr tr2"
  by (auto simp: frame_def)

lemma frame_sys: "frame c tr0 tr \<Longrightarrow> harmless c k \<Longrightarrow> frame c tr0 (snd (sys env k tr))"
  by (auto simp: frame_def sys_def Let_def)

lemma frame_sys_val: "frame c tr0 tr \<Longrightarrow> harmless c k \<Longrightarrow> frame c tr0 (snd (sys_val env k tr))"
  by (auto simp: frame_def sys_val_def sys_def Let_def)

lemma frame_ssl_read: "frame c tr0 tr \<Longrightarrow> frame c tr0 (snd (snd (sys_ssl_read env c n tr)))"
  by (auto simp: frame_def sys_ssl_read_def sys_def Let_def harmless_def)

lemmas frame_intros = ctl_frame_refl frame_sys frame_sys_val frame_ssl_read

lemma harmless_keeps:
  assumes "harmless c k"
  shows "written fp ((k, r) # tr) = written fp tr" "read_count fp ((k, r) # tr) = read_count fp tr"
    "s \<noteq> c \<Longrightarrow> ssl_count s ((k, r) # tr) = ssl_count s tr" "s \<noteq> c \<Longrightarrow> uploaded s ((k, r) # tr) = uploaded s tr"
  using assms by (cases k; simp add: harmless_def)+

lemma frame_keeps:
  assumes "frame c tr tr'"
  shows "written fp tr' = written fp tr" "read_count fp tr' = read_count fp tr"
    "s \<noteq> c \<Longrightarrow> ssl_count s tr' = ssl_count s tr" "s \<noteq> c \<Longrightarrow> uploaded s tr' = uploaded s tr" "set tr \<subseteq> set tr'"
proof -
  obtain us where us: "tr' = us @ tr" "list_all (\<lambda>(k, r). harmless c k) us" using assms by (auto simp: frame_def)
  then have "written fp (us @ tr) = written fp tr \<and> read_count fp (us @ tr) = read_count fp tr \<and>
      (s \<noteq> c \<longrightarrow> ssl_count s (us @ tr) = ssl_count s tr \<and> uploaded s (us @ tr) = uploaded s tr)"
    by (induction us arbitrary: tr') (auto simp: harmless_keeps simp del: written.simps(2) read_count.simps(2) ssl_count.simps(2) uploaded.simps(2))
  with us(1) show "written fp tr' = written fp tr" "read_count fp tr' = read_count fp tr"
    "s \<noteq> c \<Longrightarrow> ssl_count s tr' = ssl_count s tr" "s \<noteq> c \<Longrightarrow> uploaded s tr' = uploaded s tr" "set tr \<subseteq> set tr'"
    by auto
qed

lemma frame_connects:
  assumes "frame c tr tr'"
  shows "SSL_connect s \<in> fst ` set tr' \<longleftrightarrow> SSL_connect s \<in> fst ` set tr"
proof -
  obtain us where us: "tr' = us @ tr" "list_all (\<lambda>(k, r). harmless c k) us" using assms by (auto simp: frame_def)
  have "SSL_connect s \<notin> fst ` set us" using us(2) by (force simp: list_all_iff harmless_def)
  then show ?thesis by (auto simp: us(1))
qed

section \<open>A host that can be reached\<close>

definition reachable :: "env \<Rightarrow> bool" where
  "reachable env \<longleftrightarrow> (\<forall>tr. (\<forall>n. rval (env tr (Inet_aton n)) \<noteq> 0) \<and> 0 \<le> rval (env tr Socket) \<and>
     (\<forall>fd opt. rval (env tr (Setsockopt fd opt)) = 0) \<and> (\<forall>fd a p. rval (env tr (Connect fd a p)) = 0))"

lemma connect_ok:
  assumes "reachable env"
  shows "\<exists>fd r tr'. connect_socket env a p tr = (fd, tr') \<and> 0 \<le> fd \<and> (Connect fd a p, r) \<in> set tr' \<and> frame c tr tr'"
proof -
  let ?t1 = "snd (sys_val env Socket tr)"
  let ?fd = "fst (sys_val env Socket tr)"
  let ?t2 = "snd (sys_val env (Setsockopt ?fd ''SO_REUSEADDR'') ?t1)"
  let ?t3 = "snd (sys_val env (Setsockopt ?fd ''SO_LINGER'') ?t2)"
  let ?t4 = "snd (sys_val env (Connect ?fd a p) ?t3)"
  have r: "0 \<le> ?fd" "fst (sys_val env (Setsockopt fd opt) t) = 0" "fst (sys_val env (Connect fd b q) t) = 0" for fd opt b q t
    using assms by (auto simp: reachable_def sys_val_def sys_def Let_def)
  have "connect_socket env a p tr = (?fd, ?t4)" using r by (simp add: connect_socket_def case_prod_unfold Let_def)
  moreover have "\<exists>r. (Connect ?fd a p, r) \<in> set ?t4" by (auto simp: sys_val_def sys_def Let_def)
  moreover have "frame c tr ?t4" by (intro frame_intros) (simp_all add: harmless_def)
  ultimately show ?thesis using r(1) by blast
qed

lemma leftover_length: "n \<le> 24 \<Longrightarrow> length (leftover junk n tr) = 24 - n"
  by (simp add: leftover_def)

lemma OpenConnect_ok:
  assumes "reachable env" "NUL \<notin> set a" "CHR '':'' \<notin> set a" "length (a @ '':'' @ nat_dec p) \<le> 24"
    and g: "NUL \<in> set (leftover junk (length (a @ '':'' @ nat_dec p)) tr)" "host_number junk a p tr < 2 ^ 31"
  shows "\<exists>fd r tr'. OpenConnectByHost env junk cli (a @ '':'' @ nat_dec p) tr =
      Some (0, cli\<lparr> cli_ip := snprintf (cli_ip cli) a, connfd := fd \<rparr>, tr') \<and>
    (Connect fd a (int (host_number junk a p tr) mod 65536), r) \<in> set tr' \<and> frame c tr tr'"
proof -
  let ?host = "a @ '':'' @ nat_dec p"
  let ?g = "leftover junk (length ?host) tr"
  let ?n = "host_number junk a p tr"
  have s: "store_at (take 24 (junk tr @ replicate 24 NUL)) 0 ?host = Some (a @ CHR '':'' # nat_dec p @ ?g)"
    using assms(4) by (simp add: store_at_def leftover_def)
  have p: "host_port env (a @ CHR '':'' # nat_dec p @ ?g) tr = Some (Some (int ?n mod 65536), a @ NUL # nat_dec p @ ?g, tr)"
    using assms(2,3) g by (intro host_port_reads) (simp_all add: host_number_def)
  have n: "str_of (a @ NUL # nat_dec p @ ?g) = Some a" using assms(2) by (rule str_of_append)
  have h: "host_addr env a tr = (Some a, snd (sys_val env (Inet_aton a) tr))"
    using assms(1) by (simp add: host_addr_def case_prod_unfold Let_def reachable_def sys_val_def sys_def)
  have f: "frame c tr (snd (sys_val env (Inet_aton a) tr))" by (intro frame_intros) (simp add: harmless_def)
  obtain fd r tr' where k: "connect_socket env a (int ?n mod 65536) (snd (sys_val env (Inet_aton a) tr)) = (fd, tr')" "0 \<le> fd"
      "(Connect fd a (int ?n mod 65536), r) \<in> set tr'" "frame c (snd (sys_val env (Inet_aton a) tr)) tr'"
    using connect_ok[OF assms(1)] by blast
  have "OpenConnectByHost env junk cli ?host tr = Some (0, cli\<lparr> cli_ip := snprintf (cli_ip cli) a, connfd := fd \<rparr>, tr')"
    unfolding OpenConnectByHost_def s bind.bind_lunit p using k(2) by (simp add: str_of_append[OF assms(2)] h k(1))
  then show ?thesis using k(3) ctl_frame_trans[OF f k(4)] by blast
qed

text \<open>
  C27. The array the host is copied to is not initialised and the copy has no terminator, so
  the port of the connection is the number made of the digits of the host text and of the
  digits that happen to follow in the array.
\<close>

theorem uninitialised_port:
  assumes "reachable env" "NUL \<notin> set a" "CHR '':'' \<notin> set a" "length (a @ '':'' @ nat_dec p) \<le> 24"
    and "NUL \<in> set (leftover junk (length (a @ '':'' @ nat_dec p)) [])" "host_number junk a p [] < 2 ^ 31"
  shows "\<exists>cli' tr r. OpenConnectByHost env junk cli (a @ '':'' @ nat_dec p) [] = Some (0, cli', tr) \<and>
    (Connect (connfd cli') a (int (host_number junk a p []) mod 65536), r) \<in> set tr"
  using OpenConnect_ok[OF assms] by fastforce

definition clean :: "(trace \<Rightarrow> cbuf) \<Rightarrow> bool" where
  "clean junk \<longleftrightarrow> (\<forall>tr. set (junk tr) \<subseteq> {NUL})"

lemma clean_leftover: "clean junk \<Longrightarrow> \<forall>b \<in> set (leftover junk n tr). b = NUL"
  by (fastforce simp: clean_def leftover_def dest: in_set_dropD in_set_takeD)

lemma clean_ends: "clean junk \<Longrightarrow> n < 24 \<Longrightarrow> NUL \<in> set (leftover junk n tr)"
proof -
  assume c: "clean junk" and n: "n < 24"
  then have "leftover junk n tr \<noteq> []" using leftover_length[of n junk tr] by fastforce
  then show ?thesis using clean_leftover[OF c, of n tr] by (metis list.set_sel(1))
qed

lemma clean_number: "clean junk \<Longrightarrow> host_number junk a p tr = p"
proof -
  assume "clean junk"
  moreover have "cstr xs = []" if "\<forall>b \<in> set xs. b = NUL" for xs using that by (cases xs) (simp_all add: cstr_def)
  ultimately have "cstr (leftover junk n tr) = []" for n using clean_leftover by blast
  then show ?thesis by (simp add: host_number_def digits_val_nat_dec)
qed

section \<open>Opening the data connection\<close>

text \<open>
  A server that answers the commands, with the passive address and no refusal. The first
  secure connection is \<^verbatim>\<open>c\<close>; one made after \<^verbatim>\<open>c\<close> is connected is another.
\<close>

definition ftp_server :: "env \<Rightarrow> int \<Rightarrow> int \<Rightarrow> nat list \<Rightarrow> nat \<Rightarrow> nat \<Rightarrow> bool" where
  "ftp_server env c x h p1 p2 \<longleftrightarrow> 0 \<le> c \<and> 0 \<le> x \<and> length h = 4 \<and> list_all (\<lambda>n. n < 256) h \<and> p1 < 256 \<and> p2 < 256 \<and> (\<forall>tr.
     0 \<le> rval (env tr (Malloc 57)) \<and> (\<forall>l m. 0 \<le> rval (env tr (Fopen l m))) \<and> rval (env tr SSL_CTX_new) = x \<and>
     0 \<le> rval (env tr (SSL_new x)) \<and> (rval (env tr (SSL_new x)) = c \<longleftrightarrow> SSL_connect c \<notin> fst ` set tr) \<and>
     (\<forall>s. rval (env tr (SSL_connect s)) = 1) \<and>
     0 \<le> rval (env tr (SSL_read c 512)) \<and> rdata (env tr (SSL_read c 512)) = pasv_answer h p1 p2 \<and>
     0 \<le> rval (env tr (SSL_read c 1024)) \<and> length (rdata (env tr (SSL_read c 1024))) < 1024 \<and>
     take 1 (rdata (env tr (SSL_read c 1024))) \<noteq> ''5'')"

text \<open>A client after login: a secure connection and the address of its server.\<close>

definition logged_in :: "FtpsClient \<Rightarrow> string \<Rightarrow> int \<Rightarrow> int \<Rightarrow> bool" where
  "logged_in cli a c x \<longleftrightarrow> ssl cli = c \<and> ctx cli = x \<and> str_of (cli_ip cli) = Some a \<and> CHR '':'' \<notin> set a \<and> length a \<le> 15"

lemma EnSend_ok: "0 \<le> ssl cli \<Longrightarrow> \<exists>v tr'. EnSend env cli s tr = Some (v, tr') \<and> frame (ssl cli) tr tr'"
  using frame_sys_val[OF ctl_frame_refl, of "ssl cli" "SSL_write (ssl cli) s" tr env]
  by (auto simp: EnSend_def case_prod_unfold Let_def harmless_def)

lemma EnRecv_ok:
  assumes "0 \<le> ssl cli" "0 \<le> rval (env tr (SSL_read (ssl cli) n))" "length (rdata (env tr (SSL_read (ssl cli) n))) < n"
  shows "\<exists>v tr'. EnRecv env cli (replicate n NUL) tr =
      Some (v, rdata (env tr (SSL_read (ssl cli) n)) @ replicate (n - length (rdata (env tr (SSL_read (ssl cli) n)))) NUL, tr') \<and>
    frame (ssl cli) tr tr'"
  using assms frame_ssl_read[OF ctl_frame_refl, of "ssl cli" tr env n]
  by (auto simp: EnRecv_def sys_ssl_read_def sys_def Let_def store_at_def)

lemma str_of_padded: "0 < n \<Longrightarrow> NUL \<notin> set d \<Longrightarrow> str_of (d @ replicate n NUL) = Some d"
  using str_of_append[of d "replicate (n - 1) NUL"] by (cases n) auto

lemma PrintResp_ok:
  assumes "ftp_server env (ssl cli) x h p1 p2"
  shows "\<exists>tr'. PrintResp env cli tr = Some (0, tr') \<and> frame (ssl cli) tr tr'"
proof -
  let ?d = "rdata (env tr (SSL_read (ssl cli) 1024))"
  have l: "length ?d < 1024" "0 \<le> ssl cli" using assms by (auto simp: ftp_server_def)
  obtain v tr' where "EnRecv env cli (replicate 1024 NUL) tr = Some (v, ?d @ replicate (1024 - length ?d) NUL, tr')" "frame (ssl cli) tr tr'"
    using EnRecv_ok[OF l(2), of env tr 1024] assms by (auto simp: ftp_server_def)
  moreover have "\<exists>s. str_of (?d @ replicate (1024 - length ?d) NUL) = Some s" using l by (simp add: str_of_def)
  ultimately show ?thesis by (auto simp: PrintResp_def)
qed

lemma length_nat_dec_5: "n < 100000 \<Longrightarrow> length (nat_dec n) \<le> 5"
proof -
  assume "n < 100000"
  then have "n div 100 < 1000" by simp
  from length_nat_dec_3[OF this] show ?thesis
    using nat_dec.simps[of n] nat_dec.simps[of "n div 10"] nat_dec.simps[of "n div 10 div 10"] by (auto simp: div_mult2_eq[symmetric] split: if_splits)
qed

lemma pasv_answer_facts:
  assumes "length h = 4" "list_all (\<lambda>n. n < 256) h" "p1 < 256" "p2 < 256"
  shows "NUL \<notin> set (pasv_answer h p1 p2)" "length (pasv_answer h p1 p2) < 512" "CHR ''('' \<in> set (pasv_answer h p1 p2)"
proof -
  obtain a b c d where h: "h = [a, b, c, d]" using assms(1) by (auto simp: numeral_eq_Suc length_Suc_conv)
  have "NUL \<notin> set (nat_dec n)" for n using nat_dec_char isdigit_plain by blast
  then show "NUL \<notin> set (pasv_answer h p1 p2)" using CRLF_NUL by (auto simp: pasv_answer_def h NUL_def)
  have "length (nat_dec n) \<le> 3" if "n < 256" for n using that by (intro length_nat_dec_3) simp
  then have "length (nat_dec a) \<le> 3" "length (nat_dec b) \<le> 3" "length (nat_dec c) \<le> 3" "length (nat_dec d) \<le> 3"
    "length (nat_dec p1) \<le> 3" "length (nat_dec p2) \<le> 3" using assms by (auto simp: h)
  then show "length (pasv_answer h p1 p2) < 512" by (simp add: pasv_answer_def h CRLF_def)
  show "CHR ''('' \<in> set (pasv_answer h p1 p2)" by (simp add: pasv_answer_def)
qed

lemma PasvSock_ok:
  assumes srv: "ftp_server env c x h p1 p2" "reachable env" and cli: "logged_in cli a c x" and "clean junk"
  shows "\<exists>fd r ip tr'. FtpsOpenPasvSockConn env junk cli client0 tr = Some (0, client0\<lparr> cli_ip := ip, connfd := fd \<rparr>, tr') \<and>
    (Connect fd a (int (p1 * 256 + p2)), r) \<in> set tr' \<and> frame (ssl cli) tr tr'"
proof -
  let ?p = "p1 * 256 + p2"
  let ?ans = "pasv_answer h p1 p2"
  have c: "0 \<le> ssl cli" "str_of (cli_ip cli) = Some a" "CHR '':'' \<notin> set a" "length a \<le> 15" "NUL \<notin> set a"
    using cli srv(1) str_of_SomeD by (auto simp: logged_in_def ftp_server_def)
  have ssl: "ssl cli = c" using cli by (simp add: logged_in_def)
  have q: "length h = 4" "list_all (\<lambda>n. n < 256) h" "p1 < 256" "p2 < 256" using srv(1) by (auto simp: ftp_server_def)
  note ans = pasv_answer_facts[OF q]
  have lp: "length (nat_dec ?p) \<le> 5" using q by (intro length_nat_dec_5) linarith
  obtain v1 t1 where s1: "EnSend env cli (''PASV'' @ CRLF) tr = Some (v1, t1)" "frame (ssl cli) tr t1" using EnSend_ok[OF c(1)] by blast
  have d: "rdata (env t1 (SSL_read (ssl cli) 512)) = ?ans" "0 \<le> rval (env t1 (SSL_read (ssl cli) 512))"
    using srv(1) by (auto simp: ftp_server_def ssl)
  obtain v2 t2 where s2: "EnRecv env cli (replicate 512 NUL) t1 = Some (v2, ?ans @ replicate (512 - length ?ans) NUL, t2)" "frame (ssl cli) t1 t2"
    using EnRecv_ok[OF c(1), of env t1 512] d ans(2) by auto
  have s: "str_of (?ans @ replicate (512 - length ?ans) NUL) = Some ?ans" using ans by (intro str_of_padded) auto
  have paren: "\<exists>y. strchr (?ans @ replicate (512 - length ?ans) NUL) (CHR ''('') = Some (Some y)"
    using ans(3) by (auto simp: strchr_def s find_chr_def)
  have n: "host_number junk a ?p t2 = ?p" by (rule clean_number[OF assms(4)])
  have g: "NUL \<in> set (leftover junk (length (a @ '':'' @ nat_dec ?p)) t2)" using lp c(4) by (intro clean_ends assms(4)) simp
  have pm: "int ?p mod 65536 = int ?p" "?p < 2 ^ 31" using q by auto
  obtain fd r t3 where o: "OpenConnectByHost env junk client0 (a @ '':'' @ nat_dec ?p) t2 =
      Some (0, client0\<lparr> cli_ip := snprintf (cli_ip client0) a, connfd := fd \<rparr>, t3)"
      "(Connect fd a (int ?p), r) \<in> set t3" "frame (ssl cli) t2 t3"
    using OpenConnect_ok[OF srv(2) c(5,3) _ g, of client0 "ssl cli"] n pm lp c(4) by auto
  have tk: "take 255 (a @ '':'' @ int_dec (int ?p)) = a @ '':'' @ nat_dec ?p" unfolding int_dec_nat using lp c(4) by simp
  have "FtpsOpenPasvSockConn env junk cli client0 tr = Some (0, client0\<lparr> cli_ip := snprintf (cli_ip client0) a, connfd := fd \<rparr>, t3)"
    unfolding FtpsOpenPasvSockConn_def s1(1) s2(1) bind.bind_lunit prod.case s pasv_port_reads[OF q] c(2) tk o(1)
    using paren by auto
  then show ?thesis using o(2) ctl_frame_trans[OF s1(2) ctl_frame_trans[OF s2(2) o(3)]] by blast
qed

text \<open>The data connection: a new secure connection, on which nothing was read or written yet.\<close>

lemma PasvData_ok:
  assumes srv: "ftp_server env c x h p1 p2" "reachable env" and cli: "logged_in cli a c x" and "clean junk"
    and up: "SSL_connect c \<in> fst ` set tr"
  shows "\<exists>d r fd tr'. FtpsOpenPasvDataConn env junk cli client0 cmd tr = Some (0, d, tr') \<and> ssl d \<noteq> ssl cli \<and>
    (Connect fd a (int (p1 * 256 + p2)), r) \<in> set tr' \<and> set tr \<subseteq> set tr' \<and> written fp tr' = written fp tr \<and>
    read_count fp tr' = read_count fp tr \<and> ssl_count (ssl d) tr' = 0 \<and> uploaded (ssl d) tr' = []"
proof -
  have c: "0 \<le> ssl cli" "ssl cli = c" "ctx cli = x" using cli srv(1) by (auto simp: logged_in_def ftp_server_def)
  have srv': "ftp_server env (ssl cli) x h p1 p2" using srv(1) c(2) by simp
  obtain fd r ip t1 where s1: "FtpsOpenPasvSockConn env junk cli client0 tr = Some (0, client0\<lparr> cli_ip := ip, connfd := fd \<rparr>, t1)"
      "(Connect fd a (int (p1 * 256 + p2)), r) \<in> set t1" "frame (ssl cli) tr t1"
    using PasvSock_ok[OF srv cli assms(4)] by blast
  obtain v2 t2 where s2: "EnSend env cli (''TYPE I'' @ CRLF) t1 = Some (v2, t2)" "frame (ssl cli) t1 t2" using EnSend_ok[OF c(1)] by blast
  obtain t3 where s3: "PrintResp env cli t2 = Some (0, t3)" "frame (ssl cli) t2 t3" using PrintResp_ok[OF srv'] by blast
  obtain v4 t4 where s4: "EnSend env cli cmd t3 = Some (v4, t4)" "frame (ssl cli) t3 t4" using EnSend_ok[OF c(1)] by blast
  let ?d = "rdata (env t4 (SSL_read (ssl cli) 1024))"
  have d: "0 \<le> rval (env t4 (SSL_read (ssl cli) 1024))" "length ?d < 1024" "take 1 ?d \<noteq> ''5''" using srv' by (auto simp: ftp_server_def)
  obtain v5 t5 where s5: "EnRecv env cli (replicate 1024 NUL) t4 = Some (v5, ?d @ replicate (1024 - length ?d) NUL, t5)" "frame (ssl cli) t4 t5"
    using EnRecv_ok[of cli env t4 1024] c(1) d(1,2) by blast
  have h5: "hd (?d @ replicate (1024 - length ?d) NUL) \<noteq> CHR ''5''" using d by (cases ?d) (auto simp: NUL_def)
  have fr: "frame (ssl cli) tr t5" using s1(3) s2(2) s3(2) s4(2) s5(2) ctl_frame_trans by blast
  let ?dh = "client0\<lparr> cli_ip := ip, connfd := fd \<rparr>"
  let ?s = "rval (env t5 (SSL_new (ctx cli)))"
  let ?t6 = "(SSL_new (ctx cli), env t5 (SSL_new (ctx cli))) # t5"
  let ?t7 = "(SSL_set_fd ?s fd, env ?t6 (SSL_set_fd ?s fd)) # ?t6"
  let ?t8 = "(SSL_connect ?s, env ?t7 (SSL_connect ?s)) # ?t7"
  have "SSL_connect c \<in> fst ` set t5" using up frame_keeps(5)[OF fr] by blast
  then have n: "0 \<le> ?s" "?s \<noteq> ssl cli" "\<And>t. rval (env t (SSL_connect ?s)) = 1" using srv(1) c(2,3) by (auto simp: ftp_server_def)
  have s6: "FtpsOpenPasvSslConn env cli ?dh t5 = (0, ?dh\<lparr> ssl := ?s \<rparr>, ?t8)"
    using n by (simp add: FtpsOpenPasvSslConn_def sys_val_def sys_def Let_def)
  have "FtpsOpenPasvDataConn env junk cli client0 cmd tr = Some (0, ?dh\<lparr> ssl := ?s \<rparr>, ?t8)"
    unfolding FtpsOpenPasvDataConn_def s1(1) bind.bind_lunit prod.case s2(1) s3(1) s4(1) s5(1) s6 using h5 by simp
  moreover have "(Connect fd a (int (p1 * 256 + p2)), r) \<in> set t5"
    using s1(2) s2(2) s3(2) s4(2) s5(2) frame_keeps(5) by blast
  ultimately show ?thesis using n(2) frame_keeps[OF fr] by fastforce
qed

section \<open>Transfers\<close>

text \<open>The bytes of the data connection arrive in order, in pieces of any size, and are written whole.\<close>

definition data_stream :: "env \<Rightarrow> int \<Rightarrow> string \<Rightarrow> bool" where
  "data_stream env c D \<longleftrightarrow> (\<forall>tr s. s \<noteq> c \<longrightarrow> 0 \<le> rval (env tr (SSL_read s 1024)) \<and>
       (\<exists>k. rdata (env tr (SSL_read s 1024)) = take (Suc k) (drop (ssl_count s tr) D))) \<and>
     (\<forall>tr fp d. rval (env tr (Fwrite fp d)) = int (length d))"

lemma download_stores:
  assumes "data_stream env c D" "s \<noteq> c"
  shows "ssl_count s tr \<le> length D \<Longrightarrow>
    \<exists>tr'. download_loop env s fp tr = Some tr' \<and> written fp tr' = written fp tr @ drop (ssl_count s tr) D \<and> set tr \<subseteq> set tr'"
proof (induction "length D - ssl_count s tr" arbitrary: tr rule: less_induct)
  case less
  let ?n = "ssl_count s tr"
  let ?r = "env tr (SSL_read s 1024)"
  let ?tr = "(SSL_read s 1024, ?r) # tr"
  obtain k where r: "0 \<le> rval ?r" "rdata ?r = take (Suc k) (drop ?n D)"
    using assms unfolding data_stream_def by meson
  define d where "d = take 1024 (rdata ?r)"
  have rv: "sys_ssl_read env s 1024 tr = (int (length d), d, ?tr)" using r(1) by (simp add: sys_ssl_read_def sys_def Let_def d_def)
  have d: "d = take (length d) (drop ?n D)" by (simp add: d_def r(2) min_def)
  show ?case
  proof (cases "d = []")
    case True
    then have "drop ?n D = []" by (simp add: d_def r(2))
    moreover have "download_loop env s fp tr = Some ?tr" using rv True by (subst download_loop.simps) simp
    ultimately show ?thesis by auto
  next
    case False
    let ?w = "env ?tr (Fwrite fp d)"
    let ?t = "(Fwrite fp d, ?w) # ?tr"
    have w: "rval ?w = int (length d)" using assms(1) by (simp add: data_stream_def)
    have c: "ssl_count s ?t = ?n + length d" using r(1) by (simp add: d_def min.commute)
    have len: "0 < length d" "?n + length d \<le> length D" using False less.prems arg_cong[OF d, of length] by auto
    have lt: "length D - ssl_count s ?t < length D - ?n" "ssl_count s ?t \<le> length D" using c len by linarith+
    obtain tr2 where t2: "download_loop env s fp ?t = Some tr2" "written fp tr2 = written fp ?t @ drop (ssl_count s ?t) D" "set ?t \<subseteq> set tr2"
      using less.hyps[of ?t] lt by blast
    have "download_loop env s fp tr = Some tr2"
      using rv False t2(1) w by (subst download_loop.simps) (simp add: sys_val_def sys_def Let_def)
    moreover have "written fp ?t = written fp tr @ d" by (simp add: w)
    moreover have "d @ drop (?n + length d) D = drop ?n D" by (metis d append_take_drop_id drop_drop add.commute)
    moreover have "set tr \<subseteq> set tr2" using t2(3) by auto
    ultimately show ?thesis using t2(2) c by (metis append_assoc)
  qed
qed

lemma CloseData_ok:
  assumes "0 \<le> ssl cli"
  shows "\<exists>v tr'. CloseFtpsDataConn env cli d tr = Some (v, tr') \<and> frame (ssl cli) tr tr'"
proof -
  obtain v t1 where s: "EnSend env cli (''QUIT'' @ CRLF) tr = Some (v, t1)" "frame (ssl cli) tr t1" using EnSend_ok[OF assms] by blast
  have "frame (ssl cli) t1 (snd (CloseFtpsClient env d t1))"
    unfolding CloseFtpsClient_def case_prod_unfold Let_def snd_conv
    by (intro frame_sys_val) (auto simp: harmless_def intro!: frame_intros)
  then show ?thesis using s ctl_frame_trans[OF s(2)] by (auto simp: CloseFtpsDataConn_def case_prod_unfold Let_def)
qed

lemma get_done:
  assumes "ftp_server env c x h p1 p2" "reachable env" "logged_in cli a c x" "clean junk" "SSL_connect c \<in> fst ` set tr"
    and "data_stream env c D"
  shows "\<exists>tr' r fd q. FtpsGet env junk cli (Some localpath) remotepath tr = Some (0, tr') \<and>
    (Fopen localpath ''wb+'', r) \<in> set tr' \<and> written (rval r) tr' = D \<and> (Connect fd a (int (p1 * 256 + p2)), q) \<in> set tr' \<and>
    set tr \<subseteq> set tr'"
proof -
  define cmd where "cmd = take 255 (''RETR '' @ remotepath @ CRLF)"
  let ?t1 = "(Malloc 57, env tr (Malloc 57)) # tr"
  define r where "r = env ?t1 (Fopen localpath ''wb+'')"
  define t2 where "t2 = (Fopen localpath ''wb+'', r) # ?t1"
  have pos: "0 \<le> rval (env tr (Malloc 57))" "0 \<le> rval r" "0 \<le> ssl cli" "ssl cli = c"
    using assms(1,3) by (auto simp: ftp_server_def logged_in_def r_def)
  have w: "written (rval r) t2 = []" "SSL_connect c \<in> fst ` set t2" "set tr \<subseteq> set t2" using assms(5) by (auto simp: t2_def)
  obtain d q fd t3 where s3: "FtpsOpenPasvDataConn env junk cli client0 cmd t2 = Some (0, d, t3)" "ssl d \<noteq> c"
      "(Connect fd a (int (p1 * 256 + p2)), q) \<in> set t3" "set t2 \<subseteq> set t3" "written (rval r) t3 = []" "ssl_count (ssl d) t3 = 0"
    using PasvData_ok[OF assms(1-4) w(2), of cmd "rval r"] pos(4) w(1) by auto
  obtain t4 where s4: "download_loop env (ssl d) (rval r) t3 = Some t4" "written (rval r) t4 = D" "set t3 \<subseteq> set t4"
    using download_stores[OF assms(6) s3(2), of t3 "rval r"] s3(5,6) by auto
  obtain v t5 where s5: "CloseFtpsDataConn env cli d t4 = Some (v, t5)" "frame (ssl cli) t4 t5" using CloseData_ok[OF pos(3)] by blast
  define t6 where "t6 = (Fclose (rval r), env t5 (Fclose (rval r))) # t5"
  have "FtpsGet env junk cli (Some localpath) remotepath tr = Some (0, t6)"
    unfolding FtpsGet_def cmd_def[symmetric] using pos(1,2) s3(1) s4(1) s5(1)
    by (simp add: FtpsAccessDataByPasvMode_def sys_val_def sys_def Let_def t6_def r_def[symmetric] t2_def[symmetric])
  moreover have "written (rval r) t6 = D" using s4(2) frame_keeps(1)[OF s5(2)] by (simp add: t6_def)
  moreover have "set t3 \<subseteq> set t6" using s4(3) frame_keeps(5)[OF s5(2)] by (auto simp: t6_def)
  moreover have "(Fopen localpath ''wb+'', r) \<in> set t2" by (simp add: t2_def)
  ultimately show ?thesis using s3(3,4) w(3) by blast
qed

text \<open>The file is read from the front and every write to the data connection succeeds.\<close>

definition data_sink :: "env \<Rightarrow> int \<Rightarrow> string \<Rightarrow> bool" where
  "data_sink env c F \<longleftrightarrow> (\<forall>tr. (\<forall>fp n. rdata (env tr (Fread fp n)) = drop (read_count fp tr) F) \<and>
     (\<forall>s d. s \<noteq> c \<longrightarrow> 0 < rval (env tr (SSL_write s d))))"

lemma upload_sends:
  assumes "data_sink env c F" "s \<noteq> c"
  shows "read_count fp tr \<le> length F \<Longrightarrow>
    \<exists>tr'. upload_loop env s fp tr = Some tr' \<and> uploaded s tr' = uploaded s tr @ drop (read_count fp tr) F \<and> set tr \<subseteq> set tr'"
proof (induction "length F - read_count fp tr" arbitrary: tr rule: less_induct)
  case less
  let ?n = "read_count fp tr"
  let ?r = "env tr (Fread fp 1024)"
  let ?tr = "(Fread fp 1024, ?r) # tr"
  have r: "rdata ?r = drop ?n F" using assms(1) by (simp add: data_sink_def)
  define d where "d = take 1024 (drop ?n F)"
  have f: "sys_fread env fp 1024 tr = (d, ?tr)" by (simp add: sys_fread_def sys_def r Let_def d_def)
  show ?case
  proof (cases "d = []")
    case True
    then have "drop ?n F = []" by (simp add: d_def)
    moreover have "upload_loop env s fp tr = Some ?tr" using f True by (subst upload_loop.simps) simp
    ultimately show ?thesis by auto
  next
    case False
    let ?w = "env ?tr (SSL_write s d)"
    let ?t = "(SSL_write s d, ?w) # ?tr"
    have w: "0 < rval ?w" using assms by (simp add: data_sink_def)
    have c: "read_count fp ?t = ?n + length d" by (simp add: r d_def min.commute)
    have len: "0 < length d" "?n + length d \<le> length F" using False less.prems by (auto simp: d_def)
    have lt: "length F - read_count fp ?t < length F - ?n" "read_count fp ?t \<le> length F" using c len by linarith+
    obtain tr2 where t2: "upload_loop env s fp ?t = Some tr2" "uploaded s tr2 = uploaded s ?t @ drop (read_count fp ?t) F" "set ?t \<subseteq> set tr2"
      using less.hyps[of ?t] lt by blast
    have "upload_loop env s fp tr = Some tr2"
      using f False t2(1) w by (subst upload_loop.simps) (simp add: sys_val_def sys_def Let_def)
    moreover have "uploaded s ?t = uploaded s tr @ d" using w by simp
    moreover have "d @ drop (?n + length d) F = drop ?n F"
      by (simp add: d_def) (metis append_take_drop_id drop_drop add.commute length_drop min_def order_refl take_all drop_all)
    moreover have "set tr \<subseteq> set tr2" using t2(3) by auto
    ultimately show ?thesis using t2(2) c by (metis append_assoc)
  qed
qed

lemma put_done:
  assumes "ftp_server env c x h p1 p2" "reachable env" "logged_in cli a c x" "clean junk" "SSL_connect c \<in> fst ` set tr"
    and "data_sink env c F"
  shows "\<exists>tr' s fd q. FtpsPut env junk cli remotepath (Some localpath) tr = Some (0, tr') \<and>
    s \<noteq> c \<and> uploaded s tr' = F \<and> (Connect fd a (int (p1 * 256 + p2)), q) \<in> set tr'"
proof -
  define cmd where "cmd = take 255 (''STOR '' @ remotepath @ CRLF)"
  let ?t1 = "(Malloc 57, env tr (Malloc 57)) # tr"
  define r where "r = env ?t1 (Fopen localpath ''rb'')"
  define t2 where "t2 = (Fopen localpath ''rb'', r) # ?t1"
  have pos: "0 \<le> rval (env tr (Malloc 57))" "0 \<le> rval r" "0 \<le> ssl cli" "ssl cli = c"
    using assms(1,3) by (auto simp: ftp_server_def logged_in_def r_def)
  have w: "read_count (rval r) t2 = 0" "SSL_connect c \<in> fst ` set t2" using assms(5) by (auto simp: t2_def)
  obtain d q fd t3 where s3: "FtpsOpenPasvDataConn env junk cli client0 cmd t2 = Some (0, d, t3)" "ssl d \<noteq> c"
      "(Connect fd a (int (p1 * 256 + p2)), q) \<in> set t3" "read_count (rval r) t3 = 0" "uploaded (ssl d) t3 = []"
    using PasvData_ok[OF assms(1-4) w(2), of cmd "rval r"] pos(4) w(1) by auto
  obtain t4 where s4: "upload_loop env (ssl d) (rval r) t3 = Some t4" "uploaded (ssl d) t4 = F" "set t3 \<subseteq> set t4"
    using upload_sends[OF assms(6) s3(2), of "rval r" t3] s3(4,5) by auto
  obtain v t5 where s5: "CloseFtpsDataConn env cli d t4 = Some (v, t5)" "frame (ssl cli) t4 t5" using CloseData_ok[OF pos(3)] by blast
  define t6 where "t6 = (Fclose (rval r), env t5 (Fclose (rval r))) # t5"
  have "FtpsPut env junk cli remotepath (Some localpath) tr = Some (0, t6)"
    unfolding FtpsPut_def cmd_def[symmetric] using pos(1,2) s3(1) s4(1) s5(1)
    by (simp add: FtpsUploadDataByPasvMode_def sys_val_def sys_def Let_def t6_def r_def[symmetric] t2_def[symmetric])
  moreover have "uploaded (ssl d) t6 = F" using s4(2) frame_keeps(4)[OF s5(2)] s3(2) pos(4) by (simp add: t6_def)
  moreover have "set t3 \<subseteq> set t6" using s4(3) frame_keeps(5)[OF s5(2)] by (auto simp: t6_def)
  ultimately show ?thesis using s3(2,3) by blast
qed

section \<open>The program\<close>

lemma login_ok:
  assumes "ftp_server env (ssl cli) x h p1 p2"
  shows "\<exists>tr'. FtpsLogin env cli user pass tr = Some (0, tr') \<and> frame (ssl cli) tr tr'"
proof -
  have say: "\<exists>t2. (do { (_, t) \<leftarrow> EnSend env cli s t; PrintResp env cli t }) = Some (0, t2) \<and> frame (ssl cli) t t2" for s t
  proof -
    have "0 \<le> ssl cli" using assms by (simp add: ftp_server_def)
    then obtain v t1 where "EnSend env cli s t = Some (v, t1)" "frame (ssl cli) t t1" using EnSend_ok by blast
    moreover obtain t2 where "PrintResp env cli t1 = Some (0, t2)" "frame (ssl cli) t1 t2" using PrintResp_ok[OF assms] by blast
    ultimately show ?thesis using ctl_frame_trans by fastforce
  qed
  obtain t1 where s1: "do { (_, t) \<leftarrow> EnSend env cli (''PROT P'' @ CRLF) tr; PrintResp env cli t } = Some (0, t1)" "frame (ssl cli) tr t1"
    using say by blast
  obtain t2 where s2: "do { (_, t) \<leftarrow> EnSend env cli (''PBSZ 0'' @ CRLF) t1; PrintResp env cli t } = Some (0, t2)" "frame (ssl cli) t1 t2"
    using say by blast
  obtain t3 where s3: "do { (_, t) \<leftarrow> EnSend env cli (''AUTH SSL'' @ CRLF) t2; PrintResp env cli t } = Some (0, t3)" "frame (ssl cli) t2 t3"
    using say by blast
  obtain t4 where s4: "do { (_, t) \<leftarrow> EnSend env cli (''AUTH_TLS'' @ CRLF) t3; PrintResp env cli t } = Some (0, t4)" "frame (ssl cli) t3 t4"
    using say by blast
  define b where "b = snprintf (replicate 1024 NUL) (''USER '' @ user @ CRLF)"
  obtain t5 where s5: "do { (_, t) \<leftarrow> EnSend env cli (cstr b) t4; PrintResp env cli t } = Some (0, t5)" "frame (ssl cli) t4 t5"
    using say by blast
  obtain t6 where s6: "do { (_, t) \<leftarrow> EnSend env cli (cstr (snprintf b (''PASS '' @ pass @ CRLF))) t5; PrintResp env cli t } = Some (0, t6)" "frame (ssl cli) t5 t6"
    using say by blast
  have "SetConnType env cli 1 tr = Some (0, t4)"
    using s1(1) s2(1) s3(1) s4(1) by (auto simp: SetConnType_def bind_eq_Some_conv)
  then have "FtpsLogin env cli user pass tr = Some (0, t6)"
    unfolding FtpsLogin_def Let_def b_def[symmetric] using s5(1) s6(1) by (auto simp: bind_eq_Some_conv)
  then show ?thesis using s1(2) s2(2) s3(2) s4(2) s5(2) s6(2) ctl_frame_trans by blast
qed

lemma open_ok:
  assumes srv: "ftp_server env c x h p1 p2" "reachable env" "clean junk"
    and a: "NUL \<notin> set a" "CHR '':'' \<notin> set a" "length a \<le> 15" and p: "p < 65536" and fresh: "length (cli_ip fresh) = 16"
  shows "\<exists>cli fd q tr'. OpenFtpsClient env junk fresh (a @ '':'' @ nat_dec p) [] = Some (Some cli, tr') \<and>
    logged_in cli a c x \<and> SSL_connect c \<in> fst ` set tr' \<and> (Connect fd a (int p), q) \<in> set tr'"
proof -
  let ?t1 = "[(Malloc 57, env [] (Malloc 57))]"
  have m: "0 \<le> rval (env [] (Malloc 57))" using srv(1) by (simp add: ftp_server_def)
  have lp: "length (nat_dec p) \<le> 5" using p by (intro length_nat_dec_5) simp
  have n: "host_number junk a p t = p" for t by (rule clean_number[OF srv(3)])
  have g: "NUL \<in> set (leftover junk (length (a @ '':'' @ nat_dec p)) t)" for t using lp a(3) by (intro clean_ends srv(3)) simp
  define cli1 where "cli1 = (\<lambda>fd. fresh\<lparr> cli_ip := snprintf (cli_ip fresh) a, connfd := fd \<rparr>)"
  obtain fd q t2 where o: "OpenConnectByHost env junk fresh (a @ '':'' @ nat_dec p) ?t1 = Some (0, cli1 fd, t2)"
      "(Connect fd a (int p), q) \<in> set t2" "frame c ?t1 t2"
    using OpenConnect_ok[OF srv(2) a(1,2) _ g, of ?t1 fresh c] n p lp a(3) by (auto simp: cli1_def)
  define cli2 where "cli2 = cli1 fd\<lparr> ctx := x, ssl := c \<rparr>"
  let ?t3 = "snd (sys_val env SSL_CTX_new t2)"
  let ?t4 = "snd (sys_val env (SSL_CTX_set_verify x) ?t3)"
  let ?t5 = "snd (sys_val env (SSL_new x) ?t4)"
  have f4: "frame c ?t1 ?t4" by (intro frame_sys_val o(3)) (simp_all add: harmless_def)
  have nc: "SSL_connect c \<notin> fst ` set ?t4" using frame_connects[OF f4] by simp
  have i: "InitSSL env (cli1 fd) t2 = (0, cli2, ?t5)"
    using srv(1) nc by (simp add: InitSSL_def case_prod_unfold Let_def ftp_server_def cli2_def) (simp add: sys_val_def sys_def Let_def)
  let ?b = "fst (sys_val env (BIO_new_socket fd) ?t5)"
  let ?t6 = "snd (sys_val env (BIO_new_socket fd) ?t5)"
  let ?t7 = "snd (sys_val env (SSL_set_bio c ?b) ?t6)"
  let ?t8 = "snd (sys_val env (SSL_set_fd c fd) ?t7)"
  let ?t9 = "snd (sys_val env (SSL_connect c) ?t8)"
  let ?t10 = "snd (sys_val env (SSL_get_peer_certificate c) ?t9)"
  have c0: "0 \<le> c" "fst (sys_val env (SSL_connect c) t) = 1" for t
    using srv(1) by (auto simp: ftp_server_def sys_val_def sys_def Let_def)
  obtain ct where ng: "NegoSSL env cli2 ?t5 = Some (0, cli2\<lparr> sbio := ?b, cert := ct \<rparr>, ?t10)"
    using c0 by (simp add: NegoSSL_def case_prod_unfold Let_def cli2_def cli1_def)
  let ?cli = "cli2\<lparr> sbio := ?b, cert := ct \<rparr>"
  obtain t11 where pr: "PrintResp env ?cli ?t10 = Some (0, t11)" "frame c ?t10 t11"
    using PrintResp_ok[of env ?cli x h p1 p2 ?t10] srv(1) by (auto simp: cli2_def)
  have "OpenFtpsClient env junk fresh (a @ '':'' @ nat_dec p) [] = Some (Some ?cli, t11)"
    using m o(1) i ng pr(1) by (simp add: OpenFtpsClient_def FtpsConn_def sys_val_def sys_def Let_def)
  moreover have "logged_in ?cli a c x"
    using a fresh str_of_append[OF a(1)] by (simp add: logged_in_def cli2_def cli1_def snprintf_def Let_def)
  moreover have "SSL_connect c \<in> fst ` set t11"
  proof -
    have "SSL_connect c \<in> fst ` set ?t10" by (auto simp: sys_val_def sys_def Let_def)
    then show ?thesis using frame_keeps(5)[OF pr(2)] by blast
  qed
  moreover have "(Connect fd a (int p), q) \<in> set t11"
  proof -
    have "set t2 \<subseteq> set ?t10" by (auto simp: sys_val_def sys_def Let_def)
    then show ?thesis using o(2) frame_keeps(5)[OF pr(2)] by blast
  qed
  ultimately show ?thesis by blast
qed

definition command_line :: "string \<Rightarrow> string \<Rightarrow> string \<Rightarrow> string \<Rightarrow> nat \<Rightarrow> string \<Rightarrow> string \<Rightarrow> string list" where
  "command_line op first second a p user pass = [''ftps_client'', op, first, second, a, nat_dec p, user, pass]"

lemma main_ok:
  assumes srv: "ftp_server env c x h p1 p2" "reachable env" "clean junk"
    and a: "NUL \<notin> set a" "CHR '':'' \<notin> set a" "length a \<le> 15" and p: "p < 65536" and fresh: "length (cli_ip fresh) = 16"
  shows "\<exists>cli fd q tr. logged_in cli a c x \<and> SSL_connect c \<in> fst ` set tr \<and> (Connect fd a (int p), q) \<in> set tr \<and>
    (\<forall>tr'. (op = ''get'' \<and> FtpsGet env junk cli (Some first) second tr = Some (0, tr') \<or>
            op = ''put'' \<and> FtpsPut env junk cli first (Some second) tr = Some (0, tr')) \<longrightarrow>
       ftps_main env junk fresh (command_line op first second a p user pass) [] = Some (0, snd (CloseFtpsClient env cli tr')))"
proof -
  obtain cli fd q t1 where o: "OpenFtpsClient env junk fresh (a @ '':'' @ nat_dec p) [] = Some (Some cli, t1)"
      "logged_in cli a c x" "SSL_connect c \<in> fst ` set t1" "(Connect fd a (int p), q) \<in> set t1"
    using open_ok[OF assms] by blast
  have "ssl cli = c" using o(2) by (simp add: logged_in_def)
  then obtain t2 where l: "FtpsLogin env cli user pass t1 = Some (0, t2)" "frame (ssl cli) t1 t2"
    using login_ok[of env cli x h p1 p2] srv(1) by blast
  have host: "\<exists>n b. sprintf_at (replicate 24 NUL) 0 (a @ '':'' @ nat_dec p) = Some (n, b) \<and> cstr b = a @ '':'' @ nat_dec p"
  proof -
    have "length (nat_dec p) \<le> 5" using p by (intro length_nat_dec_5) simp
    moreover have "NUL \<notin> set (a @ '':'' @ nat_dec p)" using a(1) nat_dec_char[of NUL p] isdigit_plain[of NUL] by (auto simp: NUL_def)
    ultimately show ?thesis using a(3) cstr_append[of "a @ '':'' @ nat_dec p"] by (simp add: sprintf_at_def)
  qed
  have "ftps_main env junk fresh (command_line op first second a p user pass) [] = Some (0, snd (CloseFtpsClient env cli tr'))"
    if "op = ''get'' \<and> FtpsGet env junk cli (Some first) second t2 = Some (0, tr') \<or>
        op = ''put'' \<and> FtpsPut env junk cli first (Some second) t2 = Some (0, tr')" for tr'
    using host o(1) l(1) that by (auto simp: ftps_main_def command_line_def case_prod_unfold Let_def)
  then show ?thesis using o(2-4) frame_keeps(5)[OF l(2)] by blast
qed

lemma CloseFtpsClient_keeps:
  "written fp (snd (CloseFtpsClient env cli tr)) = written fp tr" "uploaded s (snd (CloseFtpsClient env cli tr)) = uploaded s tr"
  "set tr \<subseteq> set (snd (CloseFtpsClient env cli tr))"
  by (auto simp: CloseFtpsClient_def sys_val_def sys_def Let_def)

text \<open>
  C7. With a server that answers the commands and a clean stack, \<^verbatim>\<open>ftps_client get\<close> connects
  to the host and to the port of the server's passive answer, ends with 0, and the local file
  holds exactly the bytes of the data connection, in whatever pieces they arrive.
\<close>

theorem ftps_client_downloads:
  assumes "ftp_server env c x h p1 p2" "reachable env" "clean junk" "data_stream env c D"
    and "NUL \<notin> set a" "CHR '':'' \<notin> set a" "length a \<le> 15" "p < 65536" "length (cli_ip fresh) = 16"
  shows "\<exists>tr r fd q fd' q'. ftps_main env junk fresh (command_line ''get'' localpath remotepath a p user pass) [] = Some (0, tr) \<and>
    (Fopen localpath ''wb+'', r) \<in> set tr \<and> written (rval r) tr = D \<and>
    (Connect fd a (int p), q) \<in> set tr \<and> (Connect fd' a (int (p1 * 256 + p2)), q') \<in> set tr"
proof -
  obtain cli fd q tr where m: "logged_in cli a c x" "SSL_connect c \<in> fst ` set tr" "(Connect fd a (int p), q) \<in> set tr"
    "\<And>tr'. FtpsGet env junk cli (Some localpath) remotepath tr = Some (0, tr') \<Longrightarrow>
       ftps_main env junk fresh (command_line ''get'' localpath remotepath a p user pass) [] = Some (0, snd (CloseFtpsClient env cli tr'))"
    using main_ok[OF assms(1-3,5-9), of "''get''" localpath remotepath user pass] by blast
  obtain tr' r fd' q' where "FtpsGet env junk cli (Some localpath) remotepath tr = Some (0, tr')" "(Fopen localpath ''wb+'', r) \<in> set tr'"
      "written (rval r) tr' = D" "(Connect fd' a (int (p1 * 256 + p2)), q') \<in> set tr'" "set tr \<subseteq> set tr'"
    using get_done[OF assms(1,2) m(1) assms(3) m(2) assms(4)] by blast
  then show ?thesis using m(3,4) CloseFtpsClient_keeps(1)[of "rval r" env cli tr'] CloseFtpsClient_keeps(3)[of tr' env cli] by blast
qed

text \<open>
  C26. With such a server \<^verbatim>\<open>ftps_client put\<close> ends with 0 and a data connection, other than
  the one of the commands, has been given exactly the bytes of the local file.
\<close>

theorem ftps_client_uploads:
  assumes "ftp_server env c x h p1 p2" "reachable env" "clean junk" "data_sink env c F"
    and "NUL \<notin> set a" "CHR '':'' \<notin> set a" "length a \<le> 15" "p < 65536" "length (cli_ip fresh) = 16"
  shows "\<exists>tr s fd q. ftps_main env junk fresh (command_line ''put'' remotepath localpath a p user pass) [] = Some (0, tr) \<and>
    s \<noteq> c \<and> uploaded s tr = F \<and> (Connect fd a (int (p1 * 256 + p2)), q) \<in> set tr"
proof -
  obtain cli tr where m: "logged_in cli a c x" "SSL_connect c \<in> fst ` set tr"
    "\<And>tr'. FtpsPut env junk cli remotepath (Some localpath) tr = Some (0, tr') \<Longrightarrow>
       ftps_main env junk fresh (command_line ''put'' remotepath localpath a p user pass) [] = Some (0, snd (CloseFtpsClient env cli tr'))"
    using main_ok[OF assms(1-3,5-9), of "''put''" remotepath localpath user pass] by blast
  obtain tr' s fd q where "FtpsPut env junk cli remotepath (Some localpath) tr = Some (0, tr')" "s \<noteq> c"
      "uploaded s tr' = F" "(Connect fd a (int (p1 * 256 + p2)), q) \<in> set tr'"
    using put_done[OF assms(1,2) m(1) assms(3) m(2) assms(4)] by blast
  then show ?thesis using m(3) CloseFtpsClient_keeps(2)[of s env cli tr'] CloseFtpsClient_keeps(3)[of tr' env cli] by blast
qed

section \<open>Runs\<close>

definition example_env :: "string \<Rightarrow> env" where
  "example_env D tr k = (case k of
      SSL_read s n \<Rightarrow> (reply_of 0)\<lparr> rdata := (if s = 1 then (if n = 512 then pasv_answer [10, 0, 0, 1] 7 138 else ''200 OK'')
                                          else take 4 (drop (ssl_count s tr) D)) \<rparr>
    | SSL_new _ \<Rightarrow> reply_of (if SSL_connect 1 \<in> fst ` set tr then 2 else 1)
    | SSL_connect _ \<Rightarrow> reply_of 1
    | Inet_aton _ \<Rightarrow> reply_of 1
    | Connect _ _ _ \<Rightarrow> reply_of 0
    | Setsockopt _ _ \<Rightarrow> reply_of 0
    | Fwrite _ d \<Rightarrow> reply_of (int (length d))
    | Fread fp n \<Rightarrow> (reply_of 0)\<lparr> rdata := drop (read_count fp tr) D \<rparr>
    | _ \<Rightarrow> reply_of 5)"

definition no_junk :: "trace \<Rightarrow> cbuf" where
  "no_junk tr = []"

lemma example_laws:
  "ftp_server (example_env D) 1 5 [10, 0, 0, 1] 7 138" "reachable (example_env D)" "clean no_junk"
  "data_stream (example_env D) 1 D" "data_sink (example_env D) 1 D"
  by (auto simp: ftp_server_def reachable_def clean_def data_stream_def data_sink_def example_env_def
      no_junk_def reply_of_def numeral_eq_Suc)

lemma example_host: "NUL \<notin> set ''10.0.0.1''" "CHR '':'' \<notin> set ''10.0.0.1''" "length ''10.0.0.1'' \<le> 15" "(30021 :: nat) < 65536"
  "length (cli_ip client0) = 16"
  by (simp_all add: NUL_def client0_def)

theorem ftps_client_downloads_witness:
  "\<exists>tr r fd q fd' q'. ftps_main (example_env ''picture'') no_junk client0
      (command_line ''get'' ''a.jpg'' ''b.jpg'' ''10.0.0.1'' 30021 ''me'' ''pw'') [] = Some (0, tr) \<and>
    (Fopen ''a.jpg'' ''wb+'', r) \<in> set tr \<and> written (rval r) tr = ''picture'' \<and>
    (Connect fd ''10.0.0.1'' (int 30021), q) \<in> set tr \<and> (Connect fd' ''10.0.0.1'' (int (7 * 256 + 138)), q') \<in> set tr"
  by (rule ftps_client_downloads[OF example_laws(1-4) example_host])

theorem ftps_client_uploads_witness:
  "\<exists>tr s fd q. ftps_main (example_env ''picture'') no_junk client0
      (command_line ''put'' ''b.jpg'' ''a.jpg'' ''10.0.0.1'' 30021 ''me'' ''pw'') [] = Some (0, tr) \<and>
    s \<noteq> 1 \<and> uploaded s tr = ''picture'' \<and> (Connect fd ''10.0.0.1'' (int (7 * 256 + 138)), q) \<in> set tr"
  by (rule ftps_client_uploads[OF example_laws(1-3,5) example_host])

lemma example_run:
  "\<exists>tr. ftps_main (example_env ''picture'') no_junk client0
     [''ftps_client'', ''get'', ''a.jpg'', ''b.jpg'', ''10.0.0.1'', nat_dec 30021, ''me'', ''pw''] [] = Some (0, tr)"
proof -
  obtain cli fd q tr where m: "logged_in cli ''10.0.0.1'' 1 5" "SSL_connect 1 \<in> fst ` set tr"
    "\<And>tr'. FtpsGet (example_env ''picture'') no_junk cli (Some ''a.jpg'') ''b.jpg'' tr = Some (0, tr') \<Longrightarrow>
       ftps_main (example_env ''picture'') no_junk client0 (command_line ''get'' ''a.jpg'' ''b.jpg'' ''10.0.0.1'' 30021 ''me'' ''pw'') [] =
         Some (0, snd (CloseFtpsClient (example_env ''picture'') cli tr'))"
    using main_ok[OF example_laws(1-3) example_host, of "''get''" "''picture''" "''a.jpg''" "''b.jpg''" "''me''" "''pw''"] by blast
  from get_done[OF example_laws(1,2) m(1) example_laws(3) m(2) example_laws(4)] m(3) show ?thesis
    unfolding command_line_def by blast
qed

theorem ftps_get_commands_witness:
  "\<exists>tr. ftps_main (example_env ''picture'') no_junk client0
     [''ftps_client'', ''get'', ''a.jpg'', ''b.jpg'', ''10.0.0.1'', nat_dec 30021, ''me'', ''pw''] [] = Some (0, tr) \<and>
   writes tr = login_commands ''me'' ''pw'' @
    [''PASV'' @ CRLF, ''TYPE I'' @ CRLF, take 255 (''RETR '' @ ''b.jpg'' @ CRLF), ''QUIT'' @ CRLF]"
proof -
  have "NUL \<notin> set ''me''" "NUL \<notin> set ''pw''" by (simp_all add: NUL_def)
  then show ?thesis using example_run ftps_get_commands by blast
qed

theorem ftps_main_closes_witness:
  "\<exists>tr. ftps_main (example_env ''picture'') no_junk client0
     [''ftps_client'', ''get'', ''a.jpg'', ''b.jpg'', ''10.0.0.1'', nat_dec 30021, ''me'', ''pw''] [] = Some (0, tr) \<and> open_fds tr = {}"
  using example_run ftps_main_closes by blast

text \<open>An array that holds the digit 9 where the copy of the host ends: port 219 instead of 21.\<close>

definition digit_junk :: "trace \<Rightarrow> cbuf" where
  "digit_junk tr = replicate 12 (CHR ''9'')"

theorem uninitialised_port_witness:
  "\<exists>cli' tr r. OpenConnectByHost (example_env []) digit_junk client0 (''10.0.0.1'' @ '':'' @ nat_dec 21) [] = Some (0, cli', tr) \<and>
    (Connect (connfd cli') ''10.0.0.1'' 219, r) \<in> set tr"
proof -
  have n: "host_number digit_junk ''10.0.0.1'' 21 [] = 219" by code_simp
  have l: "length (nat_dec 21) = 2" by code_simp
  have "\<exists>cli' tr r. OpenConnectByHost (example_env []) digit_junk client0 (''10.0.0.1'' @ '':'' @ nat_dec 21) [] = Some (0, cli', tr) \<and>
    (Connect (connfd cli') ''10.0.0.1'' (int (host_number digit_junk ''10.0.0.1'' 21 []) mod 65536), r) \<in> set tr"
    by (rule uninitialised_port[OF example_laws(2) example_host(1,2)]) (simp_all add: l n leftover_def digit_junk_def)
  then show ?thesis by (simp add: n)
qed

end
