(* ===== verification/FtpClient.thy ===== *)
theory FtpClient
  imports FtpsTransfer
begin

text \<open>
  The FTP client for Windows, \<^verbatim>\<open>ftp_client.c\<close>. Winsock is the environment: an invalid socket
  and \<^verbatim>\<open>SOCKET_ERROR\<close> are -1, \<^verbatim>\<open>closesocket\<close> is \<^verbatim>\<open>Close\<close>. The arrays for the answers are not
  initialised; \<^verbatim>\<open>junk\<close> gives their bytes.
\<close>

section \<open>The client\<close>

definition connect_to_ftp_server :: "env \<Rightarrow> string \<Rightarrow> trace \<Rightarrow> int \<times> trace" where
  "connect_to_ftp_server env server_ip tr =
     (let (r, tr) = sys_val env WSAStartup tr in
      if r \<noteq> 0 then (-1, tr)
      else let (fd, tr) = sys_val env Socket tr in
      if fd = -1 then (let (_, tr) = sys_val env WSACleanup tr in (-1, tr))
      else let (r, tr) = sys_val env (Inet_pton server_ip) tr in
      if r \<le> 0 then (let (_, tr) = sys_val env (Close fd) tr; (_, tr) = sys_val env WSACleanup tr in (-1, tr))
      else let (r, tr) = sys_val env (Connect fd server_ip 21) tr in
      if r = -1 then (let (_, tr) = sys_val env (Close fd) tr; (_, tr) = sys_val env WSACleanup tr in (-1, tr))
      else (fd, tr))"

definition send_ftp_command :: "env \<Rightarrow> int \<Rightarrow> string \<Rightarrow> trace \<Rightarrow> int \<times> trace" where
  "send_ftp_command env controlSocket command tr =
     (let (result, tr) = sys_val env (Send controlSocket (take 255 (command @ CRLF))) tr in
      (if result = -1 then -1 else 0, tr))"

text \<open>The terminator is stored behind the bytes received.\<close>

definition receive_ftp_response :: "env \<Rightarrow> int \<Rightarrow> cbuf \<Rightarrow> nat \<Rightarrow> trace \<Rightarrow> (int \<times> cbuf \<times> trace) option" where
  "receive_ftp_response env controlSocket response response_size tr =
     (let (n, d, tr) = sys_recv env controlSocket response_size tr in
      do { response \<leftarrow> store_at response 0 d;
           if n > 0 then do { response \<leftarrow> store_at response (nat n) [NUL]; Some (n, response, tr) }
           else Some (n, response, tr) })"

definition response_array :: "(trace \<Rightarrow> cbuf) \<Rightarrow> trace \<Rightarrow> cbuf" where
  "response_array junk tr = take 1024 (junk tr @ replicate 1024 NUL)"

text \<open>The two parameters for the user and the password are not used.\<close>

definition ftp_login :: "env \<Rightarrow> (trace \<Rightarrow> cbuf) \<Rightarrow> int \<Rightarrow> string \<Rightarrow> string \<Rightarrow> trace \<Rightarrow> (int \<times> trace) option" where
  "ftp_login env junk controlSocket username password tr =
     do { let response = response_array junk tr;
          let (_, tr) = send_ftp_command env controlSocket ''USER anonymous'' tr;
          (_, response, tr) \<leftarrow> receive_ftp_response env controlSocket response 1024 tr;
          let (_, tr) = send_ftp_command env controlSocket ''PASS anonymous'' tr;
          (_, response, tr) \<leftarrow> receive_ftp_response env controlSocket response 1024 tr;
          ok \<leftarrow> strncmp_eq response ''230'';
          Some (if ok then 0 else -1, tr) }"

definition six_numbers :: "directive list" where
  "six_numbers = [ScanInt, ScanChar (CHR '',''), ScanInt, ScanChar (CHR '',''), ScanInt, ScanChar (CHR '',''),
     ScanInt, ScanChar (CHR '',''), ScanInt, ScanChar (CHR '',''), ScanInt]"

text \<open>The address and the port of a passive answer; fewer than six numbers leave the rest indeterminate.\<close>

definition passive_address :: "string \<Rightarrow> (string \<times> int) option" where
  "passive_address s =
     do { (v, _) \<leftarrow> sscanf six_numbers s;
          if length v = 6 \<and> - (2 ^ 31) \<le> v ! 4 * 256 \<and> v ! 4 * 256 < 2 ^ 31 \<and>
             - (2 ^ 31) \<le> v ! 4 * 256 + v ! 5 \<and> v ! 4 * 256 + v ! 5 < 2 ^ 31
          then Some (take 15 (int_dec (v ! 0) @ ''.'' @ int_dec (v ! 1) @ ''.'' @ int_dec (v ! 2) @ ''.'' @ int_dec (v ! 3)),
                     v ! 4 * 256 + v ! 5)
          else None }"

definition establish_data_connection :: "env \<Rightarrow> (trace \<Rightarrow> cbuf) \<Rightarrow> int \<Rightarrow> trace \<Rightarrow> (int \<times> trace) option" where
  "establish_data_connection env junk controlSocket tr =
     do { let response = response_array junk tr;
          let (_, tr) = send_ftp_command env controlSocket ''PASV'' tr;
          (_, response, tr) \<leftarrow> receive_ftp_response env controlSocket response 1024 tr;
          p \<leftarrow> strchr response (CHR ''('');
          p \<leftarrow> p;
          s \<leftarrow> str_of (drop 1 p);
          (data_ip, data_port) \<leftarrow> passive_address s;
          let (fd, tr) = sys_val env Socket tr;
          let (_, tr) = sys_val env (Inet_pton data_ip) tr;
          let (r, tr) = sys_val env (Connect fd data_ip (data_port mod 65536)) tr;
          if r = -1 then (let (_, tr) = sys_val env (Close fd) tr in Some (-1, tr)) else Some (fd, tr) }"

partial_function (option) receive_file :: "env \<Rightarrow> int \<Rightarrow> int \<Rightarrow> trace \<Rightarrow> trace option" where
  "receive_file env dataSocket fp tr =
     (let (n, d, tr) = sys_recv env dataSocket 1024 tr in
      if n > 0 then (let (_, tr) = sys_val env (Fwrite fp d) tr in receive_file env dataSocket fp tr)
      else Some tr)"

definition ftp_download_file :: "env \<Rightarrow> (trace \<Rightarrow> cbuf) \<Rightarrow> int \<Rightarrow> string \<Rightarrow> trace \<Rightarrow> (int \<times> trace) option" where
  "ftp_download_file env junk controlSocket filename tr =
     do { (dataSocket, tr) \<leftarrow> establish_data_connection env junk controlSocket tr;
          if dataSocket = -1 then Some (-1, tr)
          else do {
            let (_, tr) = send_ftp_command env controlSocket (take 255 (''RETR '' @ filename)) tr;
            (_, _, tr) \<leftarrow> receive_ftp_response env controlSocket (response_array junk tr) 1024 tr;
            let (fp, tr) = sys_val env (Fopen filename ''wb'') tr;
            if fp < 0 then (let (_, tr) = sys_val env (Close dataSocket) tr in Some (-1, tr))
            else do {
              tr \<leftarrow> receive_file env dataSocket fp tr;
              let (_, tr) = sys_val env (Fclose fp) tr;
              let (_, tr) = sys_val env (Close dataSocket) tr;
              Some (0, tr) } } }"

definition ftp_client_main :: "env \<Rightarrow> (trace \<Rightarrow> cbuf) \<Rightarrow> trace \<Rightarrow> (int \<times> trace) option" where
  "ftp_client_main env junk tr =
     (let (controlSocket, tr) = connect_to_ftp_server env ''192.168.1.10'' tr in
      if controlSocket = -1 then Some (1, tr)
      else do {
        (failed, tr) \<leftarrow> ftp_login env junk controlSocket ''anonymous'' ''anonymous'' tr;
        if failed = -1 then Some (1, tr)
        else do {
          (_, tr) \<leftarrow> ftp_download_file env junk controlSocket ''testfile.txt'' tr;
          let (_, tr) = send_ftp_command env controlSocket ''QUIT'' tr;
          let (_, tr) = sys_val env (Close controlSocket) tr;
          let (_, tr) = sys_val env WSACleanup tr;
          Some (0, tr) } })"

section \<open>Answers that fill the array\<close>

text \<open>
  C38. An answer of 1024 bytes or more makes \<^verbatim>\<open>receive_ftp_response\<close> store the terminator
  one byte past the end of the array its callers pass; a shorter one is received with its
  terminator in place.
\<close>

theorem response_overrun:
  assumes "length response = 1024" "0 \<le> rval (env tr (Recv fd 1024))"
  shows "receive_ftp_response env fd response 1024 tr =
    (let d = rdata (env tr (Recv fd 1024)); tr' = (Recv fd 1024, env tr (Recv fd 1024)) # tr in
     if 1024 \<le> length d then None
     else Some (int (length d), if d = [] then response else d @ NUL # drop (length d + 1) response, tr'))"
proof -
  let ?d = "rdata (env tr (Recv fd 1024))"
  have r: "sys_recv env fd 1024 tr = (int (length (take 1024 ?d)), take 1024 ?d, (Recv fd 1024, env tr (Recv fd 1024)) # tr)"
    using assms(2) by (simp add: sys_recv_def sys_def Let_def)
  show ?thesis
  proof (cases "1024 \<le> length ?d")
    case True
    then have "length (take 1024 ?d) = 1024" by simp
    then show ?thesis using True assms(1) by (simp add: receive_ftp_response_def r store_at_def Let_def del: length_take)
  next
    case False
    then show ?thesis using assms(1) by (simp add: receive_ftp_response_def r store_at_def Let_def)
  qed
qed

definition long_answer :: env where
  "long_answer tr c = (reply_of 0)\<lparr> rdata := replicate 2000 (CHR ''x'') \<rparr>"

theorem response_overrun_witness: "receive_ftp_response long_answer 3 (replicate 1024 NUL) 1024 [] = None"
  using response_overrun[of "replicate 1024 NUL" long_answer "[]" 3] by (simp add: long_answer_def reply_of_def)

section \<open>Sockets\<close>

lemma fds_recv: "is_open (snd (snd (sys_recv env fd n tr))) = is_open tr"
  by (simp add: sys_recv_def fds_sys fds_sys_val case_prod_unfold Let_def)

lemma fds_command: "is_open (snd (send_ftp_command env fd c tr)) = is_open tr"
  by (simp add: send_ftp_command_def fds_simps)

lemma fds_response: "receive_ftp_response env fd b n tr = Some p \<Longrightarrow> is_open (snd (snd p)) = is_open tr"
  by (auto simp: receive_ftp_response_def case_prod_unfold Let_def fds_recv elim!: bind_SomeE split: if_splits)

lemma fds_server: "adds (fst (connect_to_ftp_server env ip tr)) tr (snd (connect_to_ftp_server env ip tr))"
  by (auto simp: connect_to_ftp_server_def adds_def fds_simps)

lemma fds_ftp_login: "ftp_login env junk fd u w tr = Some p \<Longrightarrow> is_open (snd p) = is_open tr"
  by (auto simp: ftp_login_def case_prod_unfold Let_def fds_command elim!: bind_SomeE dest!: fds_response)

lemma fds_establish:
  "establish_data_connection env junk c tr = Some (fd, tr') \<Longrightarrow> \<forall>x. is_open tr' x \<longrightarrow> x = fd \<and> fd \<noteq> -1 \<or> is_open tr x"
  by (auto simp: establish_data_connection_def fds_simps fds_command elim!: bind_SomeE split: if_splits dest!: fds_response)

lemma fds_receive:
  assumes "receive_file env fd fp tr = Some y"
  shows "is_open y = is_open tr"
proof (rule receive_file.raw_induct[OF _ assms])
  fix f :: "env \<Rightarrow> int \<Rightarrow> int \<Rightarrow> trace \<Rightarrow> trace option" and env fd fp tr y
  assume IH: "\<And>env fd fp tr y. f env fd fp tr = Some y \<Longrightarrow> is_open y = is_open tr"
    and step: "(let (n, d, tr) = sys_recv env fd 1024 tr in
      if n > 0 then (let (_, tr) = sys_val env (Fwrite fp d) tr in f env fd fp tr) else Some tr) = Some y"
  show "is_open y = is_open tr" using step by (auto simp: fds_simps fds_recv split: if_splits dest!: IH)
qed

lemma fds_file: "ftp_download_file env junk c name tr = Some (v, tr') \<Longrightarrow> \<forall>x. is_open tr' x \<longrightarrow> is_open tr x"
  by (auto simp: ftp_download_file_def fds_simps fds_command elim!: bind_SomeE split: if_splits
      dest!: fds_response fds_receive fds_establish) blast+

text \<open>
  Whatever the server answers, a run of the client that ends with 0 has closed every
  socket it opened, also when the download failed.
\<close>

theorem ftp_client_closes:
  assumes "ftp_client_main env junk [] = Some (0, tr)"
  shows "open_fds tr = {}"
proof -
  obtain c t1 where s1: "connect_to_ftp_server env ''192.168.1.10'' [] = (c, t1)" by force
  have o1: "\<forall>x. is_open t1 x \<longrightarrow> x = c" using fds_server[of env "''192.168.1.10''" "[]"] by (simp add: s1 adds_def is_open_def[of "[]"])
  obtain v t2 w t3 where s2: "ftp_login env junk c ''anonymous'' ''anonymous'' t1 = Some (v, t2)"
      "ftp_download_file env junk c ''testfile.txt'' t2 = Some (w, t3)"
      "tr = snd (sys_val env WSACleanup (snd (sys_val env (Close c) (snd (send_ftp_command env c ''QUIT'' t3)))))"
    using assms by (auto simp: ftp_client_main_def s1 case_prod_unfold Let_def elim!: bind_SomeE split: if_splits)
  have "is_open t2 = is_open t1" using fds_ftp_login[OF s2(1)] by simp
  then have "\<not> is_open tr x" for x using fds_file[OF s2(2)] o1 by (auto simp: s2(3) fds_simps fds_command)
  then show ?thesis by (auto simp: is_open_def)
qed

text \<open>A server that answers every command and refuses the data connection.\<close>

definition refusing_server :: env where
  "refusing_server tr c = (case c of
      Recv fd n \<Rightarrow> (reply_of 0)\<lparr> rdata := ''230 (1,2,3,4,0,9)'' \<rparr>
    | Socket \<Rightarrow> reply_of (int (length tr) + 3)
    | Connect _ _ p \<Rightarrow> reply_of (if p = 21 then 0 else -1)
    | Inet_pton _ \<Rightarrow> reply_of 1
    | _ \<Rightarrow> reply_of 0)"

lemma refusing_response:
  "length b = 1024 \<Longrightarrow> \<exists>t'. receive_ftp_response refusing_server fd b 1024 t =
     Some (17, ''230 (1,2,3,4,0,9)'' @ NUL # drop 18 b, t')"
  by (simp add: receive_ftp_response_def sys_recv_def sys_def Let_def refusing_server_def reply_of_def store_at_def)
    (simp add: numeral_eq_Suc)

lemma refusing_run: "\<exists>tr. ftp_client_main refusing_server (\<lambda>tr. []) [] = Some (0, tr)"
proof -
  let ?a = "replicate 1024 NUL"
  have arr: "response_array (\<lambda>tr. []) t = ?a" for t by (simp add: response_array_def)
  obtain t1 where s1: "connect_to_ftp_server refusing_server ''192.168.1.10'' [] = (4, t1)"
    by (simp add: connect_to_ftp_server_def sys_val_def sys_def Let_def refusing_server_def reply_of_def)
  have login: "\<exists>t'. ftp_login refusing_server (\<lambda>tr. []) 4 u w t = Some (0, t')" for u w t
  proof -
    obtain t2 where r1: "receive_ftp_response refusing_server 4 ?a 1024 (snd (send_ftp_command refusing_server 4 ''USER anonymous'' t)) =
        Some (17, ''230 (1,2,3,4,0,9)'' @ NUL # drop 18 ?a, t2)" using refusing_response[of ?a] by (metis length_replicate)
    let ?b = "''230 (1,2,3,4,0,9)'' @ NUL # drop 18 ?a"
    obtain t3 where r2: "receive_ftp_response refusing_server 4 ?b 1024 (snd (send_ftp_command refusing_server 4 ''PASS anonymous'' t2)) =
        Some (17, ''230 (1,2,3,4,0,9)'' @ NUL # drop 18 ?b, t3)" using refusing_response[of ?b] by force
    have "strncmp_eq (''230 (1,2,3,4,0,9)'' @ r) ''230'' = Some True" for r
      by (simp add: strncmp_eq_def cstr_def NUL_def)
    then show ?thesis using r1 r2 by (simp add: ftp_login_def case_prod_unfold Let_def arr)
  qed
  have est: "\<exists>t'. establish_data_connection refusing_server (\<lambda>tr. []) 4 t = Some (-1, t')" for t
  proof -
    obtain t2 where r1: "receive_ftp_response refusing_server 4 ?a 1024 (snd (send_ftp_command refusing_server 4 ''PASV'' t)) =
        Some (17, ''230 (1,2,3,4,0,9)'' @ NUL # drop 18 ?a, t2)" using refusing_response[of ?a] by (metis length_replicate)
    have c: "strchr (''230 (1,2,3,4,0,9)'' @ NUL # r) (CHR ''('') = Some (Some (''(1,2,3,4,0,9)'' @ NUL # r))" for r
      using strchr_at[of "''230 ''" "CHR ''(''" "''1,2,3,4,0,9)'' @ NUL # r"] by (simp add: NUL_def)
    have d: "str_of (''1,2,3,4,0,9)'' @ NUL # r) = Some ''1,2,3,4,0,9)''" for r by (rule str_of_append) (simp add: NUL_def)
    have p: "passive_address ''1,2,3,4,0,9)'' = Some (''1.2.3.4'', 9)" by code_simp
    show ?thesis using c[of "drop 18 ?a"] d[of "drop 18 ?a"]
      by (simp add: establish_data_connection_def case_prod_unfold Let_def arr r1 p sys_val_def sys_def refusing_server_def reply_of_def)
  qed
  obtain t2 where s2: "ftp_login refusing_server (\<lambda>tr. []) 4 ''anonymous'' ''anonymous'' t1 = Some (0, t2)" using login by blast
  obtain t3 where s3: "ftp_download_file refusing_server (\<lambda>tr. []) 4 ''testfile.txt'' t2 = Some (-1, t3)"
    using est[of t2] by (auto simp: ftp_download_file_def)
  show ?thesis by (simp add: ftp_client_main_def s1 s2 s3 case_prod_unfold Let_def)
qed

theorem ftp_client_closes_witness:
  "\<exists>tr. ftp_client_main refusing_server (\<lambda>tr. []) [] = Some (0, tr) \<and> open_fds tr = {}"
  using refusing_run ftp_client_closes by blast

end
