(* ===== verification/SelectServer.thy ===== *)
theory SelectServer
  imports Posix
begin

text \<open>
  The server loop shared by \<^verbatim>\<open>tcp_server.c\<close>, \<^verbatim>\<open>tcp_select.c\<close> and \<^verbatim>\<open>http_server/http_anlyse.c\<close>: a
  listening socket and a table of ten clients polled by \<^verbatim>\<open>select\<close>. The three programs differ
  in how they open the listening socket and in what they do with the bytes of a client; both
  are arguments of the loop. Its state is the record of the variables of \<^verbatim>\<open>main\<close>.
\<close>

section \<open>The loop\<close>

record table =
  client :: "int list"
  client_port :: "int list"
  client_ip :: "cbuf list"
  maxfd :: int
  maxi :: int
  allset :: "int set"
  sockfd :: int
  buf :: cbuf

definition table0 :: table where
  "table0 = \<lparr> client = replicate 10 0, client_port = replicate 10 0, client_ip = replicate 10 (replicate 16 NUL),
     maxfd = -1, maxi = -1, allset = {}, sockfd = -1, buf = replicate 1024 NUL \<rparr>"

text \<open>How a block of the loop is left: at its end, by \<^verbatim>\<open>continue\<close>, by \<^verbatim>\<open>break\<close>, by \<^verbatim>\<open>return\<close>.\<close>

datatype flow = Fall | Cont | Brk | Ret int

text \<open>
  What a program does with the received bytes: the result of \<^verbatim>\<open>recv\<close>, the descriptor, the
  buffer and the program's own variables.
\<close>

type_synonym 'h handler = "int \<Rightarrow> int \<Rightarrow> cbuf \<Rightarrow> 'h \<Rightarrow> trace \<Rightarrow> (flow \<times> cbuf \<times> 'h \<times> trace) option"
type_synonym listener = "trace \<Rightarrow> int \<times> trace"

text \<open>The first entry of the table that is free.\<close>

fun free_slot :: "nat \<Rightarrow> int list \<Rightarrow> nat option" where
  "free_slot i [] = None"
| "free_slot i (c # cs) = (if c \<le> 0 then Some i else free_slot (Suc i) cs)"

text \<open>The block for a connection on the listening socket.\<close>

definition accept_client :: "env \<Rightarrow> table \<Rightarrow> int \<Rightarrow> trace \<Rightarrow> (flow \<times> int \<times> table \<times> trace) option" where
  "accept_client env S nready tr =
     (let (r, tr) = sys env (Accept (sockfd S)) tr; acceptfd = rval r in
      if acceptfd < 0 then Some (Brk, nready, S, tr)
      else (let temp_port = uint (ntohs (rport r));
                ip = inet_ntop (raddr r);
                temp_ip = ip @ replicate (16 - length ip) NUL in
        (case free_slot 0 (client S) of
           None \<Rightarrow> Some (Brk, nready, S, tr)
         | Some i \<Rightarrow> do {
             set' \<leftarrow> FD_SET acceptfd (allset S);
             let S' = S\<lparr> client := (client S)[i := acceptfd], client_port := (client_port S)[i := temp_port],
                         client_ip := (client_ip S)[i := temp_ip], allset := set',
                         maxfd := max (maxfd S) acceptfd, maxi := max (maxi S) (int i) \<rparr>;
             Some (if nready - 1 = 0 then Cont else Fall, nready - 1, S', tr) })))"

text \<open>The block for a client with bytes to read, the \<^verbatim>\<open>i\<close>-th of the table.\<close>

definition client_ready :: "env \<Rightarrow> 'h handler \<Rightarrow> nat \<Rightarrow> int \<Rightarrow> table \<Rightarrow> 'h \<Rightarrow> trace \<Rightarrow> (flow \<times> table \<times> 'h \<times> trace) option" where
  "client_ready env handle i tmpfd S h tr =
     do { buf1 \<leftarrow> memset0 (buf S) 1024;
          let (ret, d, tr) = sys_recv env tmpfd 1024 tr;
          buf2 \<leftarrow> store_at buf1 0 d;
          if ret < 0 then Some (Ret (-1), S\<lparr> buf := buf2 \<rparr>, h, tr)
          else if ret = 0 then
            (let (_, tr) = sys_val env (Close tmpfd) tr in do {
               set' \<leftarrow> FD_CLR tmpfd (allset S);
               Some (Fall, S\<lparr> buf := buf2, client := (client S)[i := -1], client_port := (client_port S)[i := 0],
                              client_ip := (client_ip S)[i := replicate 16 NUL], allset := set' \<rparr>, h, tr) })
          else do {
            (fl, b, h, tr) \<leftarrow> handle ret tmpfd buf2 h tr;
            Some (fl, S\<lparr> buf := b \<rparr>, h, tr) } }"

text \<open>
  The \<^verbatim>\<open>for\<close> loop over the entries whose indices are listed. \<^verbatim>\<open>Cont\<close> as its result goes on to the
  next \<^verbatim>\<open>select\<close>.
\<close>

fun clients_loop ::
    "env \<Rightarrow> 'h handler \<Rightarrow> int set \<Rightarrow> nat list \<Rightarrow> int \<Rightarrow> table \<Rightarrow> 'h \<Rightarrow> trace \<Rightarrow> (flow \<times> table \<times> 'h \<times> trace) option" where
  "clients_loop env handle rset [] nready S h tr = Some (Cont, S, h, tr)"
| "clients_loop env handle rset (i # is) nready S h tr =
     do { tmpfd \<leftarrow> aget (client S) i;
          if tmpfd < 0 then clients_loop env handle rset is nready S h tr
          else do {
            ready \<leftarrow> FD_ISSET tmpfd rset;
            if \<not> ready then clients_loop env handle rset is nready S h tr
            else do {
              (fl, S, h, tr) \<leftarrow> client_ready env handle i tmpfd S h tr;
              (case fl of
                 Fall \<Rightarrow> if nready - 1 = 0 then Some (Cont, S, h, tr)
                         else clients_loop env handle rset is (nready - 1) S h tr
               | Cont \<Rightarrow> clients_loop env handle rset is nready S h tr
               | Brk \<Rightarrow> Some (Cont, S, h, tr)
               | Ret v \<Rightarrow> Some (Ret v, S, h, tr)) } } }"

text \<open>One turn of the inner loop.\<close>

definition select_turn :: "env \<Rightarrow> 'h handler \<Rightarrow> table \<Rightarrow> 'h \<Rightarrow> trace \<Rightarrow> (flow \<times> table \<times> 'h \<times> trace) option" where
  "select_turn env handle S h tr =
     (let (nready, rset, tr) = sys_select env (maxfd S + 1) (allset S) tr in
      if nready < 0 then Some (Brk, S, h, tr)
      else do {
        conn \<leftarrow> FD_ISSET (sockfd S) rset;
        (fl, nready, S, tr) \<leftarrow> (if conn then accept_client env S nready tr else Some (Fall, nready, S, tr));
        (case fl of
           Fall \<Rightarrow> clients_loop env handle rset [0..<nat (maxi S + 1)] nready S h tr
         | _ \<Rightarrow> Some (fl, S, h, tr)) })"

text \<open>The program: opening the listening socket, turns of the inner loop, and the end.\<close>

datatype phase = Opening | Polling | Exited int

type_synonym 'h config = "phase \<times> table \<times> 'h \<times> trace"

fun server_step :: "env \<Rightarrow> listener \<Rightarrow> 'h handler \<Rightarrow> 'h config \<Rightarrow> 'h config option" where
  "server_step env open_socket handle (Opening, S, h, tr) =
     (let (fd, tr) = open_socket tr in
      if fd < 0 then Some (Exited 0, S\<lparr> sockfd := fd \<rparr>, h, tr)
      else do {
        set' \<leftarrow> FD_SET fd {};
        Some (Polling, S\<lparr> sockfd := fd, maxfd := fd, allset := set' \<rparr>, h, tr) })"
| "server_step env open_socket handle (Polling, S, h, tr) =
     do { (fl, S, h, tr) \<leftarrow> select_turn env handle S h tr;
          (case fl of
             Ret v \<Rightarrow> Some (Exited v, S, h, tr)
           | Brk \<Rightarrow> (let (_, tr) = sys_val env (Close (sockfd S)) tr in Some (Opening, S, h, tr))
           | _ \<Rightarrow> Some (Polling, S, h, tr)) }"
| "server_step env open_socket handle (Exited v, S, h, tr) = None"

text \<open>The configurations a run passes through.\<close>

inductive server_run :: "env \<Rightarrow> listener \<Rightarrow> 'h handler \<Rightarrow> 'h config \<Rightarrow> 'h config \<Rightarrow> bool"
  for env open_socket handle c0 where
  start: "server_run env open_socket handle c0 c0"
| step: "server_run env open_socket handle c0 c \<Longrightarrow> server_step env open_socket handle c = Some c' \<Longrightarrow>
    server_run env open_socket handle c0 c'"

section \<open>The listening sockets and clients of the three programs\<close>

text \<open>\<^verbatim>\<open>socket_bind_listen\<close> of \<^verbatim>\<open>tcp_server.c\<close> and \<^verbatim>\<open>http_anlyse.c\<close>, at the port of the program.\<close>

definition O_NONBLOCK :: int where "O_NONBLOCK = 2048"

definition socket_bind_listen_nb :: "env \<Rightarrow> int \<Rightarrow> listener" where
  "socket_bind_listen_nb env portno tr =
     (let (fd, tr) = sys_val env Socket tr in
      if fd = -1 then (-1, tr)
      else let (opts, tr) = sys_val env (Fcntl_getfl fd) tr in
      if opts < 0 then (-1, tr)
      else let (r, tr) = sys_val env (Fcntl_setfl fd (opts OR O_NONBLOCK)) tr in
      if r < 0 then (-1, tr)
      else let (r, tr) = sys_val env (Setsockopt fd ''SO_REUSEADDR'') tr in
      if r \<noteq> 0 then (-4, tr)
      else let (r, tr) = sys_val env (Bind fd portno) tr in
      if r < 0 then (-2, tr)
      else let (r, tr) = sys_val env (Listen fd 10) tr in
      if r < 0 then (-3, tr) else (fd, tr))"

text \<open>\<^verbatim>\<open>socket_bind_listen\<close> of \<^verbatim>\<open>tcp_select.c\<close>.\<close>

definition socket_bind_listen :: "env \<Rightarrow> int \<Rightarrow> listener" where
  "socket_bind_listen env portno tr =
     (let (fd, tr) = sys_val env Socket tr in
      if fd = -1 then (-1, tr)
      else let (r, tr) = sys_val env (Bind fd portno) tr in
      if r < 0 then (-2, tr)
      else let (r, tr) = sys_val env (Listen fd 10) tr in
      if r < 0 then (-3, tr) else (fd, tr))"

text \<open>\<^verbatim>\<open>tcp_select.c\<close> sends the bytes back.\<close>

definition echo_handler :: "env \<Rightarrow> unit handler" where
  "echo_handler env ret tmpfd b h tr =
     do { s \<leftarrow> str_of b;
          let (ret, tr) = sys_val env (Send tmpfd s) tr;
          Some (if ret < 0 then Brk else Fall, b, h, tr) }"

text \<open>
  \<^verbatim>\<open>tcp_server.c\<close> passes the buffer to \<^verbatim>\<open>handle_recv\<close>, a function of its user, which may write
  the array but not change its length.
\<close>

definition tcp_handler :: "(cbuf \<Rightarrow> int \<Rightarrow> 'h \<Rightarrow> (cbuf \<times> 'h) option) \<Rightarrow> 'h handler" where
  "tcp_handler handle_recv ret tmpfd b h tr =
     do { _ \<leftarrow> str_of b;
          (b', h) \<leftarrow> handle_recv b ret h;
          if length b' = length b then Some (Fall, b', h, tr) else None }"

text \<open>The configurations the \<^verbatim>\<open>main\<close> of \<^verbatim>\<open>tcp_server.c\<close> and that of \<^verbatim>\<open>tcp_select.c\<close> pass through.\<close>

definition tcp_server_main ::
    "env \<Rightarrow> int \<Rightarrow> (cbuf \<Rightarrow> int \<Rightarrow> 'h \<Rightarrow> (cbuf \<times> 'h) option) \<Rightarrow> 'h \<Rightarrow> 'h config \<Rightarrow> bool" where
  "tcp_server_main env PORT handle_recv h =
     server_run env (socket_bind_listen_nb env PORT) (tcp_handler handle_recv) (Opening, table0, h, [])"

definition tcp_select_main :: "env \<Rightarrow> unit config \<Rightarrow> bool" where
  "tcp_select_main env = server_run env (socket_bind_listen env 8000) (echo_handler env) (Opening, table0, (), [])"

section \<open>The table of clients\<close>

definition clients_ok :: "int list \<Rightarrow> int \<Rightarrow> trace \<Rightarrow> bool" where
  "clients_ok cs m tr \<longleftrightarrow> length cs = 10 \<and> -1 \<le> m \<and> m < 10 \<and>
     (\<forall>i < 10. 0 < cs ! i \<longrightarrow> int i \<le> m \<and> cs ! i \<in> open_fds tr \<and> cs ! i < 1024) \<and>
     (\<forall>i < 10. \<forall>j < 10. 0 < cs ! i \<longrightarrow> cs ! i = cs ! j \<longrightarrow> i = j)"

definition table_inv :: "table \<Rightarrow> trace \<Rightarrow> bool" where
  "table_inv S tr \<longleftrightarrow> clients_ok (client S) (maxi S) tr \<and> length (client_port S) = 10 \<and> length (client_ip S) = 10 \<and>
     list_all (\<lambda>ip. length ip = 16) (client_ip S) \<and> length (buf S) = 1024"

definition poll_inv :: "table \<Rightarrow> trace \<Rightarrow> bool" where
  "poll_inv S tr \<longleftrightarrow> table_inv S tr \<and> sockfd S \<in> open_fds tr \<and> 2 < sockfd S \<and> sockfd S \<in> allset S \<and>
     sockfd S \<notin> set (client S) \<and>
     (\<forall>fd \<in> allset S. fd \<le> maxfd S \<and> fd < 1024 \<and> (fd = sockfd S \<or> 0 < fd \<and> fd \<in> set (client S)))"

text \<open>Every descriptor a call names is open, or a negative number left by a failed call.\<close>

fun uses_open :: "trace \<Rightarrow> bool" where
  "uses_open [] = True"
| "uses_open ((c, r) # tr) = (uses_open tr \<and>
     (let used = (\<lambda>fd. 0 \<le> fd \<longrightarrow> fd \<in> open_fds tr) in
      case c of
        Accept fd \<Rightarrow> used fd
      | Recv fd _ \<Rightarrow> used fd
      | Send fd _ \<Rightarrow> used fd
      | Close fd \<Rightarrow> used fd
      | Bind fd _ \<Rightarrow> used fd
      | Listen fd _ \<Rightarrow> used fd
      | Connect fd _ _ \<Rightarrow> used fd
      | Select _ fds \<Rightarrow> fds \<subseteq> open_fds tr
      | _ \<Rightarrow> True))"

fun config_inv :: "'h config \<Rightarrow> bool" where
  "config_inv (ph, S, h, tr) = (uses_open tr \<and> (if ph = Polling then poll_inv S tr else table_inv S tr))"

lemma clients_ok_mono: "clients_ok cs m tr \<Longrightarrow> open_fds tr \<subseteq> open_fds tr' \<Longrightarrow> clients_ok cs m tr'"
  by (auto simp: clients_ok_def)

lemma clients_ok_take:
  assumes "clients_ok cs m tr" "i < 10" "cs ! i \<le> 0" "0 < fd" "fd < 1024" "fd \<notin> open_fds tr" "open_fds tr' = insert fd (open_fds tr)"
  shows "clients_ok (cs[i := fd]) (max m (int i)) tr'"
proof -
  have "fd \<noteq> cs ! j" if "j < 10" "0 < cs ! j" for j using assms(1,6) that by (auto simp: clients_ok_def)
  then show ?thesis using assms by (auto simp: clients_ok_def nth_list_update le_max_iff_disj)
qed

lemma clients_ok_drop:
  assumes "clients_ok cs m tr" "i < 10" "0 < cs ! i" "open_fds tr' = open_fds tr - {cs ! i}"
  shows "clients_ok (cs[i := -1]) m tr'"
proof -
  have "cs ! j \<noteq> cs ! i" if "j < 10" "0 < cs ! j" "j \<noteq> i" for j using assms(1-3) that by (auto simp: clients_ok_def)
  then show ?thesis using assms by (auto simp: clients_ok_def nth_list_update)
qed

lemma free_slot_Some: "free_slot k cs = Some i \<Longrightarrow> k \<le> i \<and> i < k + length cs \<and> cs ! (i - k) \<le> 0"
proof (induction k cs arbitrary: i rule: free_slot.induct)
  case (2 k c cs)
  then show ?case by (cases "c \<le> 0") (auto simp: nth_Cons' dest!: "2.IH")
qed simp

lemma free_slot_None: "free_slot k cs = None \<longleftrightarrow> list_all (\<lambda>c. 0 < c) cs"
  by (induction k cs rule: free_slot.induct) auto

lemma octet_length: "length (nat_dec (unat (a AND 0xff :: u32))) \<le> 3"
proof -
  have "a AND 0xff = take_bit 8 a" by (simp add: take_bit_eq_mask mask_eq_exp_minus_1)
  then have "unat (a AND 0xff) < 1000" by (simp add: take_bit_eq_mod unat_mod)
  then show ?thesis by (rule length_nat_dec_3)
qed

lemma inet_ntop_length: "length (inet_ntop a) \<le> 15"
  using octet_length[of a] octet_length[of "drop_bit 8 a"] octet_length[of "drop_bit 16 a"] octet_length[of "drop_bit 24 a"]
  by (simp add: inet_ntop_def)

section \<open>The contract of a program of this kind\<close>

text \<open>
  What the loop needs of the program: opening the listening socket gives a new open
  descriptor or a negative number, and neither that nor serving a client closes a
  descriptor the loop holds.
\<close>

text \<open>All entries taken, and only the listening socket polled.\<close>

definition wedged :: "phase \<Rightarrow> table \<Rightarrow> bool" where
  "wedged ph S \<longleftrightarrow> list_all (\<lambda>c. 0 < c) (client S) \<and> (ph = Polling \<longrightarrow> allset S = {sockfd S})"

locale select_service =
  fixes env :: env and open_socket :: listener and handle :: "'h handler"
  assumes socket_opens: "fresh_fds env \<Longrightarrow> open_socket tr = (fd, tr') \<Longrightarrow> uses_open tr \<Longrightarrow>
      open_fds tr \<subseteq> open_fds tr' \<and> uses_open tr' \<and> (0 \<le> fd \<longrightarrow> 2 < fd \<and> fd \<in> open_fds tr' \<and> fd \<notin> open_fds tr)"
    and handle_keeps: "fresh_fds env \<Longrightarrow> handle ret fd b h tr = Some (fl, b', h', tr') \<Longrightarrow> uses_open tr \<Longrightarrow> fd \<in> open_fds tr \<Longrightarrow>
      open_fds tr \<subseteq> open_fds tr' \<and> uses_open tr' \<and> length b' = length b"
begin

lemma accept_keeps:
  assumes "fresh_fds env" "poll_inv S tr" "uses_open tr" "accept_client env S n tr = Some (fl, n', S', tr')"
  shows "uses_open tr' \<and> poll_inv S' tr'"
proof -
  obtain r where r: "r = env tr (Accept (sockfd S))" by simp
  let ?tr = "(Accept (sockfd S), r) # tr"
  have u: "uses_open ?tr" using assms(2,3) by (simp add: poll_inv_def Let_def)
  have sub: "open_fds tr \<subseteq> open_fds ?tr" by auto
  have keep: "poll_inv S ?tr"
    using assms(2) sub clients_ok_mono[OF _ sub] by (auto simp: poll_inv_def table_inv_def)
  consider (stay) "fl = Brk" "S' = S" "tr' = ?tr"
    | (new) i set' where "0 \<le> rval r" "free_slot 0 (client S) = Some i" "FD_SET (rval r) (allset S) = Some set'" "tr' = ?tr"
        "S' = S\<lparr> client := (client S)[i := rval r], client_port := (client_port S)[i := uint (ntohs (rport r))],
               client_ip := (client_ip S)[i := inet_ntop (raddr r) @ replicate (16 - length (inet_ntop (raddr r))) NUL],
               allset := set', maxfd := max (maxfd S) (rval r), maxi := max (maxi S) (int i) \<rparr>"
    using assms(4) by (auto simp: accept_client_def sys_def r Let_def bind_eq_Some_conv split: if_splits option.splits)
  then show ?thesis
  proof cases
    case stay
    with u keep show ?thesis by simp
  next
    case new
    let ?fd = "rval r"
    have f: "2 < ?fd" "?fd \<notin> open_fds tr"
      using assms(1) new(1) r by (auto simp: fresh_fds_def opens_def)
    have lt: "?fd < 1024" "set' = insert ?fd (allset S)" using new(3) by (auto simp: FD_SET_def split: if_splits)
    have c: "clients_ok (client S) (maxi S) tr" using assms(2) by (simp add: poll_inv_def table_inv_def)
    then have i: "i < 10" "client S ! i \<le> 0" using free_slot_Some[OF new(2)] by (auto simp: clients_ok_def)
    have ok: "clients_ok ((client S)[i := ?fd]) (max (maxi S) (int i)) ?tr"
      using clients_ok_take[OF c i _ lt(1) f(2)] f(1) new(1) by simp
    have ip: "length (inet_ntop (raddr r) @ replicate (16 - length (inet_ntop (raddr r))) NUL) = 16"
      using inet_ntop_length[of "raddr r"] by simp
    have t: "table_inv S' ?tr" using assms(2) ok ip new(5)
      by (auto simp: poll_inv_def table_inv_def list_all_iff dest!: set_update_subset_insert[THEN subsetD])
    have mem: "fd \<in> set ((client S)[i := ?fd])" if "fd \<in> set (client S)" "0 < fd" for fd
      using that i c by (auto simp: in_set_conv_nth clients_ok_def nth_list_update) (metis linorder_not_le nth_list_update)
    have here: "?fd \<in> set ((client S)[i := ?fd])" using i c by (simp add: clients_ok_def set_update_memI)
    have sf: "sockfd S \<in> open_fds tr" "sockfd S \<notin> set (client S)" using assms(2) by (auto simp: poll_inv_def)
    have "sockfd S \<notin> set ((client S)[i := ?fd])"
      using sf f(2) set_update_subset_insert[of "client S" i ?fd] by auto
    then show ?thesis using u t assms(2) new(4,5) lt f mem here
      by (auto simp: poll_inv_def)
  qed
qed

lemma poll_inv_mono: "poll_inv S tr \<Longrightarrow> open_fds tr \<subseteq> open_fds tr' \<Longrightarrow> length b = 1024 \<Longrightarrow> poll_inv (S\<lparr> buf := b \<rparr>) tr'"
  using clients_ok_mono by (auto simp: poll_inv_def table_inv_def)

lemma close_keeps:
  assumes inv: "poll_inv S tr" and i: "i < 10" "0 < client S ! i" and s': "FD_CLR (client S ! i) (allset S) = Some set'"
    and tr': "open_fds tr' = open_fds tr - {client S ! i}" and that: "length b = 1024"
  shows "poll_inv (S\<lparr> buf := b, client := (client S)[i := -1], client_port := (client_port S)[i := 0],
    client_ip := (client_ip S)[i := replicate 16 NUL], allset := set' \<rparr>) tr'"
proof -
  have c: "clients_ok (client S) (maxi S) tr" using inv by (simp add: poll_inv_def table_inv_def)
  then have l: "length (client S) = 10" by (simp add: clients_ok_def)
  have mem: "fd \<in> set ((client S)[i := -1])" if "fd \<in> set (client S)" "fd \<noteq> client S ! i" for fd
    using that l by (auto simp: in_set_conv_nth) (metis nth_list_update_neq)
  have ne: "sockfd S \<noteq> client S ! i" using inv i l by (auto simp: poll_inv_def)
  have "table_inv (S\<lparr> buf := b, client := (client S)[i := -1], client_port := (client_port S)[i := 0],
      client_ip := (client_ip S)[i := replicate 16 NUL], allset := set' \<rparr>) tr'"
    using inv clients_ok_drop[OF c i tr'] that
    by (auto simp: poll_inv_def table_inv_def list_all_iff dest!: set_update_subset_insert[THEN subsetD])
  moreover have "set' = allset S - {client S ! i}" using s' by (auto simp: FD_CLR_def split: if_splits)
  moreover have "sockfd S \<notin> set ((client S)[i := -1])"
    using inv set_update_subset_insert[of "client S" i "-1"] by (auto simp: poll_inv_def)
  ultimately show ?thesis using inv ne mem tr' by (auto simp: poll_inv_def)
qed

lemma client_ready_keeps:
  assumes fr: "fresh_fds env" and inv: "poll_inv S tr" "uses_open tr" and i: "i < 10" "0 < client S ! i"
    and run: "client_ready env handle i (client S ! i) S h tr = Some (fl, S', h', tr')"
  shows "uses_open tr' \<and> poll_inv S' tr' \<and> maxi S' = maxi S"
proof -
  let ?fd = "client S ! i"
  have op: "?fd \<in> open_fds tr" using inv(1) i by (auto simp: poll_inv_def table_inv_def clients_ok_def)
  obtain ret d tr1 where rd: "sys_recv env ?fd 1024 tr = (ret, d, tr1)" by (metis prod_cases3)
  have tr1: "open_fds tr1 = open_fds tr" "uses_open tr1"
    using rd inv(2) op by (auto simp: sys_recv_def sys_def Let_def split: if_splits)
  have "\<exists>b1. memset0 (buf S) 1024 = Some b1 \<and> length b1 = 1024"
    using inv(1) by (auto simp: poll_inv_def table_inv_def memset0_def)
  then obtain b1 where b1: "memset0 (buf S) 1024 = Some b1" "length b1 = 1024" by blast
  obtain b2 where b2: "store_at b1 0 d = Some b2" "length b2 = 1024"
    using run b1 rd by (auto simp: client_ready_def store_at_def bind_eq_Some_conv split: if_splits)
  have op1: "?fd \<in> open_fds tr1" using op tr1 by simp
  consider (err) "fl = Ret (-1)" "S' = S\<lparr> buf := b2 \<rparr>" "tr' = tr1"
    | (gone) set' r where "FD_CLR ?fd (allset S) = Some set'" "tr' = (Close ?fd, r) # tr1"
        "S' = S\<lparr> buf := b2, client := (client S)[i := -1], client_port := (client_port S)[i := 0],
                client_ip := (client_ip S)[i := replicate 16 NUL], allset := set' \<rparr>"
    | (data) b where "handle ret ?fd b2 h tr1 = Some (fl, b, h', tr')" "S' = S\<lparr> buf := b \<rparr>"
    using run b1 b2 rd
    by (auto simp: client_ready_def sys_val_def sys_def Let_def bind_eq_Some_conv split: if_splits prod.splits)
  then show ?thesis
  proof cases
    case err
    then show ?thesis using tr1 poll_inv_mono[OF inv(1)] b2 by auto
  next
    case gone
    have "poll_inv S' tr'" unfolding gone(3)
      using tr1 gone(2) b2 by (intro close_keeps[OF inv(1) i gone(1)]) auto
    then show ?thesis using gone tr1 op1 by simp
  next
    case data
    from handle_keeps[OF fr data(1) tr1(2) op1] have k: "open_fds tr1 \<subseteq> open_fds tr'" "uses_open tr'" "length b = length b2" by auto
    then show ?thesis using poll_inv_mono[OF inv(1), of tr' b] tr1(1) b2 data(2) by auto
  qed
qed

lemma clients_loop_keeps:
  assumes fr: "fresh_fds env" and pos: "\<forall>fd \<in> rset. 0 < fd"
  shows "poll_inv S tr \<Longrightarrow> uses_open tr \<Longrightarrow> \<forall>i \<in> set is. i < 10 \<Longrightarrow>
    clients_loop env handle rset is n S h tr = Some (fl, S', h', tr') \<Longrightarrow> uses_open tr' \<and> poll_inv S' tr'"
proof (induction "is" arbitrary: n S h tr)
  case (Cons i "is")
  have i: "i < 10" using Cons.prems(3) by simp
  have l: "length (client S) = 10" using Cons.prems(1) by (auto simp: poll_inv_def table_inv_def clients_ok_def)
  then have get: "aget (client S) i = Some (client S ! i)" using i by (simp add: aget_def)
  have IH: "clients_loop env handle rset is n' S1 h1 tr1 = Some (fl, S', h', tr') \<Longrightarrow> poll_inv S1 tr1 \<Longrightarrow> uses_open tr1 \<Longrightarrow>
      uses_open tr' \<and> poll_inv S' tr'" for n' S1 h1 tr1
    using Cons.IH Cons.prems(3) by (auto simp del: uses_open.simps)
  consider (skip) "clients_loop env handle rset is n S h tr = Some (fl, S', h', tr')"
    | (ready) fl1 S1 h1 tr1 where "client S ! i \<in> rset"
        "client_ready env handle i (client S ! i) S h tr = Some (fl1, S1, h1, tr1)"
        "(\<exists>n'. clients_loop env handle rset is n' S1 h1 tr1 = Some (fl, S', h', tr')) \<or> (S', h', tr') = (S1, h1, tr1)"
    using Cons.prems(4) get
    by (auto simp: FD_ISSET_def bind_eq_Some_conv split: if_splits flow.splits) blast+
  then show ?case
  proof cases
    case skip
    then show ?thesis using IH Cons.prems by blast
  next
    case ready
    have "uses_open tr1 \<and> poll_inv S1 tr1"
      using client_ready_keeps[OF fr Cons.prems(1,2) i _ ready(2)] ready(1) pos by blast
    then show ?thesis using ready(3) IH by blast
  qed
qed simp

lemma select_turn_keeps:
  assumes fr: "fresh_fds env" and inv: "poll_inv S tr" "uses_open tr"
    and run: "select_turn env handle S h tr = Some (fl, S', h', tr')"
  shows "uses_open tr' \<and> poll_inv S' tr'"
proof -
  obtain n rset tr1 where sel: "sys_select env (maxfd S + 1) (allset S) tr = (n, rset, tr1)" by (metis prod_cases3)
  have sub: "allset S \<subseteq> open_fds tr" using inv(1)
    by (auto simp: poll_inv_def table_inv_def clients_ok_def in_set_conv_nth dest!: bspec)
  have tr1: "open_fds tr1 = open_fds tr" "uses_open tr1" "rset \<subseteq> allset S"
    using sel inv(2) sub by (auto simp: sys_select_def sys_def Let_def split: if_splits)
  have pos: "\<forall>fd \<in> rset. 0 < fd"
  proof
    fix fd assume "fd \<in> rset"
    then have "fd = sockfd S \<or> 0 < fd" "2 < sockfd S" using tr1(3) inv(1) by (auto simp: poll_inv_def)
    then show "0 < fd" by auto
  qed
  have inv1: "poll_inv S tr1" using inv(1) tr1(1) clients_ok_mono by (auto simp: poll_inv_def table_inv_def clients_ok_def)
  consider (err) "S' = S" "tr' = tr1"
    | (acc) n1 fl1 S1 tr2 where "accept_client env S n tr1 = Some (fl1, n1, S1, tr2)"
        "(fl1 = Fall \<and> clients_loop env handle rset [0..<nat (maxi S1 + 1)] n1 S1 h tr2 = Some (fl, S', h', tr')) \<or> (S' = S1 \<and> tr' = tr2)"
    | (poll) "clients_loop env handle rset [0..<nat (maxi S + 1)] n S h tr1 = Some (fl, S', h', tr')"
    using run sel by (auto simp: select_turn_def bind_eq_Some_conv split: if_splits flow.splits) (metis flow.exhaust)
  then show ?thesis
  proof cases
    case err
    then show ?thesis using inv1 tr1 by simp
  next
    case acc
    have k: "uses_open tr2 \<and> poll_inv S1 tr2" by (rule accept_keeps[OF fr inv1 tr1(2) acc(1)])
    then have "\<forall>i \<in> set [0..<nat (maxi S1 + 1)]. i < 10" by (auto simp: poll_inv_def table_inv_def clients_ok_def)
    then show ?thesis using clients_loop_keeps[OF fr pos] k acc(2) by blast
  next
    case poll
    have "\<forall>i \<in> set [0..<nat (maxi S + 1)]. i < 10" using inv(1) by (auto simp: poll_inv_def table_inv_def clients_ok_def)
    then show ?thesis using clients_loop_keeps[OF fr pos inv1 tr1(2)] poll by blast
  qed
qed

lemma server_step_keeps:
  assumes fr: "fresh_fds env" and inv: "config_inv c" and run: "server_step env open_socket handle c = Some c'"
  shows "config_inv c'"
proof -
  obtain ph S h tr where c: "c = (ph, S, h, tr)" by (metis prod_cases4)
  show ?thesis
  proof (cases ph)
    case Opening
    obtain fd tr1 where o: "open_socket tr = (fd, tr1)" by force
    have k: "open_fds tr \<subseteq> open_fds tr1 \<and> uses_open tr1 \<and> (0 \<le> fd \<longrightarrow> 2 < fd \<and> fd \<in> open_fds tr1 \<and> fd \<notin> open_fds tr)"
      using socket_opens[OF fr o] inv c by simp
    have t: "table_inv S tr" using inv c Opening by simp
    then have t1: "table_inv S tr1" using k clients_ok_mono by (auto simp: table_inv_def)
    have "fd \<notin> set (client S)" if "0 \<le> fd"
      using k that t by (auto simp: table_inv_def clients_ok_def in_set_conv_nth)
    then show ?thesis using run c Opening o k t1
      by (auto simp: FD_SET_def poll_inv_def table_inv_def split: if_splits)
  next
    case Polling
    then obtain fl S1 h1 tr1 where s: "select_turn env handle S h tr = Some (fl, S1, h1, tr1)"
      using run c by (auto simp: bind_eq_Some_conv)
    have k: "uses_open tr1 \<and> poll_inv S1 tr1" using select_turn_keeps[OF fr _ _ s] inv c Polling by simp
    have cl: "table_inv S1 ((Close (sockfd S1), r) # tr1)" for r
      using k by (auto simp: poll_inv_def table_inv_def clients_ok_def in_set_conv_nth)
    show ?thesis using run c Polling s k cl
      by (auto simp: sys_val_def sys_def Let_def poll_inv_def split: flow.splits)
  next
    case (Exited v)
    with run c show ?thesis by simp
  qed
qed

lemma server_run_keeps:
  "server_run env open_socket handle c0 c \<Longrightarrow> fresh_fds env \<Longrightarrow> config_inv c0 \<Longrightarrow> config_inv c"
  by (induction rule: server_run.induct) (blast intro: server_step_keeps)+

lemma clients_loop_idle:
  "\<forall>i \<in> set is. i < length (client S) \<and> 0 \<le> client S ! i \<and> client S ! i < 1024 \<and> client S ! i \<notin> rset \<Longrightarrow>
   clients_loop env handle rset is n S h tr = Some (Cont, S, h, tr)"
  by (induction "is") (auto simp: aget_def FD_ISSET_def)

lemma wedged_step:
  assumes fr: "fresh_fds env" and inv: "config_inv (ph, S, h, tr)" and w: "wedged ph S"
    and run: "server_step env open_socket handle (ph, S, h, tr) = Some (ph', S', h', tr')"
  shows "wedged ph' S' \<and> client S' = client S \<and> h' = h"
proof (cases ph)
  case Opening
  then show ?thesis using run w by (auto simp: wedged_def FD_SET_def split: if_splits prod.splits)
next
  case Polling
  then have poll: "poll_inv S tr" and one: "allset S = {sockfd S}" and full: "list_all (\<lambda>c. 0 < c) (client S)"
    using inv w by (auto simp: wedged_def)
  obtain n rset tr1 where sel: "sys_select env (maxfd S + 1) (allset S) tr = (n, rset, tr1)" by (metis prod_cases3)
  then have sub: "rset \<subseteq> {sockfd S}" using one by (auto simp: sys_select_def sys_def Let_def split: if_splits)
  have c: "clients_ok (client S) (maxi S) tr" "sockfd S \<notin> set (client S)" using poll by (auto simp: poll_inv_def table_inv_def)
  have idle: "clients_loop env handle rset [0..<nat (maxi S + 1)] n S h tr1 = Some (Cont, S, h, tr1)"
  proof (rule clients_loop_idle, intro ballI)
    fix i assume "i \<in> set [0..<nat (maxi S + 1)]"
    then have i: "i < length (client S)" "i < 10" using c(1) by (auto simp: clients_ok_def)
    then have "0 < client S ! i" using full by (simp add: list_all_length)
    moreover have "client S ! i \<noteq> sockfd S" using c(2) nth_mem[OF i(1)] by metis
    then have "client S ! i \<notin> rset" using sub by auto
    ultimately show "i < length (client S) \<and> 0 \<le> client S ! i \<and> client S ! i < 1024 \<and> client S ! i \<notin> rset"
      using i c(1) by (auto simp: clients_ok_def)
  qed
  have no: "free_slot 0 (client S) = None" using full by (simp add: free_slot_None)
  have acc: "\<exists>tr2. accept_client env S n tr1 = Some (Brk, n, S, tr2)"
    using no by (simp add: accept_client_def sys_def Let_def)
  have "\<exists>fl tr2. select_turn env handle S h tr = Some (fl, S, h, tr2) \<and> (fl = Brk \<or> fl = Cont)"
  proof (cases "n < 0")
    case True
    then show ?thesis using sel by (simp add: select_turn_def)
  next
    case False
    obtain y where y: "FD_ISSET (sockfd S) rset = Some y"
      using poll by (auto simp: poll_inv_def FD_ISSET_def dest!: bspec[of _ _ "sockfd S"])
    show ?thesis using sel False y idle acc by (cases y) (auto simp: select_turn_def)
  qed
  then show ?thesis using run Polling w by (auto simp: wedged_def sys_val_def sys_def Let_def)
next
  case (Exited v)
  with run show ?thesis by simp
qed

lemma wedged_run:
  assumes "server_run env open_socket handle (ph, S, h, tr) c"
  shows "fresh_fds env \<Longrightarrow> config_inv (ph, S, h, tr) \<Longrightarrow> wedged ph S \<Longrightarrow>
    config_inv c \<and> wedged (fst c) (fst (snd c)) \<and> client (fst (snd c)) = client S \<and> fst (snd (snd c)) = h"
  using assms
proof (induction rule: server_run.induct)
  case (step c c')
  obtain ph1 S1 h1 tr1 ph2 S2 h2 tr2 where c: "c = (ph1, S1, h1, tr1)" "c' = (ph2, S2, h2, tr2)" by (metis prod_cases4)
  have "config_inv c" "wedged ph1 S1" "client S1 = client S" "h1 = h" using step.IH step.prems c by auto
  moreover have "server_step env open_socket handle (ph1, S1, h1, tr1) = Some (ph2, S2, h2, tr2)" using step.hyps(2) c by simp
  ultimately show ?case
    using wedged_step[OF step.prems(1), of ph1 S1 h1 tr1 ph2 S2 h2 tr2] server_step_keeps[OF step.prems(1) _ step.hyps(2)] c by auto
qed simp

end

section \<open>The programs meet the contract\<close>

lemma listen_keeps:
  "fresh_fds env \<Longrightarrow> socket_bind_listen env p tr = (fd, tr') \<Longrightarrow> uses_open tr \<Longrightarrow>
   open_fds tr \<subseteq> open_fds tr' \<and> uses_open tr' \<and> (0 \<le> fd \<longrightarrow> 2 < fd \<and> fd \<in> open_fds tr' \<and> fd \<notin> open_fds tr)"
  unfolding fresh_fds_def
  by (auto simp: socket_bind_listen_def sys_val_def sys_def Let_def opens_def split: if_splits)

lemma listen_nb_keeps:
  "fresh_fds env \<Longrightarrow> socket_bind_listen_nb env p tr = (fd, tr') \<Longrightarrow> uses_open tr \<Longrightarrow>
   open_fds tr \<subseteq> open_fds tr' \<and> uses_open tr' \<and> (0 \<le> fd \<longrightarrow> 2 < fd \<and> fd \<in> open_fds tr' \<and> fd \<notin> open_fds tr)"
  unfolding fresh_fds_def
  by (auto simp: socket_bind_listen_nb_def sys_val_def sys_def Let_def opens_def split: if_splits)

interpretation echo: select_service env "socket_bind_listen env 8000" "echo_handler env" for env
proof
  show "open_fds tr \<subseteq> open_fds tr' \<and> uses_open tr' \<and> (0 \<le> fd \<longrightarrow> 2 < fd \<and> fd \<in> open_fds tr' \<and> fd \<notin> open_fds tr)"
    if "fresh_fds env" "socket_bind_listen env 8000 tr = (fd, tr')" "uses_open tr" for tr fd tr'
    by (rule listen_keeps[OF that])
  show "open_fds tr \<subseteq> open_fds tr' \<and> uses_open tr' \<and> length b' = length b"
    if "fresh_fds env" "echo_handler env ret fd b h tr = Some (fl, b', h', tr')" "uses_open tr" "fd \<in> open_fds tr" for ret fd b h tr fl b' h' tr'
    using that by (auto simp: echo_handler_def sys_val_def sys_def Let_def bind_eq_Some_conv)
qed

interpretation tcp: select_service env "socket_bind_listen_nb env PORT" "tcp_handler handle_recv" for env PORT handle_recv
proof
  show "open_fds tr \<subseteq> open_fds tr' \<and> uses_open tr' \<and> (0 \<le> fd \<longrightarrow> 2 < fd \<and> fd \<in> open_fds tr' \<and> fd \<notin> open_fds tr)"
    if "fresh_fds env" "socket_bind_listen_nb env PORT tr = (fd, tr')" "uses_open tr" for tr fd tr'
    by (rule listen_nb_keeps[OF that])
  show "open_fds tr \<subseteq> open_fds tr' \<and> uses_open tr' \<and> length b' = length b"
    if "fresh_fds env" "tcp_handler handle_recv ret fd b h tr = Some (fl, b', h', tr')" "uses_open tr" "fd \<in> open_fds tr" for ret fd b h tr fl b' h' tr'
    using that by (auto simp: tcp_handler_def bind_eq_Some_conv split: if_splits)
qed

section \<open>Runs of the programs\<close>

lemma table0_inv: "config_inv (Opening, table0, h, [])"
  by (auto simp: table0_def table_inv_def clients_ok_def list_all_iff)

lemma clients_loop_flow: "clients_loop env handle rset is n S h tr = Some (fl, S', h', tr') \<Longrightarrow> fl \<noteq> Brk"
  by (induction "is" arbitrary: n S h tr) (auto simp: bind_eq_Some_conv split: if_splits flow.splits, metis flow.exhaust)

lemma accept_breaks: "accept_client env S n tr = Some (Brk, n', S', tr') \<Longrightarrow> S' = S"
  by (auto simp: accept_client_def sys_def Let_def bind_eq_Some_conv split: if_splits option.splits)

lemma select_turn_breaks: "select_turn env handle S h tr = Some (Brk, S', h', tr') \<Longrightarrow> S' = S \<and> h' = h"
  by (auto simp: select_turn_def bind_eq_Some_conv split: if_splits flow.splits prod.splits
      dest: clients_loop_flow accept_breaks) (metis flow.exhaust)+

lemma step_reopens:
  "server_step env open_socket handle (Polling, S, h, tr) = Some (Opening, S', h', tr') \<Longrightarrow> S' = S \<and> h' = h"
  by (auto simp: bind_eq_Some_conv Let_def split: flow.splits prod.splits dest: select_turn_breaks) (metis flow.exhaust)+

text \<open>
  Every configuration of \<^verbatim>\<open>tcp_server.c\<close>, whatever its user's \<^verbatim>\<open>handle_recv\<close> does,
  keeps the table: ten entries with their ports and addresses, no descriptor twice, each client
  below \<^verbatim>\<open>maxi\<close> and open; every descriptor polled is the listening socket or a client; and no
  call names a descriptor that is not open.
\<close>

theorem tcp_server_table:
  assumes "fresh_fds env" "tcp_server_main env PORT handle_recv h c"
  shows "config_inv c"
  by (rule tcp.server_run_keeps[OF assms(2)[unfolded tcp_server_main_def] assms(1) table0_inv])

text \<open>
  C22. When the ten entries are taken and the inner loop is left, as it is for an
  eleventh connection, the server never serves again: in every later configuration the table
  still holds the same ten clients and the handler has not been called.
\<close>

theorem full_table_wedges:
  assumes "fresh_fds env" "config_inv (Polling, S, h, tr)" "list_all (\<lambda>fd. 0 < fd) (client S)"
    and left: "server_step env (socket_bind_listen_nb env PORT) (tcp_handler handle_recv) (Polling, S, h, tr) = Some (Opening, S1, h1, tr1)"
    and run: "server_run env (socket_bind_listen_nb env PORT) (tcp_handler handle_recv) (Opening, S1, h1, tr1) (ph, S', h', tr')"
  shows "client S' = client S \<and> h' = h"
proof -
  have s1: "S1 = S" "h1 = h" using step_reopens[OF left] by auto
  have "config_inv (Opening, S1, h1, tr1)" by (rule tcp.server_step_keeps[OF assms(1,2) left])
  moreover have "wedged Opening S1" using assms(3) s1 by (simp add: wedged_def)
  ultimately show ?thesis using tcp.wedged_run[OF run assms(1)] s1 by auto
qed

definition full_env :: env where
  "full_env = numbering (\<lambda>tr c. case c of Select _ _ \<Rightarrow> (reply_of 0)\<lparr> rfds := [3] \<rparr> | _ \<Rightarrow> reply_of 0)"

definition full_trace :: trace where
  "full_trace = map (\<lambda>fd. (Accept 3, reply_of fd)) (rev [4..13]) @ [(Socket, reply_of 3)]"

definition full_table :: table where
  "full_table = table0\<lparr> client := [4..13], maxfd := 13, maxi := 9, allset := set [3..13], sockfd := 3 \<rparr>"

lemma reopened: "fst (the x) = Opening \<Longrightarrow> \<not> Option.is_none x \<Longrightarrow> \<exists>S h tr. x = Some (Opening, S, h, tr)"
  by (cases x) auto

lemma run_the:
  "server_run env os g c0 c \<Longrightarrow> \<not> Option.is_none (server_step env os g c) \<Longrightarrow> server_run env os g c0 (the (server_step env os g c))"
  by (cases "server_step env os g c") (auto intro: server_run.step)

definition full_step :: "nat config \<Rightarrow> nat config option" where
  "full_step = server_step full_env (socket_bind_listen_nb full_env 9000) (tcp_handler (\<lambda>b n h. Some (b, Suc h)))"

text \<open>The configurations after the eleventh connection and after the listening socket is open again.\<close>

definition wedged_config :: "nat \<Rightarrow> nat config" where
  "wedged_config k = ((\<lambda>c. the (full_step c)) ^^ Suc k) (Polling, full_table, 0, full_trace)"

theorem full_table_wedges_witness:
  "fst (wedged_config 2) = Polling \<and> client (fst (snd (wedged_config 2))) = [4..13] \<and> fst (snd (snd (wedged_config 2))) = 0"
proof -
  let ?run = "server_run full_env (socket_bind_listen_nb full_env 9000) (tcp_handler (\<lambda>b n h. Some (b, Suc h))) (wedged_config 0)"
  have fr: "fresh_fds full_env" by (simp add: full_env_def numbering_fresh)
  have inv: "config_inv (Polling, full_table, 0 :: nat, full_trace)" by code_simp
  have pos: "list_all (\<lambda>fd. 0 < fd) (client full_table)" by code_simp
  have "\<not> Option.is_none (full_step (wedged_config 0))" "\<not> Option.is_none (full_step (wedged_config 1))" by code_simp+
  then have "?run (the (full_step (wedged_config 0)))" "?run (the (full_step (the (full_step (wedged_config 0)))))"
    unfolding full_step_def wedged_config_def by (simp_all add: run_the server_run.start)
  then have run: "?run (wedged_config 2)" by (simp add: wedged_config_def numeral_eq_Suc)
  have "fst (the (full_step (Polling, full_table, 0, full_trace))) = Opening"
    "\<not> Option.is_none (full_step (Polling, full_table, 0, full_trace))" by code_simp+
  then obtain S1 h1 tr1 where s: "full_step (Polling, full_table, 0, full_trace) = Some (Opening, S1, h1, tr1)" using reopened by blast
  then have c0: "wedged_config 0 = (Opening, S1, h1, tr1)" by (simp add: wedged_config_def)
  obtain ph S' h' tr' where c: "wedged_config 2 = (ph, S', h', tr')" by (metis prod_cases4)
  have "client S' = client full_table \<and> h' = 0"
    by (rule full_table_wedges[OF fr inv pos s[unfolded full_step_def] run[unfolded c0 c]])
  moreover have "fst (wedged_config 2) = Polling" by code_simp
  ultimately show ?thesis by (simp add: c full_table_def)
qed

section \<open>The echo\<close>

text \<open>Every message sent follows a read of the same client and carries its bytes up to the first NUL.\<close>

fun echo_trace :: "trace \<Rightarrow> bool" where
  "echo_trace [] = True"
| "echo_trace ((c, r) # tr) = (echo_trace tr \<and>
     (case c of
        Send fd d \<Rightarrow> (case tr of (Recv fd' n, r') # _ \<Rightarrow> fd' = fd \<and> d = cstr (take n (rdata r')) | _ \<Rightarrow> False)
      | _ \<Rightarrow> True))"

lemma cstr_padded: "cstr (d @ replicate n NUL) = cstr d"
  by (induction d) (auto simp: cstr_def)

lemma str_padded: "str_of (d @ replicate n NUL) = Some s \<Longrightarrow> s = cstr d"
  by (auto simp: str_of_def cstr_padded split: if_splits)

lemma client_ready_echo:
  assumes "client_ready env (echo_handler env) i fd S h tr = Some (fl, S', h', tr')" "echo_trace tr" "length (buf S) = 1024"
  shows "echo_trace tr' \<and> length (buf S') = 1024"
proof -
  obtain ret d tr1 where r: "sys_recv env fd 1024 tr = (ret, d, tr1)" by (metis prod_cases3)
  have m: "memset0 (buf S) 1024 = Some (replicate 1024 NUL)" using assms(3) by (simp add: memset0_def)
  obtain rp where tr1: "tr1 = (Recv fd 1024, rp) # tr" "0 < ret \<Longrightarrow> d = take 1024 (rdata rp)" "length d \<le> 1024"
    using r by (auto simp: sys_recv_def sys_def Let_def split: if_splits)
  have st: "store_at (replicate 1024 NUL) 0 d = Some (d @ replicate (1024 - length d) NUL)" using tr1(3) by (simp add: store_at_def)
  show ?thesis using assms(1,2) m r st tr1
    by (auto simp: client_ready_def echo_handler_def sys_val_def sys_def Let_def bind_eq_Some_conv split: if_splits dest!: str_padded)
qed

lemma clients_loop_echo:
  "clients_loop env (echo_handler env) rset is n S h tr = Some (fl, S', h', tr') \<Longrightarrow> echo_trace tr \<Longrightarrow> length (buf S) = 1024 \<Longrightarrow>
   echo_trace tr' \<and> length (buf S') = 1024"
proof (induction "is" arbitrary: n S h tr)
  case (Cons i "is")
  show ?case
  proof (cases "\<exists>fd fl1 S1 h1 tr1. client_ready env (echo_handler env) i fd S h tr = Some (fl1, S1, h1, tr1) \<and>
      ((\<exists>n'. clients_loop env (echo_handler env) rset is n' S1 h1 tr1 = Some (fl, S', h', tr')) \<or> (S' = S1 \<and> tr' = tr1))")
    case True
    then show ?thesis using Cons.IH client_ready_echo Cons.prems(2,3) by metis
  next
    case False
    then have "clients_loop env (echo_handler env) rset is n S h tr = Some (fl, S', h', tr')"
      using Cons.prems(1) by (auto simp: bind_eq_Some_conv split: if_splits flow.splits) (metis flow.exhaust)
    then show ?thesis using Cons.IH Cons.prems(2,3) by blast
  qed
qed simp

lemma accept_echo:
  "accept_client env S n tr = Some (fl, n', S', tr') \<Longrightarrow> echo_trace tr \<Longrightarrow> echo_trace tr' \<and> buf S' = buf S"
  by (auto simp: accept_client_def sys_def Let_def bind_eq_Some_conv split: if_splits option.splits)

lemma server_step_echo:
  assumes "server_step env (socket_bind_listen env 8000) (echo_handler env) (ph, S, h, tr) = Some (ph', S', h', tr')"
    "echo_trace tr" "length (buf S) = 1024"
  shows "echo_trace tr' \<and> length (buf S') = 1024"
proof (cases ph)
  case Opening
  then show ?thesis using assms
    by (auto simp: socket_bind_listen_def sys_val_def sys_def Let_def bind_eq_Some_conv split: if_splits)
next
  case Polling
  then obtain fl S1 h1 tr1 where s: "select_turn env (echo_handler env) S h tr = Some (fl, S1, h1, tr1)"
      "S' = S1" "tr' = tr1 \<or> (\<exists>r. tr' = (Close (sockfd S1), r) # tr1)"
    using assms(1) by (auto simp: sys_val_def sys_def Let_def bind_eq_Some_conv split: flow.splits) (metis flow.exhaust)+
  obtain n rset tr2 where sel: "sys_select env (maxfd S + 1) (allset S) tr = (n, rset, tr2)" by (metis prod_cases3)
  then have e: "echo_trace tr2" using assms(2) by (auto simp: sys_select_def sys_def Let_def split: if_splits)
  have "echo_trace tr1 \<and> length (buf S1) = 1024"
    using s(1) sel e assms(3)
    by (auto simp: select_turn_def bind_eq_Some_conv split: if_splits flow.splits dest: clients_loop_echo accept_echo)
       (metis accept_echo clients_loop_echo flow.exhaust)+
  then show ?thesis using s by auto
next
  case (Exited v)
  then show ?thesis using assms by simp
qed

text \<open>
  C23. In every run of \<^verbatim>\<open>tcp_select.c\<close> each message sent follows a read of the same
  client and carries the bytes read up to the first NUL.
\<close>

theorem tcp_select_echoes:
  assumes "tcp_select_main env c"
  shows "echo_trace (snd (snd (snd c)))"
proof -
  have "echo_trace (snd (snd (snd c))) \<and> length (buf (fst (snd c))) = 1024"
    using assms unfolding tcp_select_main_def
  proof (induction rule: server_run.induct)
    case start
    then show ?case by (simp add: table0_def)
  next
    case (step c c')
    then show ?case using server_step_echo by (metis prod.collapse)
  qed
  then show ?thesis ..
qed

definition echo_env :: env where
  "echo_env = numbering (\<lambda>tr c. case c of
     Select _ _ \<Rightarrow> (reply_of 0)\<lparr> rfds := (if length tr < 5 then [3] else [4]) \<rparr>
   | Recv _ _ \<Rightarrow> (reply_of 0)\<lparr> rdata := ''hi'' \<rparr> | _ \<Rightarrow> reply_of 0)"

definition echo_step :: "unit config \<Rightarrow> unit config option" where
  "echo_step = server_step echo_env (socket_bind_listen echo_env 8000) (echo_handler echo_env)"

definition echo_run :: "nat \<Rightarrow> unit config" where
  "echo_run k = ((\<lambda>c. the (echo_step c)) ^^ k) (Opening, table0, (), [])"

lemma echo_run_reached:
  assumes "\<forall>j < k. \<not> Option.is_none (echo_step (echo_run j))"
  shows "tcp_select_main echo_env (echo_run k)"
  unfolding tcp_select_main_def using assms
proof (induction k)
  case 0
  show ?case unfolding echo_run_def by (simp add: server_run.start)
next
  case (Suc k)
  then show ?case using run_the[of echo_env "socket_bind_listen echo_env 8000" "echo_handler echo_env" _ "echo_run k"]
    by (simp add: echo_step_def echo_run_def)
qed

theorem tcp_select_echoes_witness:
  "echo_trace (snd (snd (snd (echo_run 3)))) \<and> map fst (take 2 (snd (snd (snd (echo_run 3))))) = [Send 4 ''hi'', Recv 4 1024]"
proof
  have "\<not> Option.is_none (echo_step (echo_run 0))" "\<not> Option.is_none (echo_step (echo_run 1))"
    "\<not> Option.is_none (echo_step (echo_run 2))" by code_simp+
  then have "\<forall>j < 3. \<not> Option.is_none (echo_step (echo_run j))" by (auto simp: less_Suc_eq numeral_eq_Suc)
  from tcp_select_echoes[OF echo_run_reached[OF this]] show "echo_trace (snd (snd (snd (echo_run 3))))" .
  show "map fst (take 2 (snd (snd (snd (echo_run 3))))) = [Send 4 ''hi'', Recv 4 1024]" by code_simp
qed

theorem tcp_server_table_witness:
  "config_inv (the (server_step full_env (socket_bind_listen_nb full_env 9000) (tcp_handler (\<lambda>b n (h :: nat). Some (b, Suc h))) (Opening, table0, 0, [])))"
proof -
  let ?step = "server_step full_env (socket_bind_listen_nb full_env 9000) (tcp_handler (\<lambda>b n (h :: nat). Some (b, Suc h)))"
  have "\<not> Option.is_none (?step (Opening, table0, 0, []))" by code_simp
  then have "tcp_server_main full_env 9000 (\<lambda>b n (h :: nat). Some (b, Suc h)) 0 (the (?step (Opening, table0, 0, [])))"
    unfolding tcp_server_main_def by (rule run_the[OF server_run.start])
  then show ?thesis by (intro tcp_server_table) (simp_all add: full_env_def numbering_fresh)
qed

end
