(* ===== verification/HttpMessage.thy ===== *)
theory HttpMessage
  imports CString
begin

text \<open>
  The messages of the image-analysis server, \<^verbatim>\<open>http_server/http_anlyse.c\<close>: recognising a
  request, reading its members into \<^verbatim>\<open>request_content_A\<close>, reading the result file into
  \<^verbatim>\<open>result_json\<close>, and building the answers. The two global structures are records that the
  operations take and return. The numbers read by \<^verbatim>\<open>%lf\<close> and printed by \<^verbatim>\<open>%lf\<close> are a
  parameter: a type of doubles with the library's conversions.
\<close>

section \<open>Data\<close>

text \<open>\<^verbatim>\<open>data[8][8]\<close> is one object of 64 bytes; row \<^verbatim>\<open>i\<close> starts at byte \<^verbatim>\<open>8 * i\<close>.\<close>

record multi_str =
  ms_count :: int
  ms_data :: cbuf

record request_content_A_t =
  request_host_ip :: cbuf
  request_host_port :: int
  request_id :: cbuf
  object_list :: cbuf
  object_id :: int
  type_list :: cbuf
  type_data :: multi_str
  image_normal_path :: cbuf
  image_normal_path_data :: multi_str
  image_path_list :: cbuf
  image_path_list_data :: multi_str

record 'd Area =
  ar_count :: int
  ar_x :: "'d list"
  ar_y :: "'d list"

record 'd result_json_t =
  cls_id :: "int list"
  res_count :: int
  res_type :: cbuf
  res_value :: cbuf
  res_code :: int
  res_image_path :: cbuf
  res_desc :: cbuf
  res_area :: "'d Area list"
  res_conf :: 'd

text \<open>The conversions of doubles: the number \<^verbatim>\<open>%lf\<close> reads at the start of a string, and its text.\<close>

record 'd lf_ops =
  lf_scan :: "string \<Rightarrow> 'd option"
  lf_print :: "'d \<Rightarrow> string"
  lf_zero :: 'd

definition zeros :: "nat \<Rightarrow> cbuf" where "zeros n = replicate n NUL"

definition multi_str0 :: multi_str where
  "multi_str0 = \<lparr> ms_count = 0, ms_data = zeros 64 \<rparr>"

text \<open>\<^verbatim>\<open>memset(&request_content_A, 0, sizeof(struct request_content_A_t))\<close>\<close>

definition request0 :: request_content_A_t where
  "request0 = \<lparr> request_host_ip = zeros 16, request_host_port = 0, request_id = zeros 64,
     object_list = zeros 512, object_id = 0, type_list = zeros 32, type_data = multi_str0,
     image_normal_path = zeros 128, image_normal_path_data = multi_str0,
     image_path_list = zeros 128, image_path_list_data = multi_str0 \<rparr>"

definition area0 :: "'d lf_ops \<Rightarrow> 'd Area" where
  "area0 ops = \<lparr> ar_count = 0, ar_x = replicate 4 (lf_zero ops), ar_y = replicate 4 (lf_zero ops) \<rparr>"

definition result0 :: "'d lf_ops \<Rightarrow> 'd result_json_t" where
  "result0 ops = \<lparr> cls_id = replicate 8 0, res_count = 0, res_type = zeros 32, res_value = zeros 32,
     res_code = 0, res_image_path = zeros 256, res_desc = zeros 32,
     res_area = replicate 32 (area0 ops), res_conf = lf_zero ops \<rparr>"

definition LBRACE :: char where "LBRACE = CHR 0x7B"
definition RBRACE :: char where "RBRACE = CHR 0x7D"

definition quoted :: "string \<Rightarrow> string" where
  "quoted k = DQUOTE # k @ [DQUOTE]"

text \<open>A member name as the searches spell it, with the quotes and the colon.\<close>

definition jkey :: "string \<Rightarrow> string" where
  "jkey k = quoted k @ '':''"

section \<open>Requests\<close>

text \<open>The result, the buffer \<^verbatim>\<open>file_name\<close> and the buffer \<^verbatim>\<open>content\<close>.\<close>

definition check_if_post :: "ptr \<Rightarrow> cbuf \<Rightarrow> cbuf \<Rightarrow> (int \<times> cbuf \<times> cbuf) option" where
  "check_if_post data file_name content =
     do { post \<leftarrow> strncmp_eq data ''POST '';
          if post then do {
            tail \<leftarrow> strstr data '' HTTP'';
            (case tail of
               None \<Rightarrow> Some (-1, file_name, content)
             | Some tail \<Rightarrow> do {
                 name \<leftarrow> padd data 5;
                 file_name \<leftarrow> strncpy file_name name (pdiff tail data - 5);
                 head \<leftarrow> strchr data LBRACE;
                 tail \<leftarrow> strrchr data RBRACE;
                 (case (head, tail) of
                    (Some head, Some tail) \<Rightarrow> do {
                      content \<leftarrow> strncpy content head (pdiff tail head + 1);
                      Some (0, file_name, content) }
                  | _ \<Rightarrow> Some (-1, file_name, content)) }) }
          else do {
            http \<leftarrow> strncmp_eq data ''HTTP/'';
            Some (if http then 2 else -1, file_name, content) } }"

text \<open>
  The text between the next two quotes after \<^verbatim>\<open>k\<close> characters, copied to a field. (Some of the
  sites search the second quote by \<^verbatim>\<open>strstr\<close> with a one-character string.)
\<close>

definition copy_quoted :: "ptr \<Rightarrow> nat \<Rightarrow> cbuf \<Rightarrow> cbuf option" where
  "copy_quoted start k field =
     do { p \<leftarrow> padd start k;
          v \<leftarrow> strchr p DQUOTE;
          v \<leftarrow> v;
          v1 \<leftarrow> padd v 1;
          e \<leftarrow> strchr v1 DQUOTE;
          e \<leftarrow> e;
          strncpy field v1 (pdiff e v - 1) }"

definition scan_quoted :: "ptr \<Rightarrow> nat \<Rightarrow> int \<Rightarrow> int option" where
  "scan_quoted start k old =
     do { p \<leftarrow> padd start k;
          v \<leftarrow> strchr p DQUOTE;
          v \<leftarrow> v;
          v1 \<leftarrow> padd v 1;
          s \<leftarrow> str_of v1;
          sscanf_d s old }"

definition list_delim :: "char \<Rightarrow> bool" where
  "list_delim c \<longleftrightarrow> c = DQUOTE \<or> c = CHR '',''"

text \<open>The loops that copy the tokens of a list to the rows of a \<^verbatim>\<open>multi_str\<close>.\<close>

function token_rows :: "cbuf \<Rightarrow> nat \<Rightarrow> nat \<Rightarrow> cbuf \<Rightarrow> (nat \<times> cbuf \<times> cbuf) option" where
  "token_rows lst pos i rows =
     (case strtok list_delim lst pos of
        None \<Rightarrow> None
      | Some (None, lst', _) \<Rightarrow> Some (i, lst', rows)
      | Some (Some tok, lst', pos') \<Rightarrow>
          (case sprintf_at rows (8 * i) tok of
             None \<Rightarrow> None
           | Some (_, rows') \<Rightarrow> token_rows lst' pos' (Suc i) rows'))"
  by auto

termination
  by (relation "measure (\<lambda>(lst, pos, i, rows). length lst - pos)")
     (auto dest!: strtok_measure)

declare token_rows.simps [simp del]

text \<open>The rows the closing loops print.\<close>

definition print_rows :: "multi_str \<Rightarrow> unit option" where
  "print_rows m =
     (if list_all (\<lambda>i. padd (ms_data m) (8 * i) \<bind> str_of \<noteq> None) [0..<nat (ms_count m)]
      then Some () else None)"

definition rows_of :: "cbuf \<Rightarrow> multi_str \<Rightarrow> (cbuf \<times> multi_str) option" where
  "rows_of lst m =
     do { (i, lst, rows) \<leftarrow> token_rows lst 0 0 (ms_data m);
          Some (lst, \<lparr> ms_count = int i, ms_data = rows \<rparr>) }"

definition parse_post_A_content :: "ptr \<Rightarrow> request_content_A_t \<Rightarrow> (int \<times> request_content_A_t) option" where
  "parse_post_A_content data R =
     do { requestHostIp \<leftarrow> strstr data (jkey ''requestHostIp'');
          (case requestHostIp of
             None \<Rightarrow> Some (-1, R)
           | Some ipStart \<Rightarrow> do {
               ip \<leftarrow> copy_quoted ipStart (length (jkey ''requestHostIp'')) (request_host_ip R);
               requestHostPort \<leftarrow> strstr data (jkey ''requestHostPort'');
               portStart \<leftarrow> requestHostPort;
               hport \<leftarrow> scan_quoted portStart (length (jkey ''requestHostPort'')) (request_host_port R);
               requestId \<leftarrow> strstr data (jkey ''requestId'');
               idStart \<leftarrow> requestId;
               rid \<leftarrow> copy_quoted idStart (length (jkey ''requestId'')) (request_id R);
               objectId \<leftarrow> strstr data (jkey ''objectId'');
               objStart \<leftarrow> objectId;
               oid \<leftarrow> scan_quoted objStart (length (jkey ''objectId'')) (object_id R);
               typeList \<leftarrow> strstr data (jkey ''typeList'');
               typeStart \<leftarrow> typeList;
               tlist \<leftarrow> copy_quoted typeStart (length (jkey ''typeList'')) (type_list R);
               imageNormalPath \<leftarrow> strstr data (jkey ''imageNormalPath'');
               npath \<leftarrow> (case imageNormalPath of
                  None \<Rightarrow> Some (image_normal_path R)
                | Some st \<Rightarrow> copy_quoted st (length (jkey ''imageNormalPath'')) (image_normal_path R));
               imageList \<leftarrow> strstr data (jkey ''imageList'');
               imgStart \<leftarrow> imageList;
               ilist \<leftarrow> copy_quoted imgStart (length (jkey ''imageList'')) (image_path_list R);
               _ \<leftarrow> str_of ip;
               _ \<leftarrow> str_of rid;
               _ \<leftarrow> str_of tlist;
               _ \<leftarrow> str_of npath;
               _ \<leftarrow> str_of ilist;
               (tlist, tdata) \<leftarrow> rows_of tlist (type_data R);
               (ilist, idata) \<leftarrow> rows_of ilist (image_path_list_data R);
               (npath, ndata) \<leftarrow> (case imageNormalPath of
                  None \<Rightarrow> Some (npath, image_normal_path_data R)
                | Some _ \<Rightarrow> rows_of npath (image_normal_path_data R));
               _ \<leftarrow> print_rows tdata;
               _ \<leftarrow> print_rows idata;
               _ \<leftarrow> print_rows ndata;
               Some (0, R\<lparr> request_host_ip := ip, request_host_port := hport, request_id := rid,
                 object_id := oid, type_list := tlist, type_data := tdata, image_normal_path := npath,
                 image_normal_path_data := ndata, image_path_list := ilist, image_path_list_data := idata \<rparr>) }) }"

section \<open>Answers\<close>

definition point_text :: "'d lf_ops \<Rightarrow> 'd \<Rightarrow> 'd \<Rightarrow> string" where
  "point_text ops x y = ''{'' @ jkey ''x'' @ quoted (lf_print ops x) @ '','' @ jkey ''y'' @ quoted (lf_print ops y) @ ''}''"

text \<open>The loops of the areas and of their points, from index \<^verbatim>\<open>j\<close> with \<^verbatim>\<open>n\<close> to go.\<close>

fun put_points :: "'d lf_ops \<Rightarrow> 'd Area \<Rightarrow> nat \<Rightarrow> nat \<Rightarrow> cbuf \<Rightarrow> nat \<Rightarrow> (nat \<times> cbuf) option" where
  "put_points ops a 0 j buf pos = Some (pos, buf)"
| "put_points ops a (Suc n) j buf pos =
     do { x \<leftarrow> aget (ar_x a) j;
          y \<leftarrow> aget (ar_y a) j;
          (pos, buf) \<leftarrow> sprintf_at buf pos (point_text ops x y);
          (pos, buf) \<leftarrow> (if int (j + 1) < ar_count a then sprintf_at buf pos '','' else Some (pos, buf));
          put_points ops a n (Suc j) buf pos }"

fun put_areas :: "'d lf_ops \<Rightarrow> 'd result_json_t \<Rightarrow> nat \<Rightarrow> nat \<Rightarrow> cbuf \<Rightarrow> nat \<Rightarrow> (nat \<times> cbuf) option" where
  "put_areas ops J 0 i buf pos = Some (pos, buf)"
| "put_areas ops J (Suc n) i buf pos =
     do { a \<leftarrow> aget (res_area J) i;
          (pos, buf) \<leftarrow> sprintf_at buf pos (''{'' @ jkey ''areas'' @ ''['');
          (pos, buf) \<leftarrow> put_points ops a (nat (ar_count a)) 0 buf pos;
          (pos, buf) \<leftarrow> sprintf_at buf pos '']}'';
          (pos, buf) \<leftarrow> (if int (i + 1) < res_count J then sprintf_at buf pos '','' else Some (pos, buf));
          put_areas ops J n (Suc i) buf pos }"

definition build_A_callback_content ::
    "'d lf_ops \<Rightarrow> request_content_A_t \<Rightarrow> 'd result_json_t \<Rightarrow> cbuf \<Rightarrow> (nat \<times> cbuf) option" where
  "build_A_callback_content ops R J buf =
     do { (pos, buf) \<leftarrow> sprintf_at buf 0 ''{'';
          rid \<leftarrow> str_of (request_id R);
          (pos, buf) \<leftarrow> sprintf_at buf pos (jkey ''requestId'' @ quoted rid @ '','');
          (pos, buf) \<leftarrow> sprintf_at buf pos (jkey ''resultsList'' @ ''[{'');
          (pos, buf) \<leftarrow> sprintf_at buf pos (jkey ''objectId'' @ quoted (int_dec (object_id R)) @ '','');
          (pos, buf) \<leftarrow> sprintf_at buf pos (jkey ''results'' @ ''[{'');
          typ \<leftarrow> str_of (res_type J);
          (pos, buf) \<leftarrow> sprintf_at buf pos (jkey ''type'' @ quoted typ @ '','');
          val \<leftarrow> str_of (res_value J);
          (pos, buf) \<leftarrow> sprintf_at buf pos (jkey ''value'' @ quoted val @ '','');
          (pos, buf) \<leftarrow> sprintf_at buf pos (jkey ''code'' @ quoted (int_dec (res_code J)) @ '','');
          path \<leftarrow> str_of (res_image_path J);
          (pos, buf) \<leftarrow> sprintf_at buf pos (jkey ''resImagePath'' @ quoted path @ '','');
          (pos, buf) \<leftarrow> sprintf_at buf pos (jkey ''pos'' @ ''['');
          (pos, buf) \<leftarrow> put_areas ops J (nat (res_count J)) 0 buf pos;
          (pos, buf) \<leftarrow> sprintf_at buf pos '']'';
          (pos, buf) \<leftarrow> sprintf_at buf pos ''}],'';
          (pos, buf) \<leftarrow> sprintf_at buf pos (jkey ''conf'' @ quoted (lf_print ops (res_conf J)) @ '','');
          desc \<leftarrow> str_of (res_desc J);
          (pos, buf) \<leftarrow> sprintf_at buf pos (jkey ''desc'' @ quoted desc);
          (pos, buf) \<leftarrow> sprintf_at buf pos ''}]'';
          sprintf_at buf pos ''}'' }"

definition build_callback_packet :: "cbuf \<Rightarrow> ptr \<Rightarrow> int \<Rightarrow> string \<Rightarrow> (nat \<times> cbuf) option" where
  "build_callback_packet buf content content_len file_name =
     do { (pos, buf) \<leftarrow> sprintf_at buf 0 (''POST '' @ file_name @ '' HTTP/1.1'' @ CRLF);
          (pos, buf) \<leftarrow> sprintf_at buf pos (''HOST: 10.106.249.210:8080'' @ CRLF);
          (pos, buf) \<leftarrow> sprintf_at buf pos (''Content-Type: application/json'' @ CRLF);
          (pos, buf) \<leftarrow> sprintf_at buf pos (''Content-Length: '' @ int_dec content_len @ CRLF);
          (pos, buf) \<leftarrow> sprintf_at buf pos CRLF;
          body \<leftarrow> str_of content;
          sprintf_at buf pos body }"

definition build_error_callback :: "cbuf \<Rightarrow> int \<Rightarrow> (int \<times> cbuf) option" where
  "build_error_callback buf error_type =
     do { (pos, buf) \<leftarrow> sprintf_at buf 0 (''HTTP/1.1 '' @ int_dec error_type @ '' '');
          if error_type = 200 \<or> error_type = 400 \<or> error_type = 500 then do {
            (pos, buf) \<leftarrow> sprintf_at buf pos
              ((if error_type = 200 then ''OK''
                else if error_type = 400 then ''The client request has a syntax error, cannot be understood by the server.''
                else ''The service side is abnormal.'') @ CRLF);
            (pos, buf) \<leftarrow> sprintf_at buf pos (''Content-type: application/json'' @ CRLF);
            (pos, buf) \<leftarrow> sprintf_at buf pos (''Content-length: 14'' @ CRLF @ [LF]);
            (pos, buf) \<leftarrow> sprintf_at buf pos (''{'' @ jkey ''code'' @ quoted (int_dec error_type) @ ''}'');
            Some (int pos, buf) }
          else do {
            buf \<leftarrow> memset0 buf pos;
            Some (-1, buf) } }"

text \<open>
  \<^verbatim>\<open>errstr\<close> is NULL: when the response has a code and a reason, \<^verbatim>\<open>sscanf\<close> stores the reason
  there. (The \<^verbatim>\<open>printf\<close> of a NULL string prints \<^verbatim>\<open>(null)\<close> in the library of the target.)
\<close>

definition parse_callback_packet :: "ptr \<Rightarrow> int option" where
  "parse_callback_packet data =
     do { s \<leftarrow> str_of data;
          if take 8 s \<noteq> ''HTTP/1.1'' then Some 0
          else (let (neg, u) = split_sign (dropWhile isspace (drop 8 s)) in
            if takeWhile isdigit u = [] then Some 0
            else if dropWhile isspace (dropWhile isdigit u) = [] then Some 0
            else None) }"

section \<open>Results\<close>

text \<open>One of the two loops over the coordinates of an area, \<^verbatim>\<open>key\<close> being the quoted letter.\<close>

function read_coords :: "'d lf_ops \<Rightarrow> string \<Rightarrow> ptr option \<Rightarrow> nat \<Rightarrow> 'd list \<Rightarrow> (nat \<times> 'd list) option" where
  "read_coords ops key None j cs = Some (j, cs)"
| "read_coords ops key (Some st) j cs =
     do { p \<leftarrow> padd st 3;
          v \<leftarrow> strstr p [CHR '':'', TAB];
          v \<leftarrow> v;
          n \<leftarrow> padd v 2;
          s \<leftarrow> str_of n;
          cs \<leftarrow> (case lf_scan ops s of None \<Rightarrow> Some cs | Some d \<Rightarrow> aset cs j d);
          st \<leftarrow> strstr v key;
          read_coords ops key st (Suc j) cs }"
  by pat_completeness auto

termination
  by (relation "measure (\<lambda>(ops, key, st, j, cs). case st of None \<Rightarrow> 0 | Some p \<Rightarrow> Suc (length p))")
     (auto split: option.splits dest!: ptr_lengths)

function read_areas ::
    "'d lf_ops \<Rightarrow> ptr option \<Rightarrow> nat \<Rightarrow> cbuf \<Rightarrow> 'd Area list \<Rightarrow> (nat \<times> 'd Area list) option" where
  "read_areas ops None i temp areas = Some (i, areas)"
| "read_areas ops (Some st) i temp areas =
     do { p \<leftarrow> padd st (length (jkey ''areas''));
          v \<leftarrow> strchr p (CHR ''['');
          v \<leftarrow> v;
          e \<leftarrow> strchr v (CHR '']'');
          e \<leftarrow> e;
          v1 \<leftarrow> padd v 1;
          temp \<leftarrow> strncpy temp v1 (pdiff e v - 1);
          a \<leftarrow> aget areas i;
          xs \<leftarrow> strstr temp (quoted ''x'');
          (_, cx) \<leftarrow> read_coords ops (quoted ''x'') xs 0 (ar_x a);
          ys \<leftarrow> strstr temp (quoted ''y'');
          (j, cy) \<leftarrow> read_coords ops (quoted ''y'') ys 0 (ar_y a);
          areas \<leftarrow> aset areas i \<lparr> ar_count = int j, ar_x = cx, ar_y = cy \<rparr>;
          st \<leftarrow> strstr e (jkey ''areas'');
          read_areas ops st (Suc i) temp areas }"
  by pat_completeness auto

termination
  by (relation "measure (\<lambda>(ops, st, i, temp, areas). case st of None \<Rightarrow> 0 | Some p \<Rightarrow> Suc (length p))")
     (auto split: option.splits simp: jkey_def quoted_def dest!: ptr_lengths)

declare read_coords.simps [simp del] read_areas.simps [simp del]

text \<open>The text after the first colon behind a name, two characters on.\<close>

definition after_colon :: "ptr \<Rightarrow> nat \<Rightarrow> string option" where
  "after_colon st k =
     do { p \<leftarrow> padd st k;
          v \<leftarrow> strchr p (CHR '':'');
          v \<leftarrow> v;
          n \<leftarrow> padd v 2;
          str_of n }"

text \<open>The points the closing loops print.\<close>

definition print_areas :: "int \<Rightarrow> 'd Area list \<Rightarrow> unit option" where
  "print_areas n areas =
     (if nat n \<le> length areas \<and>
         list_all (\<lambda>a. nat (ar_count a) \<le> length (ar_x a) \<and> nat (ar_count a) \<le> length (ar_y a)) (take (nat n) areas)
      then Some () else None)"

definition parse_result_json ::
    "'d lf_ops \<Rightarrow> ptr \<Rightarrow> request_content_A_t \<Rightarrow> 'd result_json_t \<Rightarrow> (int \<times> 'd result_json_t) option" where
  "parse_result_json ops data R J =
     do { st \<leftarrow> strstr data (jkey ''type'');
          typ \<leftarrow> (case st of None \<Rightarrow> Some (res_type J)
                  | Some st \<Rightarrow> copy_quoted st (length (jkey ''type'')) (res_type J));
          ilist \<leftarrow> str_of (image_path_list R);
          (_, path) \<leftarrow> sprintf_at (res_image_path J) 0 (''/root/image/'' @ ilist @ ''.rgb'');
          st \<leftarrow> strstr data (jkey ''desc'');
          desc \<leftarrow> (case st of None \<Rightarrow> Some (res_desc J)
                  | Some st \<Rightarrow> copy_quoted st (length (jkey ''desc'')) (res_desc J));
          st \<leftarrow> strstr data (jkey ''value'');
          val \<leftarrow> (case st of None \<Rightarrow> Some (res_value J)
                  | Some st \<Rightarrow> copy_quoted st (length (jkey ''value'')) (res_value J));
          st \<leftarrow> strstr data (quoted ''code'');
          code \<leftarrow> (case st of None \<Rightarrow> Some (res_code J)
                  | Some st \<Rightarrow> do { s \<leftarrow> after_colon st (length (quoted ''code'')); sscanf_d s (res_code J) });
          st \<leftarrow> strstr data (quoted ''conf'');
          conf \<leftarrow> (case st of None \<Rightarrow> Some (res_conf J)
                  | Some st \<Rightarrow> do { s \<leftarrow> after_colon st (length (quoted ''conf''));
                                    Some (case lf_scan ops s of None \<Rightarrow> res_conf J | Some d \<Rightarrow> d) });
          pos \<leftarrow> strstr data (jkey ''pos'');
          (cnt, areas) \<leftarrow> (case pos of None \<Rightarrow> Some (res_count J, res_area J)
                  | Some pos \<Rightarrow> do { st \<leftarrow> strstr pos (jkey ''areas'');
                                     (i, areas) \<leftarrow> read_areas ops st 0 (zeros 512) (res_area J);
                                     Some (int i, areas) });
          _ \<leftarrow> str_of typ;
          _ \<leftarrow> str_of val;
          _ \<leftarrow> str_of path;
          _ \<leftarrow> str_of desc;
          _ \<leftarrow> print_areas cnt areas;
          Some (0, J\<lparr> res_count := cnt, res_type := typ, res_value := val, res_code := code,
                      res_image_path := path, res_desc := desc, res_area := areas, res_conf := conf \<rparr>) }"

end
