(* ===== verification/HttpRequest.thy ===== *)
theory HttpRequest
  imports HttpMessage
begin

text \<open>
  Reading a request: \<^verbatim>\<open>parse_post_A_content\<close> finds by name, in any order, the members of an
  object whose values are strings, and splits the lists among them into the rows of a
  \<^verbatim>\<open>multi_str\<close>.
\<close>

section \<open>Objects with string members\<close>

definition pair_text :: "char \<Rightarrow> string \<times> string \<Rightarrow> string" where
  "pair_text c p = jkey (fst p) @ quoted (snd p) @ [c]"

fun render :: "(string \<times> string) list \<Rightarrow> string" where
  "render [] = [RBRACE]"
| "render [p] = pair_text RBRACE p"
| "render (p # q # ps) = pair_text (CHR '','') p @ render (q # ps)"

definition object_text :: "(string \<times> string) list \<Rightarrow> string" where
  "object_text kvs = LBRACE # render kvs"

definition plain :: "string \<Rightarrow> bool" where
  "plain s \<longleftrightarrow> DQUOTE \<notin> set s \<and> NUL \<notin> set s"

definition members_ok :: "(string \<times> string) list \<Rightarrow> bool" where
  "members_ok kvs \<longleftrightarrow> list_all (\<lambda>(n, v). plain n \<and> plain v) kvs"

definition key_ok :: "string \<Rightarrow> bool" where
  "key_ok k \<longleftrightarrow> k \<noteq> [] \<and> list_all (\<lambda>c. c \<notin> {DQUOTE, NUL, CHR '':'', CHR '','', RBRACE, LBRACE}) k"

lemma unique_split:
  "a \<notin> set xs \<Longrightarrow> a \<notin> set ys \<Longrightarrow> xs @ a # us = ys @ a # vs \<Longrightarrow> xs = ys \<and> us = vs"
proof (induction xs arbitrary: ys)
  case Nil
  then show ?case by (cases ys) auto
next
  case (Cons x xs)
  then show ?case by (cases ys) auto
qed

lemma take_is_key:
  assumes "take (length (k @ [a, b])) (n @ a # r) = k @ [a, b]" "a \<notin> set n" "a \<notin> set k"
  shows "n = k \<and> (\<exists>r'. r = b # r')"
proof -
  have "n @ a # r = k @ a # b # drop (length (k @ [a, b])) (n @ a # r)"
    (is "?l = _ @ _ # _ # drop ?m _")
  proof -
    have "?l = take ?m ?l @ drop ?m ?l" by (rule append_take_drop_id [symmetric])
    also have "\<dots> = (k @ [a, b]) @ drop ?m ?l" by (simp only: assms(1))
    finally show ?thesis by simp
  qed
  from unique_split[OF assms(2,3) this] show ?thesis by blast
qed

lemma jkey_eq: "jkey k = DQUOTE # k @ [DQUOTE, CHR '':'']"
  by (simp add: jkey_def quoted_def)

lemma find_key_miss:
  assumes "DQUOTE \<notin> set n" "key_ok k" "\<not> (n = k \<and> (\<exists>r'. r = CHR '':'' # r'))"
  shows "find_sub (jkey k) (DQUOTE # n @ DQUOTE # r) =
    map_option (\<lambda>i. Suc (length n) + i) (find_sub (jkey k) (DQUOTE # r))"
proof -
  have k: "DQUOTE \<notin> set k" using assms(2) by (auto simp: key_ok_def list_all_iff)
  have "take (length (jkey k)) (DQUOTE # n @ DQUOTE # r) \<noteq> jkey k"
    using take_is_key[of k DQUOTE "CHR '':''" n r] assms k by (auto simp: jkey_eq)
  then have "find_sub (jkey k) (DQUOTE # n @ DQUOTE # r) = map_option Suc (find_sub (jkey k) (n @ DQUOTE # r))"
    by (rule find_sub_miss)
  also have "find_sub (jkey k) (n @ DQUOTE # r) = map_option (\<lambda>i. length n + i) (find_sub (jkey k) (DQUOTE # r))"
    unfolding jkey_eq by (rule find_sub_skip[OF assms(1)])
  finally show ?thesis by (simp add: option.map_comp comp_def)
qed

lemma find_key_skip_pair:
  assumes p: "plain n" "plain v" and k: "key_ok k" "n \<noteq> k" and c: "c = CHR '','' \<or> c = RBRACE"
  shows "find_sub (jkey k) (pair_text c (n, v) @ r) =
    map_option (\<lambda>i. length (pair_text c (n, v)) + i) (find_sub (jkey k) r)"
proof -
  have q: "DQUOTE \<notin> set n" "DQUOTE \<notin> set v" using p by (auto simp: plain_def)
  have kc: "CHR '':'' \<notin> set k" "c \<notin> set k" "k \<noteq> []" using k(1) c by (auto simp: key_ok_def list_all_iff)
  have ne: "c \<noteq> DQUOTE" "CHR '':'' \<noteq> DQUOTE" using c by (auto simp: char_names RBRACE_def)
  have 1: "find_sub (jkey k) (DQUOTE # n @ DQUOTE # CHR '':'' # DQUOTE # v @ DQUOTE # c # r) =
      map_option (\<lambda>i. Suc (length n) + i) (find_sub (jkey k) (DQUOTE # CHR '':'' # DQUOTE # v @ DQUOTE # c # r))"
    using find_key_miss[OF q(1) k(1)] k(2) by blast
  have 2: "find_sub (jkey k) (DQUOTE # [CHR '':''] @ DQUOTE # v @ DQUOTE # c # r) =
      map_option (\<lambda>i. Suc (length '':'') + i) (find_sub (jkey k) (DQUOTE # v @ DQUOTE # c # r))"
    using kc ne by (intro find_key_miss k(1)) auto
  have 3: "find_sub (jkey k) (DQUOTE # v @ DQUOTE # c # r) =
      map_option (\<lambda>i. Suc (length v) + i) (find_sub (jkey k) (DQUOTE # c # r))"
    using find_key_miss[OF q(2) k(1), of "c # r"] c by (auto simp: RBRACE_def)
  have "take (length (jkey k)) (DQUOTE # c # r) \<noteq> jkey k"
    using kc by (cases k) (auto simp: jkey_eq)
  then have "find_sub (jkey k) (DQUOTE # c # r) = map_option Suc (find_sub (jkey k) (c # r))"
    by (rule find_sub_miss)
  moreover have "find_sub (jkey k) ([c] @ r) = map_option (\<lambda>i. length [c] + i) (find_sub (jkey k) r)"
    unfolding jkey_eq using ne by (intro find_sub_skip) auto
  ultimately have 4: "find_sub (jkey k) (DQUOTE # c # r) = map_option (\<lambda>i. 2 + i) (find_sub (jkey k) r)"
    by (simp add: option.map_comp comp_def del: find_sub.simps)
  show ?thesis using 1 2 3 4
    by (simp add: pair_text_def jkey_eq quoted_def option.map_comp comp_def add.assoc del: find_sub.simps)
qed

lemma find_key_hit: "find_sub (jkey k) (jkey k @ r) = Some 0"
  by (rule find_sub_hit)

lemma find_key_render:
  "members_ok kvs \<Longrightarrow> key_ok k \<Longrightarrow> map_of kvs k = Some v \<Longrightarrow>
   \<exists>i c r. find_sub (jkey k) (render kvs) = Some i \<and> drop i (render kvs) = jkey k @ quoted v @ c # r"
proof (induction kvs rule: render.induct)
  case (2 p)
  obtain n w where p: "p = (n, w)" by force
  with 2 have "n = k" "w = v" by (auto split: if_splits)
  with p have r: "render [p] = jkey k @ quoted v @ [RBRACE]" by (simp add: pair_text_def)
  then show ?case using find_key_hit[of k "quoted v @ [RBRACE]"] by (metis drop0)
next
  case (3 p q ps)
  obtain n w where p: "p = (n, w)" by force
  show ?case
  proof (cases "n = k")
    case True
    then have r: "render (p # q # ps) = jkey k @ quoted v @ CHR '','' # render (q # ps)"
      using 3 p by (auto simp: pair_text_def)
    show ?thesis using find_key_hit[of k "quoted v @ CHR '','' # render (q # ps)"] unfolding r by (metis drop0)
  next
    case False
    with 3 p have "map_of (q # ps) k = Some v" "members_ok (q # ps)" by (auto simp: members_ok_def split: if_splits)
    from "3.IH"[OF this(2) "3.prems"(2) this(1)] obtain i c r where
      i: "find_sub (jkey k) (render (q # ps)) = Some i" "drop i (render (q # ps)) = jkey k @ quoted v @ c # r" by blast
    have "find_sub (jkey k) (render (p # q # ps)) = Some (length (pair_text (CHR '','') p) + i)"
      using find_key_skip_pair[of n w k "CHR '',''" "render (q # ps)"] 3 p False i by (simp add: members_ok_def)
    with i show ?thesis by simp
  qed
qed simp

lemma find_key_absent:
  "members_ok kvs \<Longrightarrow> key_ok k \<Longrightarrow> map_of kvs k = None \<Longrightarrow> find_sub (jkey k) (render kvs) = None"
proof (induction kvs rule: render.induct)
  case 1
  then show ?case by (auto simp: jkey_eq RBRACE_def char_names)
next
  case (2 p)
  obtain n w where p: "p = (n, w)" by force
  then show ?case using find_key_skip_pair[of n w k RBRACE "[]"] 2 by (auto simp: members_ok_def jkey_eq split: if_splits)
next
  case (3 p q ps)
  obtain n w where p: "p = (n, w)" by force
  then show ?case using find_key_skip_pair[of n w k "CHR '',''" "render (q # ps)"] 3
    by (auto simp: members_ok_def split: if_splits)
qed

lemma not_NUL: "RBRACE \<noteq> NUL" "LBRACE \<noteq> NUL" "CHR '','' \<noteq> NUL" "DQUOTE \<noteq> NUL"
  by (simp_all add: char_names LBRACE_def RBRACE_def)

lemma plain_pair_text: "NUL \<notin> set n \<Longrightarrow> NUL \<notin> set v \<Longrightarrow> c \<noteq> NUL \<Longrightarrow> NUL \<notin> set (pair_text c (n, v))"
  by (auto simp: pair_text_def jkey_eq quoted_def char_names)

lemma render_NUL_free: "members_ok kvs \<Longrightarrow> NUL \<notin> set (render kvs)"
proof (induction kvs rule: render.induct)
  case 1
  then show ?case by (simp add: RBRACE_def NUL_def)
next
  case (2 p)
  then show ?case by (cases p) (simp add: members_ok_def plain_def plain_pair_text not_NUL)
next
  case (3 p q ps)
  then show ?case by (cases p) (simp add: members_ok_def plain_def plain_pair_text not_NUL)
qed

lemma object_text_NUL_free: "members_ok kvs \<Longrightarrow> NUL \<notin> set (object_text kvs)"
  using render_NUL_free[of kvs] by (simp add: object_text_def LBRACE_def NUL_def)

lemma strstr_object:
  assumes "members_ok kvs" "key_ok k"
  shows "map_of kvs k = Some v \<Longrightarrow> \<exists>c r. strstr (object_text kvs @ NUL # z) (jkey k) = Some (Some (jkey k @ quoted v @ c # r)) \<and> NUL \<in> set r"
    and "map_of kvs k = None \<Longrightarrow> strstr (object_text kvs @ NUL # z) (jkey k) = Some None"
proof -
  have s: "str_of (object_text kvs @ NUL # z) = Some (object_text kvs)"
    by (rule str_of_append[OF object_text_NUL_free[OF assms(1)]])
  have m: "find_sub (jkey k) (object_text kvs) = map_option (\<lambda>i. length [LBRACE] + i) (find_sub (jkey k) (render kvs))"
    unfolding object_text_def jkey_eq
    using find_sub_skip[of DQUOTE "[LBRACE]" "k @ [DQUOTE, CHR '':'']" "render kvs"] by (simp add: LBRACE_def DQUOTE_def)
  show "strstr (object_text kvs @ NUL # z) (jkey k) = Some None" if "map_of kvs k = None"
    using find_key_absent[OF assms that] s m by (simp add: strstr_def)
  show "\<exists>c r. strstr (object_text kvs @ NUL # z) (jkey k) = Some (Some (jkey k @ quoted v @ c # r)) \<and> NUL \<in> set r"
    if "map_of kvs k = Some v"
  proof -
    from find_key_render[OF assms that] obtain i c r where
      i: "find_sub (jkey k) (render kvs) = Some i" "drop i (render kvs) = jkey k @ quoted v @ c # r" by blast
    have "i \<le> length (render kvs)" using find_sub_Some[OF i(1)] i(2) by (cases "i \<le> length (render kvs)") (auto simp: jkey_eq)
    then have "drop (Suc i) (object_text kvs @ NUL # z) = jkey k @ quoted v @ c # r @ NUL # z"
      using i(2) by (simp add: object_text_def)
    then show ?thesis using s m i(1) by (auto simp: strstr_def)
  qed
qed

lemma padd_append: "padd (xs @ ys) (length xs) = Some ys"
  by (simp add: padd_def)

text \<open>A quoted value is copied in front of what the field held.\<close>

lemma strchr_quote: "plain s \<Longrightarrow> NUL \<in> set r \<Longrightarrow> strchr (s @ DQUOTE # r) DQUOTE = Some (Some (DQUOTE # r))"
  by (rule strchr_at) (auto simp: plain_def char_names)

lemma copy_quoted_value:
  assumes "plain v" "length v \<le> length field" "NUL \<in> set r"
  shows "copy_quoted (jkey k @ quoted v @ r) (length (jkey k)) field = Some (v @ drop (length v) field)"
proof -
  let ?t = "DQUOTE # v @ DQUOTE # r"
  have t: "quoted v @ r = ?t" by (simp add: quoted_def)
  have 1: "strchr ?t DQUOTE = Some (Some ?t)" "strchr (v @ DQUOTE # r) DQUOTE = Some (Some (DQUOTE # r))"
    using strchr_quote[of "[]" "v @ DQUOTE # r"] strchr_quote[OF assms(1,3)] assms(3) by (auto simp: plain_def)
  have 2: "padd (DQUOTE # v @ DQUOTE # r) (Suc 0) = Some (v @ DQUOTE # r)" using padd_append[of "[DQUOTE]"] by simp
  have 3: "pdiff (DQUOTE # r) ?t - 1 = int (length v)" by (simp add: pdiff_def)
  have 4: "strncpy field (v @ DQUOTE # r) (int (length v)) = Some (v @ drop (length v) field)"
    using assms by (simp add: strncpy_def plain_def cstr_append_cstr)
  show ?thesis unfolding copy_quoted_def t by (simp add: padd_append 1 2 3 4)
qed

lemma takeWhile_isdigit_quote: "takeWhile isdigit (u @ DQUOTE # r) = takeWhile isdigit u"
  by (induction u) (auto simp: isdigit_def DQUOTE_def)

lemma dropWhile_space_quote: "dropWhile isspace (u @ DQUOTE # r) = dropWhile isspace u @ DQUOTE # r"
  by (induction u) (auto simp: isspace_def DQUOTE_def)

lemma scan_int_quote: "scan_int (v @ DQUOTE # r) = scan_int v"
proof -
  obtain u where u: "dropWhile isspace v = u" by simp
  show ?thesis
  proof (cases u)
    case Nil
    then have "dropWhile isspace v = []" "dropWhile isspace (v @ DQUOTE # r) = DQUOTE # r"
      using u by (simp_all only: dropWhile_space_quote append_Nil)
    then show ?thesis by (simp only: scan_int_def) (simp add: split_sign_def isdigit_def DQUOTE_def)
  next
    case (Cons c w)
    then have "dropWhile isspace v = c # w" "dropWhile isspace (v @ DQUOTE # r) = c # w @ DQUOTE # r"
      using u by (simp_all only: dropWhile_space_quote append_Cons)
    then show ?thesis using takeWhile_isdigit_quote[of "c # w" r] takeWhile_isdigit_quote[of w r]
      by (simp only: scan_int_def) (simp add: split_sign_def Let_def)
  qed
qed

lemma scan_quoted_value:
  assumes "plain v" "NUL \<in> set r"
  shows "scan_quoted (jkey k @ quoted v @ r) (length (jkey k)) old = sscanf_d v old"
proof -
  let ?t = "DQUOTE # v @ DQUOTE # r"
  have t: "quoted v @ r = ?t" by (simp add: quoted_def)
  have 1: "strchr ?t DQUOTE = Some (Some ?t)" using strchr_quote[of "[]" "v @ DQUOTE # r"] assms by (auto simp: plain_def)
  have 2: "padd ?t (Suc 0) = Some (v @ DQUOTE # r)" using padd_append[of "[DQUOTE]"] by simp
  have 3: "str_of (v @ DQUOTE # r) = Some (v @ DQUOTE # cstr r)"
    using assms by (simp add: str_of_def cstr_append_cstr plain_def) (simp add: cstr_def char_names)
  show ?thesis unfolding scan_quoted_def t by (simp add: padd_append 1 2 3 sscanf_d_def scan_int_quote)
qed

section \<open>Lists of tokens\<close>

lemma tokens_shrink:
  assumes "dropWhile d s \<noteq> []"
  shows "length (dropWhile (\<lambda>c. \<not> d c) (dropWhile d s)) < length s"
proof -
  obtain c cs where c: "dropWhile d s = c # cs" "\<not> d c" using assms hd_dropWhile[OF assms] by (cases "dropWhile d s") auto
  have "length (dropWhile (\<lambda>c. \<not> d c) cs) \<le> length cs" by (rule length_dropWhile_le)
  also have "\<dots> < length (dropWhile d s)" by (simp add: c)
  also have "\<dots> \<le> length s" by (rule length_dropWhile_le)
  finally show ?thesis using c by simp
qed

function tokens :: "(char \<Rightarrow> bool) \<Rightarrow> string \<Rightarrow> string list" where
  "tokens d s = (let s1 = dropWhile d s in
     if s1 = [] then [] else takeWhile (\<lambda>c. \<not> d c) s1 # tokens d (dropWhile (\<lambda>c. \<not> d c) s1))"
  by auto

termination
  by (relation "measure (\<lambda>(d, s). length s)") (auto simp: tokens_shrink)

declare tokens.simps [simp del]

lemma tokens_Nil [simp]: "tokens d [] = []"
  by (simp add: tokens.simps)

lemma tokens_delim: "d c \<Longrightarrow> tokens d (c # cs) = tokens d cs"
  by (subst (1 2) tokens.simps) simp

lemma tokens_tl: "tokens d (tl (dropWhile (\<lambda>c. \<not> d c) s)) = tokens d (dropWhile (\<lambda>c. \<not> d c) s)"
proof (cases "dropWhile (\<lambda>c. \<not> d c) s")
  case (Cons c cs)
  then have "d c" using hd_dropWhile[of "\<lambda>c. \<not> d c" s] by simp
  with Cons show ?thesis by (simp add: tokens_delim)
next
  case Nil
  then show ?thesis by (simp only: list.sel)
qed

lemma tokens_none: "dropWhile d s = [] \<Longrightarrow> tokens d s = []"
  by (subst tokens.simps) simp

lemma tokens_some: "dropWhile d s \<noteq> [] \<Longrightarrow>
    tokens d s = takeWhile (\<lambda>c. \<not> d c) (dropWhile d s) # tokens d (dropWhile (\<lambda>c. \<not> d c) (dropWhile d s))"
  by (subst tokens.simps) (simp only: Let_def if_False)

lemma tokens_chars: "t \<in> set (tokens d s) \<Longrightarrow> set t \<subseteq> set s"
proof (induction d s rule: tokens.induct)
  case (1 d s)
  show ?case
  proof (cases "dropWhile d s = []")
    case True
    with "1.prems" show ?thesis by (simp only: tokens_none) simp
  next
    case False
    have "t = takeWhile (\<lambda>c. \<not> d c) (dropWhile d s) \<or> t \<in> set (tokens d (dropWhile (\<lambda>c. \<not> d c) (dropWhile d s)))"
      using "1.prems" tokens_some[OF False] by simp
    moreover have "set (takeWhile (\<lambda>c. \<not> d c) (dropWhile d s)) \<subseteq> set s"
      "set (dropWhile (\<lambda>c. \<not> d c) (dropWhile d s)) \<subseteq> set s"
      by (meson set_takeWhileD set_dropWhileD subsetI)+
    ultimately show ?thesis using "1.IH"[OF refl False] by fastforce
  qed
qed

definition first_token :: "(char \<Rightarrow> bool) \<Rightarrow> string \<Rightarrow> string" where
  "first_token d s = takeWhile d s @ takeWhile (\<lambda>c. \<not> d c) (dropWhile d s)"

lemma strtok_end:
  "str_of (drop pos buf) = Some s \<Longrightarrow> tokens d s = [] \<Longrightarrow> \<exists>q. strtok d buf pos = Some (None, buf, q)"
  by (subst (asm) tokens.simps) (auto simp: strtok_def Let_def split: if_splits)

lemma strtok_token:
  assumes s: "str_of (drop pos buf) = Some s" and ne: "dropWhile d s \<noteq> []"
  defines "tok \<equiv> takeWhile (\<lambda>c. \<not> d c) (dropWhile d s)" and "rest \<equiv> dropWhile (\<lambda>c. \<not> d c) (dropWhile d s)"
  obtains buf' pos' where "strtok d buf pos = Some (Some tok, buf', pos')"
    "str_of (drop pos' buf') = Some (tl rest)" "length buf' = length buf" "pos \<le> pos'"
    "take pos buf' = take pos buf"
    "(rest = [] \<and> buf' = buf) \<or> take pos' buf' = take pos buf @ first_token d s @ [NUL]"
proof -
  from str_of_SomeD[OF s] obtain r where r: "drop pos buf = s @ NUL # r" and nul: "NUL \<notin> set s" by blast
  define b0 lead where "b0 = take pos buf" and "lead = takeWhile d s"
  have "pos < length buf" using r by (cases "pos < length buf") auto
  then have lb: "length b0 = pos" by (simp add: b0_def)
  have s_split: "s = lead @ tok @ rest" by (simp add: lead_def tok_def rest_def)
  have buf: "buf = b0 @ lead @ tok @ rest @ NUL # r"
    using append_take_drop_id[of pos buf] r s_split by (simp add: b0_def)
  have d1: "dropWhile d s = tok @ rest" by (simp add: tok_def rest_def)
  have t1: "takeWhile (\<lambda>c. \<not> d c) (tok @ rest) = tok" using d1 tok_def by metis
  have n1: "tok @ rest \<noteq> []" using ne d1 by simp
  have l1: "length s - length (tok @ rest) = length lead" using s_split by simp
  have st: "strtok d buf pos = Some (if length tok < length (tok @ rest)
      then (Some tok, buf[pos + length lead + length tok := NUL], pos + length lead + length tok + 1)
      else (Some tok, buf, pos + length lead + length tok))"
    by (simp only: strtok_def s Let_def d1 t1 l1 n1 bind.bind_lunit if_False)
  show thesis
  proof (cases rest)
    case Nil
    then have 1: "strtok d buf pos = Some (Some tok, buf, pos + length lead + length tok)"
      using st by simp
    have 2: "drop (pos + length lead + length tok) buf = [] @ NUL # r"
      by (subst buf) (simp add: lb [symmetric] Nil)
    have 3: "str_of (drop (pos + length lead + length tok) buf) = Some (tl rest)"
      unfolding 2 Nil by (simp add: str_of_def cstr_def)
    show thesis by (rule that[OF 1 3]) (simp_all add: Nil)
  next
    case (Cons c cs)
    let ?e = "pos + length lead + length tok"
    have b': "buf[?e := NUL] = b0 @ lead @ tok @ NUL # cs @ NUL # r"
      using Cons lb by (subst buf) (simp add: list_update_append)
    have 1: "strtok d buf pos = Some (Some tok, buf[?e := NUL], ?e + 1)"
      using st Cons by simp
    have 2: "str_of (drop (?e + 1) (buf[?e := NUL])) = Some (tl rest)"
      unfolding b' using Cons lb s_split nul str_of_append[of cs r] by simp
    have 3: "take (?e + 1) (buf[?e := NUL]) = take pos buf @ first_token d s @ [NUL]"
      unfolding b' using lb by (simp add: b0_def first_token_def tok_def lead_def)
    show thesis by (rule that[OF 1 2]) (simp_all add: 3 del: One_nat_def)
  qed
qed

fun write_rows :: "nat \<Rightarrow> string list \<Rightarrow> cbuf \<Rightarrow> cbuf option" where
  "write_rows i [] rows = Some rows"
| "write_rows i (t # ts) rows = do { (_, rows) \<leftarrow> sprintf_at rows (8 * i) t; write_rows (Suc i) ts rows }"

lemma token_rows_spec:
  "str_of (drop pos lst) = Some s \<Longrightarrow> write_rows i (tokens list_delim s) rows = Some rows' \<Longrightarrow>
   \<exists>lst'. token_rows lst pos i rows = Some (i + length (tokens list_delim s), lst', rows') \<and>
     length lst' = length lst \<and> take pos lst' = take pos lst \<and> (tokens list_delim s = [] \<longrightarrow> lst' = lst)"
proof (induction lst pos i rows arbitrary: s rule: token_rows.induct)
  case (1 lst pos i rows)
  let ?d = list_delim
  show ?case
  proof (cases "dropWhile ?d s = []")
    case True
    then have t: "tokens ?d s = []" by (rule tokens_none)
    from strtok_end[OF "1.prems"(1) t] obtain q where "strtok ?d lst pos = Some (None, lst, q)" ..
    with t "1.prems"(2) show ?thesis by (subst token_rows.simps) auto
  next
    case False
    define tok rest where "tok = takeWhile (\<lambda>c. \<not> ?d c) (dropWhile ?d s)" and "rest = dropWhile (\<lambda>c. \<not> ?d c) (dropWhile ?d s)"
    have toks: "tokens ?d s = tok # tokens ?d (tl rest)"
      unfolding rest_def tokens_tl tok_def by (rule tokens_some[OF False])
    from strtok_token[OF "1.prems"(1) False] obtain l1 p1 where
      st: "strtok ?d lst pos = Some (Some tok, l1, p1)" "str_of (drop p1 l1) = Some (tl rest)" "length l1 = length lst"
        "pos \<le> p1" "take pos l1 = take pos lst"
      unfolding tok_def rest_def by metis
    from "1.prems"(2) toks obtain q rows1 where
      w: "sprintf_at rows (8 * i) tok = Some (q, rows1)" "write_rows (Suc i) (tokens ?d (tl rest)) rows1 = Some rows'"
      by (auto simp: bind_eq_Some_conv)
    have "\<exists>lst'. token_rows l1 p1 (Suc i) rows1 = Some (Suc i + length (tokens ?d (tl rest)), lst', rows') \<and>
       length lst' = length l1 \<and> take p1 lst' = take p1 l1 \<and> (tokens ?d (tl rest) = [] \<longrightarrow> lst' = l1)"
      by (rule "1.IH"[OF st(1) refl refl refl w(1) refl st(2) w(2)])
    then obtain lst' where l: "token_rows l1 p1 (Suc i) rows1 = Some (Suc i + length (tokens ?d (tl rest)), lst', rows')"
       "length lst' = length l1" "take p1 lst' = take p1 l1" by blast
    have "take pos lst' = take pos lst"
      using l(3) st(4,5) by (metis min.absorb1 take_take)
    with l st w show ?thesis using toks by (subst token_rows.simps) auto
  qed
qed

text \<open>The rows hold the tokens when all but the last have less than eight characters.\<close>

definition rows_fit :: "nat \<Rightarrow> string list \<Rightarrow> nat \<Rightarrow> bool" where
  "rows_fit i ts n \<longleftrightarrow> list_all (\<lambda>t. length t < 8) (butlast ts) \<and>
     (ts \<noteq> [] \<longrightarrow> 8 * (i + length ts - 1) + length (last ts) < n)"

lemma write_rows_spec:
  "rows_fit i ts (length rows) \<Longrightarrow> list_all (\<lambda>t. NUL \<notin> set t) ts \<Longrightarrow>
   \<exists>rows'. write_rows i ts rows = Some rows' \<and> length rows' = length rows \<and> take (8 * i) rows' = take (8 * i) rows \<and>
     (\<forall>j < length ts. str_of (drop (8 * (i + j)) rows') = Some (ts ! j))"
proof (induction ts arbitrary: i rows)
  case (Cons t ts)
  have lt: "8 * i + length t < length rows"
    using Cons.prems(1) by (cases ts) (auto simp: rows_fit_def)
  define r1 where "r1 = take (8 * i) rows @ t @ NUL # drop (8 * i + length t + 1) rows"
  have w: "sprintf_at rows (8 * i) t = Some (8 * i + length t, r1)" using lt by (simp add: sprintf_at_def r1_def)
  have l1: "length r1 = length rows" using lt by (simp add: r1_def)
  have t0: "NUL \<notin> set t" using Cons.prems by simp
  show ?case
  proof (cases "ts = []")
    case True
    have "str_of (drop (8 * i) r1) = Some t" using lt str_of_append[OF t0] by (simp add: r1_def)
    then show ?thesis using True w l1 lt by (auto simp: r1_def)
  next
    case False
    have "rows_fit (Suc i) ts (length r1)" "list_all (\<lambda>t. NUL \<notin> set t) ts"
      using Cons.prems False by (auto simp: rows_fit_def l1)
    from Cons.IH[OF this] obtain rows' where r': "write_rows (Suc i) ts r1 = Some rows'" "length rows' = length r1"
      "take (8 * Suc i) rows' = take (8 * Suc i) r1" "\<forall>j < length ts. str_of (drop (8 * (Suc i + j)) rows') = Some (ts ! j)"
      by blast
    have t8: "length t < 8" using Cons.prems(1) False by (simp add: rows_fit_def)
    have pre: "take (8 * i) rows' = take (8 * i) rows"
    proof -
      have "take (8 * i) rows' = take (8 * i) (take (8 * Suc i) rows')" by simp
      also have "\<dots> = take (8 * i) r1" unfolding r'(3) by simp
      finally show ?thesis using lt by (simp add: r1_def)
    qed
    have "take 8 (drop (8 * i) rows') = take 8 (drop (8 * i) r1)"
      using r'(3) by (simp add: take_drop add.commute)
    also have "drop (8 * i) r1 = t @ NUL # drop (8 * i + length t + 1) rows" using lt by (simp add: r1_def)
    also have "take 8 \<dots> = t @ NUL # take (7 - length t) (drop (8 * i + length t + 1) rows)"
      using t8 by (simp add: take_Cons' )
    finally have "drop (8 * i) rows' = (t @ NUL # take (7 - length t) (drop (8 * i + length t + 1) rows)) @ drop 8 (drop (8 * i) rows')"
      by (metis append_take_drop_id)
    then have "str_of (drop (8 * i) rows') = Some t" using str_of_append[OF t0] by simp
    then have "\<forall>j < length (t # ts). str_of (drop (8 * (i + j)) rows') = Some ((t # ts) ! j)"
      using r'(4) by (auto simp: less_Suc_eq_0_disj add.left_commute)
    then show ?thesis using w r' l1 pre by auto
  qed
qed auto

text \<open>A list member is stored when its characters fit the field and its tokens the rows.\<close>

definition list_fits :: "nat \<Rightarrow> string \<Rightarrow> bool" where
  "list_fits n v \<longleftrightarrow> length v < n \<and> rows_fit 0 (tokens list_delim v) 64"

definition holds_list :: "string \<Rightarrow> cbuf \<Rightarrow> multi_str \<Rightarrow> bool" where
  "holds_list v lst m \<longleftrightarrow> cstr lst = first_token list_delim v \<and> ms_count m = int (length (tokens list_delim v)) \<and>
     map (\<lambda>i. cstr (drop (8 * i) (ms_data m))) [0..<length (tokens list_delim v)] = tokens list_delim v"

lemma rows_of_value:
  assumes v: "NUL \<notin> set v" and fits: "list_fits n v" and m: "length (ms_data m) = 64"
  shows "\<exists>lst m'. rows_of (v @ drop (length v) (zeros n)) m = Some (lst, m') \<and> holds_list v lst m' \<and>
    print_rows m' = Some () \<and> length lst = n \<and> length (ms_data m') = 64"
proof -
  let ?d = list_delim
  let ?lst = "v @ drop (length v) (zeros n)"
  have lt: "length v < n" using fits by (simp add: list_fits_def)
  then have z: "drop (length v) (zeros n) = NUL # zeros (n - length v - 1)"
    by (cases "n - length v") (auto simp: zeros_def)
  have s: "str_of (drop 0 ?lst) = Some v" using z str_of_append[OF v] by simp
  have "rows_fit 0 (tokens ?d v) (length (ms_data m))" using fits m by (simp add: list_fits_def)
  moreover have "list_all (\<lambda>t. NUL \<notin> set t) (tokens ?d v)" using tokens_chars[of _ ?d v] v by (auto simp: list_all_iff)
  ultimately obtain rows where r: "write_rows 0 (tokens ?d v) (ms_data m) = Some rows" "length rows = 64"
    "\<forall>j < length (tokens ?d v). str_of (drop (8 * j) rows) = Some (tokens ?d v ! j)"
    using write_rows_spec[of 0 "tokens ?d v" "ms_data m"] m by auto
  obtain lst where l: "token_rows ?lst 0 0 (ms_data m) = Some (length (tokens ?d v), lst, rows)" "length lst = length ?lst"
     "cstr lst = first_token ?d v"
  proof (cases "dropWhile ?d v = []")
    case True
    then have "tokens ?d v = []" by (rule tokens_none)
    moreover have "first_token ?d v = v" using True by (metis append_Nil2 first_token_def takeWhile.simps(1) takeWhile_dropWhile_id)
    ultimately show thesis using that token_rows_spec[OF s r(1)] cstr_append[OF v] z by auto
  next
    case False
    define tok rest where "tok = takeWhile (\<lambda>c. \<not> ?d c) (dropWhile ?d v)" and "rest = dropWhile (\<lambda>c. \<not> ?d c) (dropWhile ?d v)"
    have toks: "tokens ?d v = tok # tokens ?d (tl rest)"
      unfolding rest_def tokens_tl tok_def by (rule tokens_some[OF False])
    obtain l1 p1 where st: "strtok ?d ?lst 0 = Some (Some tok, l1, p1)" "str_of (drop p1 l1) = Some (tl rest)"
        "length l1 = length ?lst" "(rest = [] \<and> l1 = ?lst) \<or> take p1 l1 = first_token ?d v @ [NUL]"
      using strtok_token[OF s False] unfolding tok_def rest_def by (metis append_Nil take0)
    from r(1) toks obtain q rows1 where w: "sprintf_at (ms_data m) (8 * 0) tok = Some (q, rows1)"
        "write_rows (Suc 0) (tokens ?d (tl rest)) rows1 = Some rows" by (auto simp: bind_eq_Some_conv)
    from token_rows_spec[OF st(2) w(2)] obtain lst' where
      l: "token_rows l1 p1 (Suc 0) rows1 = Some (Suc 0 + length (tokens ?d (tl rest)), lst', rows)"
       "length lst' = length l1" "take p1 lst' = take p1 l1" "tokens ?d (tl rest) = [] \<longrightarrow> lst' = l1" by blast
    have "token_rows ?lst 0 0 (ms_data m) = Some (length (tokens ?d v), lst', rows)"
      using st(1) w(1) l(1) toks by (subst token_rows.simps) simp
    moreover have "cstr lst' = first_token ?d v"
      using st(4)
    proof
      assume r: "rest = [] \<and> l1 = ?lst"
      then have "lst' = ?lst" using l(4) by simp
      moreover have "first_token ?d v = v" using r
        by (metis append_Nil2 first_token_def rest_def takeWhile_dropWhile_id)
      ultimately show ?thesis using cstr_append[OF v] z by simp
    next
      assume "take p1 l1 = first_token ?d v @ [NUL]"
      then have "lst' = first_token ?d v @ NUL # drop p1 lst'" using l(3) append_take_drop_id[of p1 lst'] by simp
      moreover have "NUL \<notin> set (first_token ?d v)"
        using v by (auto simp: first_token_def dest!: set_takeWhileD set_dropWhileD)
      ultimately show ?thesis by (metis cstr_append)
    qed
    ultimately show thesis using that l(2) st(3) by simp
  qed
  let ?m = "\<lparr> ms_count = int (length (tokens ?d v)), ms_data = rows \<rparr>"
  have c: "cstr (drop (8 * j) rows) = tokens ?d v ! j" "str_of (drop (8 * j) rows) \<noteq> None" "8 * j \<le> length rows"
    if "j < length (tokens ?d v)" for j
  proof -
    have e: "str_of (drop (8 * j) rows) = Some (tokens ?d v ! j)" using r(3) that by blast
    then show "cstr (drop (8 * j) rows) = tokens ?d v ! j" "str_of (drop (8 * j) rows) \<noteq> None"
      by (auto simp: str_of_def split: if_splits)
    from e show "8 * j \<le> length rows" by (cases "8 * j \<le> length rows") (auto simp: str_of_def)
  qed
  have "map (\<lambda>i. cstr (drop (8 * i) rows)) [0..<length (tokens ?d v)] = tokens ?d v"
    by (rule nth_equalityI) (auto simp: c)
  then have "holds_list v lst ?m" using l(3) by (simp add: holds_list_def)
  moreover have "print_rows ?m = Some ()" using c by (auto simp: print_rows_def list_all_iff padd_def)
  ultimately show ?thesis using l r(2) lt by (auto simp: rows_of_def zeros_def)
qed

lemma keys_ok: "key_ok ''requestHostIp''" "key_ok ''requestHostPort''" "key_ok ''requestId''" "key_ok ''objectId''"
    "key_ok ''typeList''" "key_ok ''imageNormalPath''" "key_ok ''imageList''"
  by (simp_all add: key_ok_def char_names LBRACE_def RBRACE_def)

lemma member_plain: "members_ok kvs \<Longrightarrow> map_of kvs k = Some v \<Longrightarrow> plain v"
  by (auto simp: members_ok_def list_all_iff dest!: map_of_SomeD)

lemma member_copied:
  assumes "members_ok kvs" "key_ok k" "map_of kvs k = Some v" "length v \<le> length field"
  shows "do { s \<leftarrow> strstr (object_text kvs @ NUL # z) (jkey k);
              (case s of None \<Rightarrow> h | Some st \<Rightarrow> do { f \<leftarrow> copy_quoted st (length (jkey k)) field; g f }) } =
         g (v @ drop (length v) field)"
    and "do { s \<leftarrow> strstr (object_text kvs @ NUL # z) (jkey k); st \<leftarrow> s; f \<leftarrow> copy_quoted st (length (jkey k)) field; g f } =
         g (v @ drop (length v) field)"
    and "\<exists>st. strstr (object_text kvs @ NUL # z) (jkey k) = Some (Some st) \<and>
         copy_quoted st (length (jkey k)) field = Some (v @ drop (length v) field)"
proof -
  obtain c r where r: "strstr (object_text kvs @ NUL # z) (jkey k) = Some (Some (jkey k @ quoted v @ c # r))" "NUL \<in> set (c # r)"
    using strstr_object(1)[OF assms(1,2,3), of z] by auto
  note [simp] = r(1) copy_quoted_value[OF member_plain[OF assms(1,3)] assms(4) r(2)]
  show "do { s \<leftarrow> strstr (object_text kvs @ NUL # z) (jkey k);
              (case s of None \<Rightarrow> h | Some st \<Rightarrow> do { f \<leftarrow> copy_quoted st (length (jkey k)) field; g f }) } =
         g (v @ drop (length v) field)"
    "do { s \<leftarrow> strstr (object_text kvs @ NUL # z) (jkey k); st \<leftarrow> s; f \<leftarrow> copy_quoted st (length (jkey k)) field; g f } =
         g (v @ drop (length v) field)"
    "\<exists>st. strstr (object_text kvs @ NUL # z) (jkey k) = Some (Some st) \<and>
         copy_quoted st (length (jkey k)) field = Some (v @ drop (length v) field)" by simp_all
qed

lemma member_scanned:
  assumes "members_ok kvs" "key_ok k" "map_of kvs k = Some v" "sscanf_d v old = Some x"
  shows "do { s \<leftarrow> strstr (object_text kvs @ NUL # z) (jkey k); st \<leftarrow> s; n \<leftarrow> scan_quoted st (length (jkey k)) old; g n } = g x"
proof -
  obtain c r where r: "strstr (object_text kvs @ NUL # z) (jkey k) = Some (Some (jkey k @ quoted v @ c # r))" "NUL \<in> set (c # r)"
    using strstr_object(1)[OF assms(1,2,3), of z] by auto
  then show ?thesis using scan_quoted_value[OF member_plain[OF assms(1,3)] r(2)] assms(4) by simp
qed

lemma field_text:
  assumes "plain v" "length v < n"
  shows "str_of (v @ drop (length v) (zeros n)) = Some v" "cstr (v @ drop (length v) (zeros n)) = v"
proof -
  have "drop (length v) (zeros n) = NUL # zeros (n - length v - 1)"
    using assms(2) by (cases "n - length v") (auto simp: zeros_def)
  then show "str_of (v @ drop (length v) (zeros n)) = Some v" "cstr (v @ drop (length v) (zeros n)) = v"
    using assms(1) str_of_append[of v] cstr_append[of v] by (simp_all add: plain_def)
qed

lemma field_zeros: "0 < n \<Longrightarrow> str_of (zeros n) = Some []"
  by (cases n) (auto simp: zeros_def str_of_def cstr_def)

lemma list_member:
  assumes "members_ok kvs" "map_of kvs k = Some v" "list_fits n v" "length (ms_data m) = 64"
  obtains lst m' where "rows_of (v @ drop (length v) (zeros n)) m = Some (lst, m')" "holds_list v lst m'"
    "print_rows m' = Some ()" "str_of (v @ drop (length v) (zeros n)) = Some v"
proof -
  have "plain v" by (rule member_plain[OF assms(1,2)])
  then show thesis using that rows_of_value[OF _ assms(3,4)] field_text(1)[of v n] assms(3)
    by (auto simp: list_fits_def plain_def)
qed

lemma length_zeros [simp]: "length (zeros n) = n"
  by (simp add: zeros_def)

lemma request0_fields [simp]:
  "request_host_ip request0 = zeros 16" "request_host_port request0 = 0" "request_id request0 = zeros 64"
  "object_id request0 = 0" "type_list request0 = zeros 32" "type_data request0 = multi_str0"
  "image_normal_path request0 = zeros 128" "image_normal_path_data request0 = multi_str0"
  "image_path_list request0 = zeros 128" "image_path_list_data request0 = multi_str0"
  by (simp_all add: request0_def)

lemma multi_str0_rows [simp]: "length (ms_data multi_str0) = 64" "print_rows multi_str0 = Some ()"
  by (simp_all add: print_rows_def multi_str0_def)


definition example_members :: "(string \<times> string) list" where
  "example_members = [(''requestHostIp'', ''10.0.0.9''), (''requestHostPort'', ''30000''), (''requestId'', ''q1''),
     (''objectId'', ''7''), (''typeList'', ''wcaqm,xy''), (''imageList'', ''camera_1.jpg'')]"


text \<open>
  A request that has \<^verbatim>\<open>requestHostIp\<close> but not \<^verbatim>\<open>requestHostPort\<close> makes the parser
  compute with a NULL pointer: only the first of the required members is checked.
\<close>

theorem request_without_port:
  assumes "members_ok kvs" "map_of kvs ''requestHostIp'' = Some ip" "length ip < 16"
    and "map_of kvs ''requestHostPort'' = None"
  shows "parse_post_A_content (object_text kvs @ NUL # z) request0 = None"
proof -
  have fit: "length ip \<le> length (zeros 16)" using assms(3) by simp
  show ?thesis unfolding parse_post_A_content_def request0_fields member_copied(1)[OF assms(1) keys_ok(1) assms(2) fit]
    by (simp add: strstr_object(2)[OF assms(1) keys_ok(2) assms(4)])
qed

theorem request_without_port_witness:
  "parse_post_A_content (object_text [(''requestHostIp'', ''10.0.0.9''), (''requestId'', ''q1'')] @ NUL # []) request0 = None"
proof (rule request_without_port[of _ "''10.0.0.9''"])
  show "members_ok [(''requestHostIp'', ''10.0.0.9''), (''requestId'', ''q1'')]" by code_simp
qed simp_all

end
