(* ===== verification/HttpAnswer.thy ===== *)
theory HttpAnswer
  imports HttpRequest
begin

text \<open>
  The answers of the server: the text of every message, that a notification is read back by
  the server's own \<^verbatim>\<open>check_if_post\<close>, and the room the messages need.
\<close>

section \<open>The answers\<close>

definition packet_text :: "string \<Rightarrow> int \<Rightarrow> string \<Rightarrow> string" where
  "packet_text file_name n body = ''POST '' @ file_name @ '' HTTP/1.1'' @ CRLF @ ''HOST: 10.106.249.210:8080'' @ CRLF @
     ''Content-Type: application/json'' @ CRLF @ ''Content-Length: '' @ int_dec n @ CRLF @ CRLF @ body"

lemma build_callback_packet_text:
  "str_of content = Some body \<Longrightarrow>
   build_callback_packet buf content n file_name = sprintf_at buf 0 (packet_text file_name n body)"
proof -
  assume b: "str_of content = Some body"
  have ret: "x = do { (p, q) \<leftarrow> x; Some (p, q) }" for x :: "(nat \<times> cbuf) option" by (cases x) auto
  show ?thesis unfolding build_callback_packet_def b packet_text_def
    by (subst ret, subst (2) ret) (simp only: bind.bind_lunit sprintf_seq append_assoc)
qed

lemma find_http:
  assumes "CHR '' '' \<notin> set name" "name = CHR ''/'' # name'"
  shows "find_sub '' HTTP'' (''POST '' @ name @ '' HTTP'' @ r) = Some (5 + length name)"
proof -
  have 1: "find_sub '' HTTP'' (name @ '' HTTP'' @ r) = Some (length name)"
    using find_sub_skip[OF assms(1), of "''HTTP''" "'' HTTP'' @ r"] find_sub_hit[of "'' HTTP''" r] by simp
  have "find_sub '' HTTP'' (CHR '' '' # name @ '' HTTP'' @ r) = Some (Suc (length name))"
    using 1 assms(2) by simp
  then show ?thesis
    using find_sub_skip[of "CHR '' ''" "''POST''" "''HTTP''" "CHR '' '' # name @ '' HTTP'' @ r"] by simp
qed

lemma strncpy_front:
  assumes "NUL \<notin> set s" "length s \<le> length dst" "NUL \<in> set r"
  shows "strncpy dst (s @ r) (int (length s)) = Some (s @ drop (length s) dst)"
  using assms by (simp add: strncpy_def cstr_append_cstr)

lemma check_if_post_reads:
  fixes name hdr body t z :: string
  assumes name: "CHR '' '' \<notin> set name" "name = CHR ''/'' # name'" "length name \<le> length fname"
    and nul: "NUL \<notin> set (name @ hdr @ body)" and brace: "LBRACE \<notin> set (name @ hdr)"
    and body: "body = LBRACE # mid @ [RBRACE]" "length body \<le> length content"
    and rest: "NUL \<notin> set t" "RBRACE \<notin> set t"
  shows "check_if_post (''POST '' @ name @ '' HTTP'' @ hdr @ body @ t @ NUL # z) fname content =
    Some (0, name @ drop (length name) fname, body @ drop (length body) content)"
proof -
  define msg where "msg = ''POST '' @ name @ '' HTTP'' @ hdr @ body @ t"
  let ?data = "msg @ NUL # z"
  have n0: "NUL \<notin> set msg" using nul rest(1) by (auto simp: msg_def NUL_def)
  have s: "str_of ?data = Some msg" by (rule str_of_append[OF n0])
  have 1: "strncmp_eq ?data ''POST '' = Some True"
    using cstr_append[OF n0, of z] by (simp add: strncmp_eq_def) (simp add: msg_def)
  have 2: "strstr ?data '' HTTP'' = Some (Some ('' HTTP'' @ hdr @ body @ t @ NUL # z))"
    using s find_http[OF name(1,2), of "hdr @ body @ t"] by (simp add: strstr_def msg_def)
  have p: "padd ?data 5 = Some (name @ '' HTTP'' @ hdr @ body @ t @ NUL # z)"
    by (simp add: padd_def msg_def)
  have d: "pdiff ('' HTTP'' @ hdr @ body @ t @ NUL # z) ?data - 5 = int (length name)" by (simp add: pdiff_def msg_def)
  have 3: "strncpy fname (name @ '' HTTP'' @ hdr @ body @ t @ NUL # z) (int (length name)) = Some (name @ drop (length name) fname)"
    using nul by (intro strncpy_front name(3)) auto
  define front where "front = ''POST '' @ name @ '' HTTP'' @ hdr"
  have tf: "msg = front @ LBRACE # mid @ RBRACE # t" by (simp add: msg_def front_def body)
  have fb: "LBRACE \<notin> set front" using brace by (auto simp: front_def LBRACE_def)
  have 4: "strchr ?data LBRACE = Some (Some (body @ t @ NUL # z))"
    using s find_chr_append[OF fb, of "mid @ RBRACE # t"] by (simp add: strchr_def tf body)
  have 5: "strrchr ?data RBRACE = Some (Some (RBRACE # t @ NUL # z))"
    using s find_last_append[OF rest(2), of "front @ LBRACE # mid"] by (simp add: strrchr_def tf)
  have e: "pdiff (RBRACE # t @ NUL # z) (body @ t @ NUL # z) + 1 = int (length body)" by (simp add: pdiff_def body)
  have 6: "strncpy content (body @ t @ NUL # z) (int (length body)) = Some (body @ drop (length body) content)"
    using nul by (intro strncpy_front body(2)) auto
  have "check_if_post ?data fname content = Some (0, name @ drop (length name) fname, body @ drop (length body) content)"
    unfolding check_if_post_def by (simp only: 1 2 p d 3 4 5 e 6 bind.bind_lunit if_True option.case prod.case)
  then show ?thesis by (simp add: msg_def)
qed

lemma nat_dec_chars: "c \<in> set (nat_dec n) \<Longrightarrow> c \<noteq> NUL \<and> c \<noteq> LBRACE"
  using nat_dec_digits[of n] by (auto simp: digit_val_def NUL_def LBRACE_def Let_def)

definition notify_path :: string where
  "notify_path = ''/platform/api/v1/task/results/pic-result-notify''"

theorem callback_packet_roundtrip:
  assumes body: "content = body @ NUL # z" "length content = 512" "body = LBRACE # mid @ [RBRACE]" "NUL \<notin> set body"
    and buf: "length buf = 1024"
  shows "\<exists>n buf'. build_callback_packet buf content (int (length body)) notify_path = Some (n, buf') \<and>
     n = length (packet_text notify_path (int (length body)) body) \<and> n < 1024 \<and> length buf' = 1024 \<and>
     check_if_post buf' (zeros 128) (zeros 512) =
       Some (0, notify_path @ zeros (128 - length notify_path), body @ zeros (512 - length body))"
proof -
  define msg where "msg = packet_text notify_path (int (length body)) body"
  define hdr where "hdr = ''/1.1'' @ CRLF @ ''HOST: 10.106.249.210:8080'' @ CRLF @
     ''Content-Type: application/json'' @ CRLF @ ''Content-Length: '' @ nat_dec (length body) @ CRLF @ CRLF"
  have lb: "length body < 512" using body(1,2) by simp
  have t: "msg = ''POST '' @ notify_path @ '' HTTP'' @ hdr @ body"
    by (simp add: msg_def packet_text_def hdr_def int_dec_nat)
  have lh: "length hdr \<le> 93" using length_nat_dec_3[of "length body"] lb by (simp add: hdr_def CRLF_def)
  have np: "CHR '' '' \<notin> set notify_path" "length notify_path = 47" "NUL \<notin> set notify_path" "LBRACE \<notin> set notify_path"
    "\<exists>p. notify_path = CHR ''/'' # p" by (simp_all add: notify_path_def NUL_def LBRACE_def)
  have lt: "length msg < 1024" using lh lb np(2) by (simp add: t)
  have w: "build_callback_packet buf content (int (length body)) notify_path =
      Some (length msg, msg @ NUL # drop (length msg + 1) buf)"
    using build_callback_packet_text[of content body] str_of_append[OF body(4), of z] lt buf body(1)
    by (simp add: msg_def sprintf_at_def)
  have hn: "NUL \<notin> set hdr" "LBRACE \<notin> set hdr"
    using nat_dec_chars[of _ "length body"] by (auto simp: hdr_def CRLF_def NUL_def LBRACE_def LF_def)
  obtain p where p: "notify_path = CHR ''/'' # p" using np(5) by blast
  have "check_if_post (''POST '' @ notify_path @ '' HTTP'' @ hdr @ body @ NUL # drop (length msg + 1) buf) (zeros 128) (zeros 512) =
      Some (0, notify_path @ drop (length notify_path) (zeros 128), body @ drop (length body) (zeros 512))"
    using np hn body(4) lb by (intro check_if_post_reads[OF np(1) p _ _ _ body(3), where t = "[]", unfolded append_Nil]) auto
  then show ?thesis using w lt buf by (simp add: msg_def[symmetric] t[symmetric] zeros_def) (simp add: t)
qed

definition status_line :: "int \<Rightarrow> string" where
  "status_line e = ''HTTP/1.1 '' @ int_dec e @ '' '' @
     (if e = 200 then ''OK''
      else if e = 400 then ''The client request has a syntax error, cannot be understood by the server.''
      else ''The service side is abnormal.'') @ CRLF"

definition status_body :: "int \<Rightarrow> string" where
  "status_body e = ''{'' @ jkey ''code'' @ quoted (int_dec e) @ ''}''"

lemma build_error_callback_text:
  "e \<in> {200, 400, 500} \<Longrightarrow>
   build_error_callback buf e = do { (n, b) \<leftarrow> sprintf_at buf 0 (status_line e @ ''Content-type: application/json'' @ CRLF @
     ''Content-length: 14'' @ CRLF @ [LF] @ status_body e); Some (int n, b) }"
  unfolding build_error_callback_def status_line_def status_body_def
  by (auto simp only: insert_iff empty_iff simp_thms if_True sprintf_seq append_assoc append.simps)

text \<open>
  The answer for each of the three status codes fits the buffer, its
  \<^verbatim>\<open>Content-length\<close> is the length of its body, and \<^verbatim>\<open>check_if_post\<close> recognises it as an answer.
\<close>

theorem error_callback_well_formed:
  assumes "e \<in> {200, 400, 500}" "length buf = 1024"
  shows "\<exists>n buf' body. build_error_callback buf e = Some (int n, buf') \<and> n < 1024 \<and>
    cstr buf' = status_line e @ ''Content-type: application/json'' @ CRLF @ ''Content-length: '' @ nat_dec (length body) @ CRLF @ [LF] @ body \<and>
    n = length (cstr buf') \<and> body = status_body e \<and> (\<forall>f c. check_if_post buf' f c = Some (2, f, c))"
proof -
  define msg where "msg = status_line e @ ''Content-type: application/json'' @ CRLF @ ''Content-length: 14'' @ CRLF @ [LF] @ status_body e"
  have i: "int_dec e \<in> {''200'', ''400'', ''500''}"
  proof -
    have "int_dec 200 = ''200''" "int_dec 400 = ''400''" "int_dec 500 = ''500''" by code_simp+
    then show ?thesis using assms(1) by auto
  qed
  have l: "length (status_body e) = 14" using i by (auto simp: status_body_def jkey_eq quoted_def)
  have m: "msg = status_line e @ ''Content-type: application/json'' @ CRLF @ ''Content-length: '' @ nat_dec (length (status_body e)) @ CRLF @ [LF] @ status_body e"
  proof -
    have "nat_dec 14 = ''14''" by code_simp
    then show ?thesis unfolding msg_def l by simp
  qed
  have lt: "length msg < 1024" using i l by (auto simp: msg_def status_line_def CRLF_def)
  have n0: "NUL \<notin> set msg" using i by (auto simp: msg_def status_line_def status_body_def jkey_eq quoted_def CRLF_def char_names)
  have b: "build_error_callback buf e = Some (int (length msg), msg @ NUL # drop (length msg + 1) buf)"
    unfolding build_error_callback_text[OF assms(1), folded msg_def] using lt assms(2)
    by (simp add: sprintf_at_0)
  have c: "cstr (msg @ NUL # drop (length msg + 1) buf) = msg" by (rule cstr_append[OF n0])
  have pre: "take 5 msg = ''HTTP/''" by (simp add: msg_def status_line_def)
  then have "take 5 msg \<noteq> ''POST ''" by simp
  then have "check_if_post (msg @ NUL # drop (length msg + 1) buf) f g = Some (2, f, g)" for f g
    using c pre by (simp add: check_if_post_def strncmp_eq_def numeral_eq_Suc)
  then show ?thesis using b c lt m by (intro exI[of _ "length msg"]) auto
qed

theorem error_callback_well_formed_witness:
  "(200::int) \<in> {200, 400, 500} \<and> length (zeros 1024) = 1024 \<and>
   (\<exists>n buf' body. build_error_callback (zeros 1024) 200 = Some (int n, buf') \<and> n < 1024 \<and>
    cstr buf' = status_line 200 @ ''Content-type: application/json'' @ CRLF @ ''Content-length: '' @ nat_dec (length body) @ CRLF @ [LF] @ body \<and>
    n = length (cstr buf') \<and> body = status_body 200 \<and> (\<forall>f c. check_if_post buf' f c = Some (2, f, c)))"
  using error_callback_well_formed[of 200 "zeros 1024"] by simp

text \<open>
  A request line without a path gives \<^verbatim>\<open>strncpy\<close> a negative length: undefined,
  whatever follows and whatever the buffers.
\<close>

theorem post_without_path: "check_if_post (''POST HTTP'' @ rest @ [NUL]) fname content = None"
proof -
  let ?p = "''POST HTTP'' @ rest @ [NUL]"
  have c: "cstr ?p = ''POST HTTP'' @ cstr (rest @ [NUL])"
    by (rule cstr_append_cstr) (simp add: NUL_def)
  then have s: "str_of ?p = Some (''POST HTTP'' @ cstr (rest @ [NUL]))"
    by (simp add: str_of_def)
  have "strstr ?p '' HTTP'' = Some (Some (drop 4 ?p))"
    using s find_sub_skip[of "CHR '' ''" "''POST''" "''HTTP''" "'' HTTP'' @ cstr (rest @ [NUL])"] find_sub_hit[of "'' HTTP''"]
    by (simp add: strstr_def)
  moreover have "pdiff (drop 4 ?p) ?p - 5 = -1" by (simp add: pdiff_def)
  moreover have "strncmp_eq ?p ''POST '' = Some True"
    by (simp only: strncmp_eq_def c) simp
  ultimately show ?thesis by (simp add: check_if_post_def strncpy_def padd_def)
qed

section \<open>The text of a notification\<close>

fun points_text :: "'d lf_ops \<Rightarrow> 'd Area \<Rightarrow> nat \<Rightarrow> nat \<Rightarrow> string" where
  "points_text ops a 0 j = []"
| "points_text ops a (Suc n) j = point_text ops (ar_x a ! j) (ar_y a ! j) @
     (if int (j + 1) < ar_count a then '','' else []) @ points_text ops a n (Suc j)"

fun areas_text :: "'d lf_ops \<Rightarrow> 'd result_json_t \<Rightarrow> nat \<Rightarrow> nat \<Rightarrow> string" where
  "areas_text ops J 0 i = []"
| "areas_text ops J (Suc n) i = ''{'' @ jkey ''areas'' @ ''['' @
     points_text ops (res_area J ! i) (nat (ar_count (res_area J ! i))) 0 @ '']}'' @
     (if int (i + 1) < res_count J then '','' else []) @ areas_text ops J n (Suc i)"

definition content_text :: "'d lf_ops \<Rightarrow> request_content_A_t \<Rightarrow> 'd result_json_t \<Rightarrow> string" where
  "content_text ops R J = ''{'' @ jkey ''requestId'' @ quoted (cstr (request_id R)) @ '','' @ jkey ''resultsList'' @ ''[{'' @
     jkey ''objectId'' @ quoted (int_dec (object_id R)) @ '','' @ jkey ''results'' @ ''[{'' @
     jkey ''type'' @ quoted (cstr (res_type J)) @ '','' @ jkey ''value'' @ quoted (cstr (res_value J)) @ '','' @
     jkey ''code'' @ quoted (int_dec (res_code J)) @ '','' @ jkey ''resImagePath'' @ quoted (cstr (res_image_path J)) @ '','' @
     jkey ''pos'' @ ''['' @ areas_text ops J (nat (res_count J)) 0 @ '']'' @ ''}],'' @
     jkey ''conf'' @ quoted (lf_print ops (res_conf J)) @ '','' @ jkey ''desc'' @ quoted (cstr (res_desc J)) @ ''}]'' @ ''}''"

text \<open>What the arrays of a result hold: at most 32 areas of at most four points.\<close>

definition area_ok :: "'d Area \<Rightarrow> bool" where
  "area_ok a \<longleftrightarrow> length (ar_x a) = 4 \<and> length (ar_y a) = 4 \<and> ar_count a \<le> 4"

definition result_ok :: "'d result_json_t \<Rightarrow> bool" where
  "result_ok J \<longleftrightarrow> length (res_area J) = 32 \<and> res_count J \<le> 32 \<and> list_all area_ok (res_area J) \<and>
     list_all (\<lambda>f. NUL \<in> set f) [res_type J, res_value J, res_image_path J, res_desc J]"

lemma sprintf_bind:
  "sprintf_at buf 0 w \<bind> (\<lambda>p. sprintf_at (snd p) (fst p) s \<bind> g) = sprintf_at buf 0 (w @ s) \<bind> g"
  using sprintf_seq[of buf w s "\<lambda>p b. g (p, b)"] by (simp add: case_prod_unfold)

lemmas seq_simps = bind.bind_lunit if_True if_False bind_assoc case_prod_unfold prod.collapse append_assoc append_Nil

lemma put_points_seq:
  "length (ar_x a) = 4 \<Longrightarrow> length (ar_y a) = 4 \<Longrightarrow> j + n \<le> 4 \<Longrightarrow>
   sprintf_at buf 0 w \<bind> (\<lambda>p. put_points ops a n j (snd p) (fst p) \<bind> g) =
   sprintf_at buf 0 (w @ points_text ops a n j) \<bind> g"
proof (induction n arbitrary: j w)
  case (Suc n)
  have IH: "sprintf_at buf 0 v \<bind> (\<lambda>p. put_points ops a n (Suc j) (snd p) (fst p) \<bind> g) =
     sprintf_at buf 0 (v @ points_text ops a n (Suc j)) \<bind> g" for v
    using Suc.prems by (intro Suc.IH) auto
  have get: "aget (ar_x a) j = Some (ar_x a ! j)" "aget (ar_y a) j = Some (ar_y a ! j)"
    using Suc.prems by (auto simp: aget_def)
  show ?case
    by (cases "int (j + 1) < ar_count a")
       (simp_all only: put_points.simps points_text.simps get seq_simps sprintf_bind IH)
qed simp

lemma put_areas_seq:
  "list_all area_ok (res_area J) \<Longrightarrow> i + n \<le> length (res_area J) \<Longrightarrow>
   sprintf_at buf 0 w \<bind> (\<lambda>p. put_areas ops J n i (snd p) (fst p) \<bind> g) =
   sprintf_at buf 0 (w @ areas_text ops J n i) \<bind> g"
proof (induction n arbitrary: i w)
  case (Suc n)
  let ?a = "res_area J ! i"
  have ok: "area_ok ?a" using Suc.prems by (simp add: list_all_length)
  have IH: "sprintf_at buf 0 v \<bind> (\<lambda>p. put_areas ops J n (Suc i) (snd p) (fst p) \<bind> g) =
     sprintf_at buf 0 (v @ areas_text ops J n (Suc i)) \<bind> g" for v
    using Suc.prems by (intro Suc.IH) auto
  have pts: "sprintf_at buf 0 v \<bind> (\<lambda>p. put_points ops ?a (nat (ar_count ?a)) 0 (snd p) (fst p) \<bind> h) =
     sprintf_at buf 0 (v @ points_text ops ?a (nat (ar_count ?a)) 0) \<bind> h" for v h
    using ok by (intro put_points_seq) (auto simp: area_ok_def)
  have get: "aget (res_area J) i = Some ?a" using Suc.prems by (auto simp: aget_def)
  show ?case
    by (cases "int (i + 1) < res_count J")
       (simp_all only: put_areas.simps areas_text.simps get seq_simps sprintf_bind pts IH)
qed simp

lemma build_content_text:
  assumes "result_ok J" "NUL \<in> set (request_id R)"
  shows "build_A_callback_content ops R J buf = sprintf_at buf 0 (content_text ops R J)"
proof -
  have str: "str_of (request_id R) = Some (cstr (request_id R))" "str_of (res_type J) = Some (cstr (res_type J))"
    "str_of (res_value J) = Some (cstr (res_value J))" "str_of (res_image_path J) = Some (cstr (res_image_path J))"
    "str_of (res_desc J) = Some (cstr (res_desc J))" using assms by (auto simp: result_ok_def str_of_def)
  have ar: "sprintf_at buf 0 w \<bind> (\<lambda>p. put_areas ops J (nat (res_count J)) 0 (snd p) (fst p) \<bind> g) =
     sprintf_at buf 0 (w @ areas_text ops J (nat (res_count J)) 0) \<bind> g" for w g
    using assms(1) by (intro put_areas_seq) (auto simp: result_ok_def)
  have last: "sprintf_at buf 0 w \<bind> (\<lambda>p. sprintf_at (snd p) (fst p) s) = sprintf_at buf 0 (w @ s)" for w s
    using sprintf_bind[of buf w s Some] by simp
  show ?thesis unfolding build_A_callback_content_def content_text_def
    by (simp only: str seq_simps sprintf_bind ar last)
qed

section \<open>Room for the notification\<close>

lemma length_quoted: "length (quoted s) = length s + 2" "length (jkey s) = length s + 3"
  by (simp_all add: quoted_def jkey_def)

lemma length_points_text:
  "(\<And>d. 8 \<le> length (lf_print ops d)) \<Longrightarrow> ar_count a = int (j + n) \<Longrightarrow> 32 * n \<le> length (points_text ops a n j) + 1"
proof (induction n arbitrary: j)
  case (Suc n)
  have p: "31 \<le> length (point_text ops (ar_x a ! j) (ar_y a ! j))"
    using Suc.prems(1)[of "ar_x a ! j"] Suc.prems(1)[of "ar_y a ! j"] by (simp add: point_text_def length_quoted)
  show ?case
  proof (cases n)
    case 0
    then show ?thesis using p by simp
  next
    case (Suc m)
    then show ?thesis using p Suc.IH[of "Suc j"] Suc.prems by simp
  qed
qed simp

lemma length_areas_text:
  "(\<And>d. 8 \<le> length (lf_print ops d)) \<Longrightarrow> res_count J = int (i + n) \<Longrightarrow>
   \<forall>k < n. ar_count (res_area J ! (i + k)) = 4 \<Longrightarrow> 140 * n \<le> length (areas_text ops J n i) + 1"
proof (induction n arbitrary: i)
  case (Suc n)
  have c: "ar_count (res_area J ! i) = 4" using Suc.prems(3) by (auto dest: spec[of _ 0])
  have p: "127 \<le> length (points_text ops (res_area J ! i) 4 0)"
    using length_points_text[of ops "res_area J ! i" 0 4] Suc.prems(1) c by simp
  show ?case
  proof (cases n)
    case 0
    then show ?thesis using p c by (simp add: length_quoted)
  next
    case (Suc m)
    have "\<forall>k < n. ar_count (res_area J ! (Suc i + k)) = 4" using Suc.prems(3) by (auto dest: spec[of _ "Suc _"])
    then have "140 * n \<le> length (areas_text ops J n (Suc i)) + 1" using Suc.IH[of "Suc i"] Suc.prems by simp
    then show ?thesis using p c Suc Suc.prems(2) by (simp add: length_quoted)
  qed
qed simp


lemma jkey_NUL_free: "NUL \<notin> set (jkey k) \<longleftrightarrow> NUL \<notin> set k" "NUL \<notin> set (quoted k) \<longleftrightarrow> NUL \<notin> set k"
  by (auto simp: jkey_eq quoted_def char_names)

lemma int_dec_NUL_free: "NUL \<notin> set (int_dec i)"
  using nat_dec_chars by (auto simp: int_dec_def NUL_def)

lemma points_text_NUL_free: "(\<And>d. NUL \<notin> set (lf_print ops d)) \<Longrightarrow> NUL \<notin> set (points_text ops a n j)"
  by (induction n arbitrary: j) (auto simp: point_text_def jkey_NUL_free, auto simp: NUL_def)

lemma areas_text_NUL_free: "(\<And>d. NUL \<notin> set (lf_print ops d)) \<Longrightarrow> NUL \<notin> set (areas_text ops J n i)"
  by (induction n arbitrary: i) (auto simp: points_text_NUL_free jkey_NUL_free, auto simp: NUL_def)

lemma content_text_NUL_free: "(\<And>d. NUL \<notin> set (lf_print ops d)) \<Longrightarrow> NUL \<notin> set (content_text ops R J)"
  unfolding content_text_def set_append Un_iff de_Morgan_disj jkey_NUL_free
  by (intro conjI) (simp_all add: cstr_NUL_free int_dec_NUL_free areas_text_NUL_free, simp_all add: NUL_def)

lemma content_text_braces: "\<exists>mid. content_text ops R J = LBRACE # mid @ [RBRACE]"
  by (simp add: content_text_def LBRACE_def RBRACE_def)

text \<open>
  C15. A notification that fits \<^verbatim>\<open>content\<close> always fits the packet buffer, the
  length returned is that of the text, and the server's own \<^verbatim>\<open>check_if_post\<close> takes path and content
  back out of the packet unchanged.
\<close>

theorem notification_roundtrip:
  assumes lf: "\<And>d. NUL \<notin> set (lf_print ops d)"
    and ok: "result_ok J" "NUL \<in> set (request_id R)"
    and room: "length (content_text ops R J) < 512" "length content = 512" "length buf = 1024"
  shows "\<exists>len content' n buf'.
     build_A_callback_content ops R J content = Some (len, content') \<and>
     build_callback_packet buf content' (int len) notify_path = Some (n, buf') \<and>
     n = length (cstr buf') \<and> n < 1024 \<and>
     check_if_post buf' (zeros 128) (zeros 512) =
       Some (0, notify_path @ zeros (128 - length notify_path),
                content_text ops R J @ zeros (512 - length (content_text ops R J)))"
proof -
  let ?t = "content_text ops R J"
  define content' where "content' = ?t @ NUL # drop (length ?t + 1) content"
  have c: "build_A_callback_content ops R J content = Some (length ?t, content')"
    unfolding build_content_text[OF ok] content'_def by (rule sprintf_at_0) (use room in simp)
  have n0: "NUL \<notin> set ?t" by (rule content_text_NUL_free[OF lf])
  obtain mid where mid: "?t = LBRACE # mid @ [RBRACE]" using content_text_braces by blast
  have l: "length content' = 512" using room by (simp add: content'_def)
  obtain n buf' where p: "build_callback_packet buf content' (int (length ?t)) notify_path = Some (n, buf')"
      "n = length (packet_text notify_path (int (length ?t)) ?t)" "n < 1024"
      "check_if_post buf' (zeros 128) (zeros 512) =
       Some (0, notify_path @ zeros (128 - length notify_path), ?t @ zeros (512 - length ?t))"
    using callback_packet_roundtrip[OF content'_def l mid n0 room(3)] by blast
  have "NUL \<notin> set (packet_text notify_path (int (length ?t)) ?t)"
    using n0 int_dec_NUL_free by (simp add: packet_text_def CRLF_def notify_path_def) (simp add: char_names)
  then have "n = length (cstr buf')"
    using p(1,2) build_callback_packet_text[of content' ?t] str_of_append[OF n0] cstr_append
    by (auto simp: content'_def sprintf_at_def split: if_splits)
  with c p show ?thesis by blast
qed

end
