(* ===== verification/HttpServer.thy ===== *)
theory HttpServer
  imports SelectServer HttpAnswer
begin

text \<open>
  The program of \<^verbatim>\<open>http_server/http_anlyse.c\<close>: what it does with the bytes of a client, as a
  handler of the server loop. A request is parsed and acknowledged; then the image is fetched
  by \<^verbatim>\<open>ftps_client\<close>, converted and analysed by other programs, the result file is read, the
  image is put back, and the result is sent to the host the request names.
\<close>

section \<open>Other programs and files\<close>

text \<open>\<^verbatim>\<open>fgets(log, 128, fp)\<close> until the end: did a piece contain \<^verbatim>\<open>failed\<close>?\<close>

lemma log_shrinks: "out \<noteq> [] \<Longrightarrow> fgets_chunk 127 out = (l, r, e) \<Longrightarrow> length r < length out"
  using fgets_chunk_append[of 127 out l r e] fgets_chunk_progress[of 126 out l r e] by (auto simp: numeral_eq_Suc)

function log_failed :: "string \<Rightarrow> bool" where
  "log_failed out =
     (if out = [] then False
      else (let (l, r, _) = fgets_chunk 127 out in find_sub ''failed'' (cstr l) \<noteq> None \<or> log_failed r))"
  by auto

termination
  by (relation "measure length") (auto dest: log_shrinks[OF _ sym])

declare log_failed.simps [simp del]

text \<open>The command is run again as long as its output reports a failure; only the last pipe is closed.\<close>

partial_function (option) popen_exe :: "env \<Rightarrow> string \<Rightarrow> trace \<Rightarrow> (int \<times> trace) option" where
  "popen_exe env cmd tr =
     (let (r, tr) = sys env (Popen cmd) tr in
      if rval r < 0 then None
      else if log_failed (rdata r) then popen_exe env cmd tr
      else (let (_, tr) = sys_val env (Pclose (rval r)) tr in Some (0, tr)))"

text \<open>The block that reads an existing file.\<close>

definition read_file_1024 :: "env \<Rightarrow> string \<Rightarrow> cbuf \<Rightarrow> trace \<Rightarrow> (int \<times> cbuf \<times> trace) option" where
  "read_file_1024 env path b tr =
     (let (fp, tr) = sys_val env (Fopen path ''r'') tr in
      if fp < 0 then Some (-1, b, tr)
      else do {
        b \<leftarrow> memset0 b 1024;
        let (d, tr) = sys_fread env fp 1024 tr;
        b \<leftarrow> store_at b 0 d;
        _ \<leftarrow> str_of b;
        let (_, tr) = sys_val env (Fclose fp) tr;
        Some (0, b, tr) })"

definition read_result_json :: "env \<Rightarrow> cbuf \<Rightarrow> trace \<Rightarrow> (int \<times> cbuf \<times> trace) option" where
  "read_result_json env b tr =
     (let (a, tr) = sys_val env (Access ''/result.json'') tr in
      if a = 0 then read_file_1024 env ''/result.json'' b tr
      else let (a, tr) = sys_val env (Access ''/root/result.json'') tr in
        if a = 0 then read_file_1024 env ''/root/result.json'' b tr
        else Some (-1, b, tr))"

definition tcp_connect :: "env \<Rightarrow> string \<Rightarrow> int \<Rightarrow> trace \<Rightarrow> int \<times> trace" where
  "tcp_connect env request_ip request_post tr =
     (let (fd, tr) = sys_val env Socket tr in
      if fd < 0 then (-1, tr)
      else let (r, tr) = sys_val env (Connect fd request_ip (request_post mod 65536)) tr in
        if r < 0 then (-2, tr) else (fd, tr))"

section \<open>Serving a request\<close>

record 'd http =
  h_file :: cbuf
  h_content :: cbuf
  h_req :: request_content_A_t
  h_res :: "'d result_json_t"

definition http0 :: "'d lf_ops \<Rightarrow> 'd http" where
  "http0 ops = \<lparr> h_file = zeros 128, h_content = zeros 512, h_req = request0, h_res = result0 ops \<rparr>"

definition model_path :: string where
  "model_path = ''/root/demo/data/npu_model/detection/yolov8_onnx.npubin''"

definition get_command :: "string \<Rightarrow> string \<Rightarrow> string" where
  "get_command img host = ''/root/ftps_client get /root/image/'' @ img @ '' '' @ img @ '' '' @ host @ '' 30021 ftpUser Password@1''"

definition convert_command :: "string \<Rightarrow> string" where
  "convert_command img = ''/root/jpg2rgb /root/image/'' @ img @ '' /root/image/'' @ img @ ''.rgb''"

definition analyse_command :: "string \<Rightarrow> string \<Rightarrow> string" where
  "analyse_command img types = ''/root/demo/lenovo_alg /root/image/'' @ img @ ''.rgb '' @ model_path @ '' '' @ types"

definition put_command :: "string \<Rightarrow> string \<Rightarrow> string" where
  "put_command img host = ''/root/ftps_client put '' @ img @ ''.rgb /root/image/'' @ img @ ''.rgb '' @ host @ '' 30021 ftpUser Password@1''"

definition remove_old :: "env \<Rightarrow> string \<Rightarrow> trace \<Rightarrow> trace" where
  "remove_old env path tr =
     (let (a, tr) = sys_val env (Access path) tr in
      if a = 0 then snd (sys_val env (Remove path) tr) else tr)"

text \<open>From fetching the image to the end of the analysis.\<close>

definition analyse_image :: "env \<Rightarrow> request_content_A_t \<Rightarrow> cbuf \<Rightarrow> trace \<Rightarrow> (cbuf \<times> trace) option" where
  "analyse_image env R b tr =
     do { b \<leftarrow> memset0 b 1024;
          img \<leftarrow> str_of (image_path_list R);
          host \<leftarrow> str_of (request_host_ip R);
          (_, b) \<leftarrow> sprintf_at b 0 (get_command img host);
          (_, tr) \<leftarrow> popen_exe env (cstr b) tr;
          b \<leftarrow> memset0 b 1024;
          (_, b) \<leftarrow> sprintf_at b 0 (convert_command img);
          let (_, tr) = sys_val env (System (cstr b)) tr;
          b \<leftarrow> memset0 b 1024;
          let tr = remove_old env ''/root/result.json'' (remove_old env ''/result.json'' tr);
          types \<leftarrow> str_of (type_list R);
          (_, b) \<leftarrow> sprintf_at b 0 (analyse_command img types);
          let (_, tr) = sys_val env (System (cstr b)) tr;
          Some (b, tr) }"

text \<open>Reading the result.\<close>

definition load_result ::
    "'d lf_ops \<Rightarrow> env \<Rightarrow> request_content_A_t \<Rightarrow> 'd result_json_t \<Rightarrow> trace \<Rightarrow> ('d result_json_t \<times> trace) option" where
  "load_result ops env R J tr =
     (let (p, tr) = sys_val env (Malloc 10240) tr in
      if p < 0 then None
      else do {
        (_, json_buf, tr) \<leftarrow> read_result_json env (zeros 10240) tr;
        (_, J) \<leftarrow> parse_result_json ops json_buf R J;
        let (_, tr) = sys_val env Free tr;
        Some (J, tr) })"

text \<open>The packet sent to the host and its answer; false when the packet could not be sent.\<close>

definition exchange :: "env \<Rightarrow> int \<Rightarrow> cbuf \<Rightarrow> nat \<Rightarrow> trace \<Rightarrow> (bool \<times> cbuf \<times> trace) option" where
  "exchange env sendfd b packet_len tr =
     (let (ret, tr) = sys_val env (Send sendfd (take packet_len b)) tr in
      if ret < 0 then (let (_, tr) = sys_val env (Close sendfd) tr in Some (False, b, tr))
      else do {
        b \<leftarrow> memset0 b 1024;
        let (_, d, tr) = sys_recv env sendfd 1024 tr;
        b \<leftarrow> store_at b 0 d;
        _ \<leftarrow> str_of b;
        let (_, tr) = sys_val env (Close sendfd) tr;
        Some (True, b, tr) })"

text \<open>From putting the image back to the answer of the host.\<close>

definition notify_host ::
    "'d lf_ops \<Rightarrow> env \<Rightarrow> cbuf \<Rightarrow> 'd http \<Rightarrow> trace \<Rightarrow> (flow \<times> cbuf \<times> 'd http \<times> trace) option" where
  "notify_host ops env b h tr =
     do { b \<leftarrow> memset0 b 1024;
          img \<leftarrow> str_of (image_path_list (h_req h));
          host \<leftarrow> str_of (request_host_ip (h_req h));
          (_, b) \<leftarrow> sprintf_at b 0 (put_command img host);
          (_, tr) \<leftarrow> popen_exe env (cstr b) tr;
          b \<leftarrow> memset0 b 1024;
          (content_len, content) \<leftarrow> build_A_callback_content ops (h_req h) (h_res h) (h_content h);
          b \<leftarrow> memset0 b 1024;
          (packet_len, b) \<leftarrow> build_callback_packet b content (int content_len) notify_path;
          let (sendfd, tr) = tcp_connect env host (request_host_port (h_req h)) tr;
          (sent, b, tr) \<leftarrow> exchange env sendfd b packet_len tr;
          if \<not> sent then Some (Brk, b, h\<lparr> h_content := content \<rparr>, tr)
          else do {
            content \<leftarrow> memset0 content 512;
            b \<leftarrow> memset0 b 1024;
            Some (Fall, b, h\<lparr> h_content := content, h_res := result0 ops, h_req := request0 \<rparr>, tr) } }"

text \<open>The rest of a request without a brace in its first packet.\<close>

definition second_packet :: "env \<Rightarrow> int \<Rightarrow> cbuf \<Rightarrow> trace \<Rightarrow> (bool \<times> cbuf \<times> trace) option" where
  "second_packet env tmpfd b tr =
     do { is_one_packet \<leftarrow> strchr b LBRACE;
          (case is_one_packet of
             Some _ \<Rightarrow> Some (True, b, tr)
           | None \<Rightarrow> do {
               s \<leftarrow> str_of b;
               let (ret, d, tr) = sys_recv env tmpfd (1024 - length s) tr;
               b \<leftarrow> store_at b (length s) d;
               Some (0 \<le> ret, b, tr) }) }"

text \<open>What a message changes in \<^verbatim>\<open>request_content_A\<close>, by the result of \<^verbatim>\<open>check_if_post\<close>.\<close>

definition take_request :: "int \<Rightarrow> cbuf \<Rightarrow> cbuf \<Rightarrow> request_content_A_t \<Rightarrow> request_content_A_t option" where
  "take_request ret b content R =
     (if ret = 0 then do { (_, R) \<leftarrow> parse_post_A_content content R; Some R }
      else if ret = 2 then do { _ \<leftarrow> parse_callback_packet b; Some R }
      else Some R)"

text \<open>The acknowledgement and the work for a request.\<close>

definition serve_request ::
    "'d lf_ops \<Rightarrow> env \<Rightarrow> int \<Rightarrow> cbuf \<Rightarrow> 'd http \<Rightarrow> trace \<Rightarrow> (flow \<times> cbuf \<times> 'd http \<times> trace) option" where
  "serve_request ops env tmpfd b h tr =
     do { content \<leftarrow> memset0 (h_content h) 512;
          b \<leftarrow> memset0 b 1024;
          (len, b) \<leftarrow> build_error_callback b 200;
          let (ret, tr) = sys_val env (Send tmpfd (take (nat len) b)) tr;
          if ret < 0 then Some (Brk, b, h\<lparr> h_content := content \<rparr>, tr)
          else do {
            (b, tr) \<leftarrow> analyse_image env (h_req h) b tr;
            (J, tr) \<leftarrow> load_result ops env (h_req h) (h_res h) tr;
            notify_host ops env b (h\<lparr> h_content := content, h_res := J \<rparr>) tr } }"

definition http_handler :: "'d lf_ops \<Rightarrow> env \<Rightarrow> 'd http handler" where
  "http_handler ops env ret0 tmpfd b h tr =
     do { (ok, b, tr) \<leftarrow> second_packet env tmpfd b tr;
          if \<not> ok then Some (Ret (-1), b, h, tr)
          else do {
            _ \<leftarrow> str_of b;
            (ret, fname, content) \<leftarrow> check_if_post b (h_file h) (h_content h);
            if ret = -1 then do {
              b \<leftarrow> memset0 b 1024;
              (len, b) \<leftarrow> build_error_callback b 400;
              let (_, tr) = sys_val env (Send tmpfd (take (nat len) b)) tr;
              Some (Cont, b, h\<lparr> h_file := fname, h_content := content \<rparr>, tr) }
            else do {
              R \<leftarrow> take_request ret b content (h_req h);
              serve_request ops env tmpfd b (h\<lparr> h_file := fname, h_content := content, h_req := R \<rparr>) tr } } }"

text \<open>The configurations the \<^verbatim>\<open>main\<close> of \<^verbatim>\<open>http_anlyse.c\<close> passes through.\<close>

definition http_main :: "'d lf_ops \<Rightarrow> env \<Rightarrow> 'd http config \<Rightarrow> bool" where
  "http_main ops env = server_run env (socket_bind_listen_nb env 8080) (http_handler ops env) (Opening, table0, http0 ops, [])"

section \<open>Calls that touch no descriptor of the loop\<close>

definition quiet :: "syscall \<Rightarrow> bool" where
  "quiet c = (case c of Popen _ \<Rightarrow> True | Pclose _ \<Rightarrow> True | System _ \<Rightarrow> True | Access _ \<Rightarrow> True | Remove _ \<Rightarrow> True
     | Fopen _ _ \<Rightarrow> True | Fread _ _ \<Rightarrow> True | Fclose _ \<Rightarrow> True | Malloc _ \<Rightarrow> True | Free \<Rightarrow> True | _ \<Rightarrow> False)"

definition keeps :: "trace \<Rightarrow> trace \<Rightarrow> bool" where
  "keeps tr tr' \<longleftrightarrow> open_fds tr \<subseteq> open_fds tr' \<and> (uses_open tr \<longrightarrow> uses_open tr')"

lemma keeps_refl: "keeps tr tr"
  by (simp add: keeps_def)

lemma keeps_trans: "keeps tr tr1 \<Longrightarrow> keeps tr1 tr2 \<Longrightarrow> keeps tr tr2"
  by (auto simp: keeps_def)

lemma quiet_keeps: "quiet c \<Longrightarrow> keeps tr ((c, r) # tr)"
  by (cases c) (auto simp: keeps_def quiet_def)

lemma sys_quiet: "sys_val env c tr = (v, tr') \<Longrightarrow> quiet c \<Longrightarrow> keeps tr tr'"
  using quiet_keeps by (auto simp: sys_val_def sys_def Let_def)

section \<open>Running a command until it succeeds\<close>

text \<open>The trace after \<^verbatim>\<open>k\<close> runs of a command.\<close>

fun runs :: "env \<Rightarrow> string \<Rightarrow> nat \<Rightarrow> trace \<Rightarrow> trace" where
  "runs env cmd 0 tr = tr"
| "runs env cmd (Suc k) tr = runs env cmd k ((Popen cmd, env tr (Popen cmd)) # tr)"

lemma popen_exe_shape:
  assumes "popen_exe env cmd tr = Some y"
  shows "\<exists>k p r. fst y = 0 \<and> snd y = (Pclose p, r) # runs env cmd (Suc k) tr \<and>
    \<not> log_failed (rdata (env (runs env cmd k tr) (Popen cmd)))"
proof (rule popen_exe.raw_induct[OF _ assms])
  fix f :: "env \<Rightarrow> string \<Rightarrow> trace \<Rightarrow> (int \<times> trace) option" and env cmd tr y
  assume IH: "\<And>env cmd tr y. f env cmd tr = Some y \<Longrightarrow> \<exists>k p r. fst y = 0 \<and> snd y = (Pclose p, r) # runs env cmd (Suc k) tr \<and>
      \<not> log_failed (rdata (env (runs env cmd k tr) (Popen cmd)))"
    and step: "(let (r, tr) = sys env (Popen cmd) tr in
      if rval r < 0 then None else if log_failed (rdata r) then f env cmd tr
      else (let (_, tr) = sys_val env (Pclose (rval r)) tr in Some (0, tr))) = Some y"
  let ?tr = "(Popen cmd, env tr (Popen cmd)) # tr"
  show "\<exists>k p r. fst y = 0 \<and> snd y = (Pclose p, r) # runs env cmd (Suc k) tr \<and>
      \<not> log_failed (rdata (env (runs env cmd k tr) (Popen cmd)))"
  proof (cases "log_failed (rdata (env tr (Popen cmd)))")
    case True
    then have "f env cmd ?tr = Some y" using step by (auto simp: sys_def Let_def split: if_splits)
    from IH[OF this] obtain k p r where "fst y = 0" "snd y = (Pclose p, r) # runs env cmd (Suc k) ?tr"
      "\<not> log_failed (rdata (env (runs env cmd k ?tr) (Popen cmd)))" by blast
    then show ?thesis by (metis runs.simps(2))
  next
    case False
    then have "fst y = 0 \<and> (\<exists>p r. snd y = (Pclose p, r) # runs env cmd (Suc 0) tr)"
      using step by (auto simp: sys_def sys_val_def Let_def split: if_splits)
    with False show ?thesis by (metis runs.simps(1))
  qed
qed

lemma runs_keeps: "keeps tr (runs env cmd k tr)"
proof (induction k arbitrary: tr)
  case (Suc k)
  have "keeps tr ((Popen cmd, env tr (Popen cmd)) # tr)" by (rule quiet_keeps) (simp add: quiet_def)
  with Suc show ?case using keeps_trans by fastforce
qed (simp add: keeps_refl)

lemma popen_keeps: "popen_exe env cmd tr = Some (v, tr') \<Longrightarrow> keeps tr tr'"
proof -
  assume "popen_exe env cmd tr = Some (v, tr')"
  from popen_exe_shape[OF this] obtain k p r where t: "tr' = (Pclose p, r) # runs env cmd (Suc k) tr" by auto
  have "keeps (runs env cmd (Suc k) tr) tr'" unfolding t by (rule quiet_keeps) (simp add: quiet_def)
  with runs_keeps show ?thesis using keeps_trans by blast
qed

text \<open>
  \<^verbatim>\<open>popen_exe\<close> runs its command again until the output reports no failure and then
  returns 0; every run opens a pipe and only the last one is closed.
\<close>

theorem popen_exe_returns:
  "(\<forall>j \<le> k. 0 \<le> rval (env (runs env cmd j tr) (Popen cmd))) \<Longrightarrow>
   (\<forall>j < k. log_failed (rdata (env (runs env cmd j tr) (Popen cmd)))) \<Longrightarrow>
   \<not> log_failed (rdata (env (runs env cmd k tr) (Popen cmd))) \<Longrightarrow>
   popen_exe env cmd tr = Some (0, (Pclose (rval (env (runs env cmd k tr) (Popen cmd))),
      env (runs env cmd (Suc k) tr) (Pclose (rval (env (runs env cmd k tr) (Popen cmd))))) # runs env cmd (Suc k) tr)"
proof (induction k arbitrary: tr)
  case 0
  then show ?case by (subst popen_exe.simps) (simp add: sys_def sys_val_def Let_def)
next
  case (Suc k)
  let ?tr = "(Popen cmd, env tr (Popen cmd)) # tr"
  have "\<forall>j \<le> k. 0 \<le> rval (env (runs env cmd j ?tr) (Popen cmd))"
    "\<forall>j < k. log_failed (rdata (env (runs env cmd j ?tr) (Popen cmd)))"
    using Suc.prems(1,2) by (auto dest: spec[of _ "Suc _"])
  from Suc.IH[OF this] Suc.prems show ?case
    by (subst popen_exe.simps) (auto simp: sys_def Let_def dest: spec[of _ 0])
qed

text \<open>A command whose every run reports a failure is run for ever.\<close>

theorem popen_exe_spins:
  assumes "\<And>tr. log_failed (rdata (env tr (Popen cmd)))"
  shows "popen_exe env cmd tr = None"
  using popen_exe_shape[of env cmd tr] assms by (cases "popen_exe env cmd tr") auto

section \<open>The handler meets the contract of the loop\<close>

lemma memset0_length: "memset0 b n = Some b' \<Longrightarrow> length b' = length b"
  by (auto simp: memset0_def split: if_splits)

lemma store_at_length: "store_at b p d = Some b' \<Longrightarrow> length b' = length b"
  by (auto simp: store_at_def split: if_splits)

lemma sprintf_at_snd: "sprintf_at b p s = Some q \<Longrightarrow> length (snd q) = length b"
  by (cases q) (auto dest: sprintf_at_length)

lemmas buffer_lengths = memset0_length store_at_length sprintf_at_snd

lemma error_callback_length: "build_error_callback b e = Some p \<Longrightarrow> length (snd p) = length b"
  by (auto simp: build_error_callback_def bind_eq_Some_conv case_prod_unfold split: if_splits dest!: buffer_lengths)

lemma callback_packet_length: "build_callback_packet b c n f = Some p \<Longrightarrow> length (snd p) = length b"
  by (auto simp: build_callback_packet_def bind_eq_Some_conv case_prod_unfold dest!: buffer_lengths)

lemma keeps_sys: "quiet c \<Longrightarrow> keeps tr0 tr \<Longrightarrow> keeps tr0 (snd (sys_val env c tr))"
  using quiet_keeps keeps_trans by (fastforce simp: sys_val_def sys_def Let_def)

lemma keeps_popen: "popen_exe env cmd tr = Some p \<Longrightarrow> keeps tr0 tr \<Longrightarrow> keeps tr0 (snd p)"
  using popen_keeps keeps_trans by (metis prod.collapse)

lemma keeps_remove: "keeps tr0 tr \<Longrightarrow> keeps tr0 (remove_old env path tr)"
  by (auto simp: remove_old_def case_prod_unfold Let_def quiet_def intro!: keeps_sys)

lemma keeps_fread: "keeps tr0 tr \<Longrightarrow> keeps tr0 (snd (sys_fread env fp n tr))"
  using quiet_keeps[of "Fread fp n"] keeps_trans by (fastforce simp: sys_fread_def sys_def Let_def quiet_def)

lemmas keeps_intros = keeps_sys keeps_popen keeps_remove keeps_fread keeps_refl

lemma analyse_image_keeps: "analyse_image env R b tr = Some p \<Longrightarrow> keeps tr (snd p) \<and> length (fst p) = length b"
  by (auto simp: analyse_image_def bind_eq_Some_conv case_prod_unfold Let_def quiet_def
      intro!: keeps_sys keeps_remove dest!: buffer_lengths popen_keeps)

lemma keeps_read_file: "read_file_1024 env path b tr = Some p \<Longrightarrow> keeps tr0 tr \<Longrightarrow> keeps tr0 (snd (snd p))"
  by (auto simp: read_file_1024_def bind_eq_Some_conv case_prod_unfold Let_def quiet_def split: if_splits
      intro!: keeps_sys keeps_fread)

lemma keeps_read_result: "read_result_json env b tr = Some p \<Longrightarrow> keeps tr0 tr \<Longrightarrow> keeps tr0 (snd (snd p))"
  by (auto simp: read_result_json_def case_prod_unfold Let_def quiet_def split: if_splits
      intro!: keeps_sys elim!: keeps_read_file)

lemma load_result_keeps:
  assumes "load_result ops env R J tr = Some p"
  shows "keeps tr (snd p)"
proof -
  from assms obtain q where q: "read_result_json env (zeros 10240) (snd (sys_val env (Malloc 10240) tr)) = Some q"
      "snd p = snd (sys_val env Free (snd (snd q)))"
    by (auto simp: load_result_def bind_eq_Some_conv case_prod_unfold Let_def split: if_splits)
  have "keeps tr (snd (sys_val env (Malloc 10240) tr))" by (rule keeps_sys) (simp_all add: quiet_def keeps_refl)
  then have "keeps tr (snd (snd q))" by (rule keeps_read_result[OF q(1)])
  then show ?thesis unfolding q(2) by (rule keeps_sys[rotated]) (simp add: quiet_def)
qed

lemma open_fds_nonneg: "fd \<in> open_fds tr \<Longrightarrow> 0 \<le> fd"
  by (induction tr rule: open_fds.induct) (auto split: syscall.splits if_splits)

lemma connect_keeps:
  assumes "fresh_fds env" "tcp_connect env host port tr = (fd, tr')"
  shows "keeps tr tr' \<and> (0 \<le> fd \<longrightarrow> fd \<in> open_fds tr' \<and> fd \<notin> open_fds tr)"
  using assms unfolding fresh_fds_def
  by (auto simp: tcp_connect_def sys_val_def sys_def Let_def opens_def keeps_def split: if_splits)

text \<open>Calls on the connection to the host, and its close, leave the descriptors opened before it.\<close>

lemma exchange_keeps:
  assumes "exchange env sfd b n tr = Some (ok, b', tr')" "0 \<le> sfd \<Longrightarrow> sfd \<in> open_fds tr"
  shows "open_fds tr' = open_fds tr - {sfd} \<and> (uses_open tr \<longrightarrow> uses_open tr') \<and> length b' = length b"
  using assms by (auto simp: exchange_def sys_val_def sys_recv_def sys_def Let_def bind_eq_Some_conv
      split: if_splits dest!: buffer_lengths)

lemma host_talk:
  assumes fr: "fresh_fds env" and p: "popen_exe env cmd tr = Some p"
    and x: "exchange env (fst (tcp_connect env host port (snd p))) b n (snd (tcp_connect env host port (snd p))) = Some q"
  shows "keeps tr (snd (snd q)) \<and> length (fst (snd q)) = length b"
proof -
  obtain sfd tr2 where c: "tcp_connect env host port (snd p) = (sfd, tr2)" by force
  have k1: "keeps tr (snd p)" by (rule keeps_popen[OF p keeps_refl])
  have k2: "keeps (snd p) tr2" "0 \<le> sfd \<longrightarrow> sfd \<in> open_fds tr2 \<and> sfd \<notin> open_fds (snd p)"
    using connect_keeps[OF fr c] by auto
  have sfd: "sfd \<notin> open_fds (snd p)" using k2(2) open_fds_nonneg by blast
  have k3: "open_fds (snd (snd q)) = open_fds tr2 - {sfd}" "uses_open tr2 \<longrightarrow> uses_open (snd (snd q))" "length (fst (snd q)) = length b"
    using exchange_keeps[of env sfd b n tr2 "fst q" "fst (snd q)" "snd (snd q)"] x c k2(2) by auto
  have "keeps (snd p) (snd (snd q))" using k2(1) k3 sfd by (auto simp: keeps_def)
  with k1 k3(3) show ?thesis using keeps_trans by blast
qed

lemma notify_host_keeps:
  assumes fr: "fresh_fds env" and run: "notify_host ops env b h tr = Some (fl, b', h', tr')"
  shows "keeps tr tr' \<and> length b' = length b"
proof -
  have "keeps tr (snd (snd (snd r))) \<and> length (fst (snd r)) = length b" if "notify_host ops env b h tr = Some r" for r
    using that unfolding notify_host_def case_prod_unfold Let_def
    apply (elim bind_SomeE)
    apply (drule (1) host_talk[OF fr])
    apply (drule memset0_length sprintf_at_snd callback_packet_length)+
    apply (auto split: if_splits elim!: bind_SomeE dest!: memset0_length)
    done
  from this[OF run] show ?thesis by simp
qed

lemma second_packet_keeps:
  "second_packet env fd b tr = Some (ok, b', tr') \<Longrightarrow> fd \<in> open_fds tr \<Longrightarrow>
   open_fds tr' = open_fds tr \<and> (uses_open tr \<longrightarrow> uses_open tr') \<and> length b' = length b"
  by (auto simp: second_packet_def sys_recv_def sys_def Let_def bind_eq_Some_conv split: option.splits if_splits
      dest!: buffer_lengths)

lemma send_keeps:
  "fd \<in> open_fds tr \<Longrightarrow> open_fds (snd (sys_val env (Send fd d) tr)) = open_fds tr"
  "fd \<in> open_fds tr \<Longrightarrow> keeps tr (snd (sys_val env (Send fd d) tr))"
  by (auto simp: sys_val_def sys_def Let_def keeps_def)

lemma job_keeps:
  assumes fr: "fresh_fds env" and fd: "fd \<in> open_fds tr"
    and a: "analyse_image env R b (snd (sys_val env (Send fd d) tr)) = Some p"
    and l: "load_result ops env R J (snd p) = Some q"
    and n: "notify_host ops env (fst p) h (snd q) = Some r"
  shows "keeps tr (snd (snd (snd r))) \<and> length (fst (snd r)) = length b"
proof -
  have "keeps (snd q) (snd (snd (snd r))) \<and> length (fst (snd r)) = length (fst p)"
    using notify_host_keeps[OF fr, of ops "fst p" h "snd q" "fst r" "fst (snd r)" "fst (snd (snd r))" "snd (snd (snd r))"] n by simp
  moreover have "keeps (snd p) (snd q)" by (rule load_result_keeps[OF l])
  moreover have "keeps tr (snd p)" "length (fst p) = length b"
    using analyse_image_keeps[OF a] send_keeps(2)[OF fd] keeps_trans by blast+
  ultimately show ?thesis using keeps_trans by metis
qed

lemma serve_request_keeps:
  assumes fr: "fresh_fds env" and run: "serve_request ops env fd b h tr = Some r" and fd: "fd \<in> open_fds tr"
  shows "keeps tr (snd (snd (snd r))) \<and> length (fst (snd r)) = length b"
  using run unfolding serve_request_def case_prod_unfold Let_def
  apply (elim bind_SomeE)
  apply (drule memset0_length error_callback_length)+
  apply (simp split: if_split_asm)
   apply (clarsimp simp: send_keeps(2)[OF fd])
  apply (elim bind_SomeE)
  apply (drule (2) job_keeps[OF fr fd])
  apply simp
  done

lemma http_handler_keeps:
  assumes fr: "fresh_fds env" and run: "http_handler ops env ret fd b h tr = Some r" and fd: "fd \<in> open_fds tr"
  shows "keeps tr (snd (snd (snd r))) \<and> length (fst (snd r)) = length b"
proof -
  obtain ok b1 tr1 where p: "second_packet env fd b tr = Some (ok, b1, tr1)"
    using run by (auto simp: http_handler_def elim!: bind_SomeE)
  have k: "open_fds tr1 = open_fds tr" "keeps tr tr1" "length b1 = length b"
    using second_packet_keeps[OF p fd] by (auto simp: keeps_def)
  have fd1: "fd \<in> open_fds tr1" using fd k by simp
  have "keeps tr1 (snd (snd (snd r))) \<and> length (fst (snd r)) = length b1"
    using run p unfolding http_handler_def case_prod_unfold Let_def
    apply (simp split: if_split_asm)
     apply (clarsimp simp: keeps_refl)
    apply (elim bind_SomeE)
    apply (simp only: snd_conv fst_conv split: if_split_asm)
     apply (elim bind_SomeE)
     apply (drule memset0_length error_callback_length)+
     apply (clarsimp simp: send_keeps(2)[OF fd1])
    apply (elim bind_SomeE)
    apply (erule serve_request_keeps[OF fr _ fd1])
    done
  with k show ?thesis using keeps_trans by metis
qed

interpretation http: select_service env "socket_bind_listen_nb env 8080" "http_handler ops env" for env and ops :: "'d lf_ops"
proof
  show "open_fds tr \<subseteq> open_fds tr' \<and> uses_open tr' \<and> (0 \<le> fd \<longrightarrow> 2 < fd \<and> fd \<in> open_fds tr' \<and> fd \<notin> open_fds tr)"
    if "fresh_fds env" "socket_bind_listen_nb env 8080 tr = (fd, tr')" "uses_open tr" for tr fd tr'
    by (rule listen_nb_keeps[OF that])
  show "open_fds tr \<subseteq> open_fds tr' \<and> uses_open tr' \<and> length b' = length b"
    if "fresh_fds env" "http_handler ops env ret fd b h tr = Some (fl, b', h', tr')" "uses_open tr" "fd \<in> open_fds tr" for ret fd b h tr fl b' h' tr'
    using http_handler_keeps[OF that(1,2,4)] that(3) by (simp add: keeps_def)
qed


end
