(* ===== verification/HttpServed.thy ===== *)
theory HttpServed
  imports HttpServer
begin

text \<open>
  The server at work: its variables keep their declared sizes in every run, it does its work
  in one order, and it serves a request to the end in an environment whose commands succeed.
  The runs at the end are concrete executions of the model.
\<close>

section \<open>The sizes of the structures\<close>

definition request_typed :: "request_content_A_t \<Rightarrow> bool" where
  "request_typed R \<longleftrightarrow> length (request_host_ip R) = 16 \<and> length (request_id R) = 64 \<and> length (object_list R) = 512 \<and>
     length (type_list R) = 32 \<and> length (image_normal_path R) = 128 \<and> length (image_path_list R) = 128 \<and>
     length (ms_data (type_data R)) = 64 \<and> length (ms_data (image_normal_path_data R)) = 64 \<and>
     length (ms_data (image_path_list_data R)) = 64"

definition result_typed :: "'d result_json_t \<Rightarrow> bool" where
  "result_typed J \<longleftrightarrow> length (cls_id J) = 8 \<and> length (res_type J) = 32 \<and> length (res_value J) = 32 \<and>
     length (res_image_path J) = 256 \<and> length (res_desc J) = 32 \<and> length (res_area J) = 32 \<and>
     list_all (\<lambda>a. length (ar_x a) = 4 \<and> length (ar_y a) = 4) (res_area J)"

definition http_typed :: "'d http \<Rightarrow> bool" where
  "http_typed h \<longleftrightarrow> length (h_file h) = 128 \<and> length (h_content h) = 512 \<and> request_typed (h_req h) \<and> result_typed (h_res h)"

lemma strncpy_length: "strncpy dst src n = Some d \<Longrightarrow> length d = length dst"
  by (auto simp: strncpy_def split: if_splits)

lemma copy_quoted_length: "copy_quoted st k f = Some d \<Longrightarrow> length d = length f"
  by (auto simp: copy_quoted_def elim!: bind_SomeE dest!: strncpy_length)

lemma token_rows_lengths:
  "token_rows lst pos i rows = Some (n, lst', rows') \<Longrightarrow> length lst' = length lst \<and> length rows' = length rows"
proof (induction lst pos i rows rule: token_rows.induct)
  case (1 lst pos i rows)
  obtain t l1 p1 where s: "strtok list_delim lst pos = Some (t, l1, p1)"
    using "1.prems" by (subst (asm) token_rows.simps) (auto split: option.splits)
  show ?case
  proof (cases t)
    case None
    then have "l1 = lst" using s by (auto simp: strtok_def Let_def elim!: bind_SomeE split: if_splits)
    then show ?thesis using "1.prems" s None by (subst (asm) token_rows.simps) simp
  next
    case (Some tok)
    then obtain q r1 where w: "sprintf_at rows (8 * i) tok = Some (q, r1)"
      "token_rows l1 p1 (Suc i) r1 = Some (n, lst', rows')"
      using "1.prems" s by (subst (asm) token_rows.simps) (auto split: option.splits)
    have "length lst' = length l1 \<and> length rows' = length r1"
      by (rule "1.IH"[OF s refl Some refl w(1) refl w(2)])
    then show ?thesis using sprintf_at_length[OF w(1)] strtok_progress(1)[OF s[unfolded Some]] by simp
  qed
qed

lemma rows_of_lengths: "rows_of l m = Some p \<Longrightarrow> length (fst p) = length l \<and> length (ms_data (snd p)) = length (ms_data m)"
  by (auto simp: rows_of_def elim!: bind_SomeE dest!: token_rows_lengths)

lemma parse_post_typed:
  assumes "parse_post_A_content data R = Some (v, R')" "request_typed R"
  shows "request_typed R'"
  using assms unfolding parse_post_A_content_def case_prod_unfold
  by (auto simp: request_typed_def elim!: bind_SomeE split: option.splits dest!: copy_quoted_length rows_of_lengths)

lemma check_if_post_lengths:
  "check_if_post d f c = Some (v, f', c') \<Longrightarrow> length f' = length f \<and> length c' = length c"
  by (auto simp: check_if_post_def elim!: bind_SomeE split: option.splits if_splits dest!: strncpy_length)

lemma read_coords_length: "read_coords ops key st j cs = Some (n, cs') \<Longrightarrow> length cs' = length cs"
proof (induction ops key st j cs rule: read_coords.induct)
  case (2 ops key st j cs)
  then show ?case
    by (simp only: read_coords.simps) (auto elim!: bind_SomeE split: option.splits simp: aset_def split: if_splits)
qed (simp add: read_coords.simps)

lemma read_coords_snd: "read_coords ops key st j cs = Some p \<Longrightarrow> length (snd p) = length cs"
  using read_coords_length[of ops key st j cs "fst p" "snd p"] by simp

lemma read_areas_typed:
  "read_areas ops st i temp areas = Some (n, areas') \<Longrightarrow> list_all (\<lambda>a. length (ar_x a) = 4 \<and> length (ar_y a) = 4) areas \<Longrightarrow>
   length areas' = length areas \<and> list_all (\<lambda>a. length (ar_x a) = 4 \<and> length (ar_y a) = 4) areas'"
proof (induction ops st i temp areas rule: read_areas.induct)
  case (2 ops st i temp areas)
  from "2.prems"(1) obtain p v v' e e' v1 temp' a xs cx ys jy areas1 nxt nx where
    s: "padd st (length (jkey ''areas'')) = Some p" "strchr p (CHR ''['') = Some v" "v = Some v'" "strchr v' (CHR '']'') = Some e" "e = Some e'"
      "padd v' 1 = Some v1" "strncpy temp v1 (pdiff e' v' - 1) = Some temp'" "aget areas i = Some a"
      "strstr temp' (quoted ''x'') = Some xs" "read_coords ops (quoted ''x'') xs 0 (ar_x a) = Some (nx, cx)"
      "strstr temp' (quoted ''y'') = Some ys" "read_coords ops (quoted ''y'') ys 0 (ar_y a) = Some jy"
      "aset areas i \<lparr> ar_count = int (fst jy), ar_x = cx, ar_y = snd jy \<rparr> = Some areas1" "strstr e' (jkey ''areas'') = Some nxt"
      "read_areas ops nxt (Suc i) temp' areas1 = Some (n, areas')"
    by (simp only: read_areas.simps) (auto elim!: bind_SomeE)
  have "length (ar_x a) = 4 \<and> length (ar_y a) = 4" "i < length areas"
    using s(8) "2.prems"(2) by (auto simp: aget_def list_all_length split: if_splits)
  then have "list_all (\<lambda>a. length (ar_x a) = 4 \<and> length (ar_y a) = 4) areas1" "length areas1 = length areas"
    using read_coords_snd[OF s(10)] read_coords_snd[OF s(12)] s(13) "2.prems"(2)
    by (auto simp: aset_def list_all_length nth_list_update split: if_splits)
  moreover have "length areas' = length areas1 \<and> list_all (\<lambda>a. length (ar_x a) = 4 \<and> length (ar_y a) = 4) areas'"
    by (rule "2.IH"[OF s(1-10) refl s(11,12) prod.collapse s(13,14,15) calculation(1)])
  ultimately show ?case by simp
qed (simp add: read_areas.simps)

lemma optional_copy_length:
  "(case st of None \<Rightarrow> Some f | Some p \<Rightarrow> copy_quoted p k f) = Some g \<Longrightarrow> length g = length f"
  by (auto split: option.splits dest: copy_quoted_length)

lemma parse_result_typed:
  assumes "parse_result_json ops data R J = Some p" "result_typed J"
  shows "result_typed (snd p)"
proof -
  have areas: "length (snd q) = 32 \<and> list_all (\<lambda>a. length (ar_x a) = 4 \<and> length (ar_y a) = 4) (snd q)"
    if "(case pos of None \<Rightarrow> Some (res_count J, res_area J)
         | Some pos \<Rightarrow> do { st \<leftarrow> strstr pos (jkey ''areas''); p \<leftarrow> read_areas ops st 0 (zeros 512) (res_area J);
                            Some (int (fst p), snd p) }) = Some q" for pos q
    using that assms(2) by (auto simp: result_typed_def elim!: bind_SomeE split: option.splits dest!: read_areas_typed)
  show ?thesis using assms unfolding parse_result_json_def case_prod_unfold
    apply (elim bind_SomeE)
    apply (drule optional_copy_length sprintf_at_snd areas)+
    apply (clarsimp simp: result_typed_def)
    done
qed

lemma typed0: "http_typed (http0 ops)"
  by (simp add: http_typed_def http0_def request_typed_def request0_def result_typed_def result0_def area0_def multi_str0_def list_all_iff)

lemma put_points_length: "put_points ops a n j b pos = Some p \<Longrightarrow> length (snd p) = length b"
  by (induction n arbitrary: j b pos)
     (auto simp: case_prod_unfold elim!: bind_SomeE split: if_splits dest!: sprintf_at_snd)

lemma put_areas_length: "put_areas ops J n i b pos = Some p \<Longrightarrow> length (snd p) = length b"
  by (induction n arbitrary: i b pos)
     (auto simp: case_prod_unfold elim!: bind_SomeE split: if_splits dest!: sprintf_at_snd put_points_length)

lemma content_length: "build_A_callback_content ops R J c = Some p \<Longrightarrow> length (snd p) = length c"
  unfolding build_A_callback_content_def case_prod_unfold
  apply (elim bind_SomeE)
  apply (drule sprintf_at_snd put_areas_length)+
  apply simp
  done

lemma take_request_typed: "take_request ret b c R = Some R' \<Longrightarrow> request_typed R \<Longrightarrow> request_typed R'"
  by (auto simp: take_request_def split: if_splits elim!: bind_SomeE dest!: parse_post_typed)

lemma load_result_typed: "load_result ops env R J tr = Some p \<Longrightarrow> result_typed J \<Longrightarrow> result_typed (fst p)"
  by (auto simp: load_result_def case_prod_unfold Let_def split: if_splits elim!: bind_SomeE dest!: parse_result_typed)

lemma notify_host_typed:
  assumes "notify_host ops env b h tr = Some r" "http_typed h"
  shows "http_typed (fst (snd (snd r)))"
  using assms typed0[of ops] unfolding notify_host_def case_prod_unfold Let_def
  apply (elim bind_SomeE)
  apply (drule content_length)
  apply (auto simp: http_typed_def http0_def split: if_splits elim!: bind_SomeE dest!: memset0_length)
  done

lemma http_handler_typed:
  assumes "http_handler ops env ret fd b h tr = Some (fl, b', h', tr')" "http_typed h"
  shows "http_typed h'"
proof -
  have serve: "http_typed (fst (snd (snd r)))" if "serve_request ops env fd b1 h1 tr1 = Some r" "http_typed h1" for b1 h1 tr1 r
    using that unfolding serve_request_def case_prod_unfold Let_def
    by (auto simp: http_typed_def split: if_splits elim!: bind_SomeE dest!: memset0_length[of "h_content h1"] load_result_typed
        notify_host_typed[unfolded http_typed_def])
  show ?thesis using assms unfolding http_handler_def case_prod_unfold Let_def
    by (auto simp: http_typed_def split: if_splits elim!: bind_SomeE dest!: check_if_post_lengths take_request_typed
        serve[unfolded http_typed_def])
qed

text \<open>A property of the program's own variables that serving a client keeps holds in every run.\<close>

locale typed_service = select_service env open_socket handle
  for env :: env and open_socket :: listener and handle :: "'h handler" +
  fixes good :: "'h \<Rightarrow> bool"
  assumes handle_good: "handle ret fd b h tr = Some (fl, b', h', tr') \<Longrightarrow> good h \<Longrightarrow> good h'"
begin

lemma client_ready_good:
  "client_ready env handle i fd S h tr = Some (fl, S', h', tr') \<Longrightarrow> good h \<Longrightarrow> good h'"
  by (auto simp: client_ready_def Let_def split: if_splits prod.splits elim!: bind_SomeE) (blast intro: handle_good)

lemma clients_loop_good:
  "clients_loop env handle rset is n S h tr = Some (fl, S', h', tr') \<Longrightarrow> good h \<Longrightarrow> good h'"
proof (induction "is" arbitrary: n S h tr)
  case (Cons i "is")
  then show ?case
    by (auto split: if_splits flow.splits elim!: bind_SomeE dest: client_ready_good) (metis client_ready_good)+
qed simp

lemma server_run_good:
  "server_run env open_socket handle c0 c \<Longrightarrow> good (fst (snd (snd c0))) \<Longrightarrow> good (fst (snd (snd c)))"
proof (induction rule: server_run.induct)
  case (step c c')
  obtain ph S h tr where c: "c = (ph, S, h, tr)" by (metis prod_cases4)
  have g: "good h" using step c by simp
  show ?case
  proof (cases ph)
    case Polling
    then obtain fl S1 h1 tr1 where s: "select_turn env handle S h tr = Some (fl, S1, h1, tr1)" "fst (snd (snd c')) = h1"
      using step.hyps(2) c by (auto simp: Let_def split: flow.splits prod.splits elim!: bind_SomeE)
    then have "good h1" using g
      by (auto simp: select_turn_def split: if_splits flow.splits prod.splits elim!: bind_SomeE dest: clients_loop_good)
    then show ?thesis using s by simp
  qed (use step.hyps(2) c g in \<open>auto simp: Let_def split: if_splits prod.splits elim!: bind_SomeE\<close>)
qed simp

end

interpretation http_vars: typed_service env "socket_bind_listen_nb env 8080" "http_handler ops env" http_typed
  for env and ops :: "'d lf_ops"
  by unfold_locales (rule http_handler_typed)


section \<open>The order of the work\<close>

definition is_act :: "syscall \<Rightarrow> bool" where
  "is_act c = (case c of Popen _ \<Rightarrow> True | System _ \<Rightarrow> True | Send _ _ \<Rightarrow> True | _ \<Rightarrow> False)"

text \<open>The commands run and the messages sent, in their order.\<close>

definition acts :: "trace \<Rightarrow> syscall list" where
  "acts tr = rev (filter is_act (map fst tr))"

lemma acts_Cons: "acts ((c, r) # tr) = acts tr @ (if is_act c then [c] else [])"
  by (simp add: acts_def)

lemma acts_sys: "acts (snd (sys_val env c tr)) = acts tr @ (if is_act c then [c] else [])"
  by (simp add: sys_val_def sys_def Let_def acts_Cons)

lemma acts_runs: "acts (runs env cmd k tr) = acts tr @ replicate k (Popen cmd)"
  by (induction k arbitrary: tr) (simp_all add: acts_Cons is_act_def replicate_app_Cons_same)

lemma acts_popen: "popen_exe env cmd tr = Some p \<Longrightarrow> \<exists>n. acts (snd p) = acts tr @ replicate (Suc n) (Popen cmd)"
  using popen_exe_shape[of env cmd tr p] by (auto simp: acts_Cons acts_runs is_act_def simp del: runs.simps)

lemma acts_remove: "acts (remove_old env path tr) = acts tr"
  by (simp add: remove_old_def case_prod_unfold Let_def acts_sys is_act_def)

lemma acts_read: "read_result_json env b tr = Some p \<Longrightarrow> acts (snd (snd p)) = acts tr"
  by (auto simp: read_result_json_def read_file_1024_def sys_fread_def sys_def case_prod_unfold Let_def acts_sys acts_Cons is_act_def
      split: if_splits elim!: bind_SomeE)

lemma acts_load: "load_result ops env R J tr = Some p \<Longrightarrow> acts (snd p) = acts tr"
  by (auto simp: load_result_def case_prod_unfold Let_def acts_sys is_act_def split: if_splits elim!: bind_SomeE dest!: acts_read)

lemma cstr_sprintf: "sprintf_at b 0 s = Some p \<Longrightarrow> NUL \<notin> set s \<Longrightarrow> cstr (snd p) = s"
  by (auto simp: sprintf_at_def cstr_append split: if_splits)

lemma commands_NUL_free:
  assumes "str_of p = Some img" "str_of q = Some host"
  shows "NUL \<notin> set (get_command img host)" "NUL \<notin> set (convert_command img)" "NUL \<notin> set (put_command img host)"
    "NUL \<notin> set (analyse_command img host)"
  using str_of_SomeD[OF assms(1)] str_of_SomeD[OF assms(2)]
  by (auto simp: get_command_def convert_command_def put_command_def analyse_command_def model_path_def, auto simp: NUL_def)

lemma acts_analyse:
  assumes "analyse_image env R b tr = Some p"
  shows "\<exists>n. acts (snd p) = acts tr @ replicate (Suc n) (Popen (get_command (cstr (image_path_list R)) (cstr (request_host_ip R)))) @
    [System (convert_command (cstr (image_path_list R))), System (analyse_command (cstr (image_path_list R)) (cstr (type_list R)))]"
proof -
  have str: "str_of x = Some y \<Longrightarrow> y = cstr x" for x y by (auto simp: str_of_def split: if_splits)
  show ?thesis using assms unfolding analyse_image_def case_prod_unfold Let_def
    apply (elim bind_SomeE)
    apply (frule str[of "image_path_list R"], frule str[of "request_host_ip R"], frule str[of "type_list R"])
    apply (drule acts_popen)
    apply (auto simp: acts_sys acts_remove is_act_def cstr_sprintf commands_NUL_free)
    done
qed

lemma acts_exchange: "exchange env sfd b n tr = Some p \<Longrightarrow> acts (snd (snd p)) = acts tr @ [Send sfd (take n b)]"
  by (auto simp: exchange_def sys_recv_def sys_def case_prod_unfold Let_def acts_sys acts_Cons is_act_def
      split: if_splits elim!: bind_SomeE)

lemma acts_connect: "acts (snd (tcp_connect env host port tr)) = acts tr"
  by (simp add: tcp_connect_def case_prod_unfold Let_def acts_sys is_act_def)

lemma cstr_put:
  "sprintf_at b 0 (put_command img host) = Some p \<Longrightarrow> str_of x = Some img \<Longrightarrow> str_of y = Some host \<Longrightarrow>
   cstr (snd p) = put_command img host"
  by (simp add: cstr_sprintf commands_NUL_free)

lemma acts_notify:
  assumes "notify_host ops env b h tr = Some p"
  shows "\<exists>n sfd packet. acts (snd (snd (snd p))) = acts tr @
    replicate (Suc n) (Popen (put_command (cstr (image_path_list (h_req h))) (cstr (request_host_ip (h_req h))))) @ [Send sfd packet] \<and>
    (fst p = Fall \<longrightarrow> h_req (fst (snd (snd p))) = request0 \<and> h_res (fst (snd (snd p))) = result0 ops)"
proof -
  have str: "str_of x = Some y \<Longrightarrow> y = cstr x" for x y by (auto simp: str_of_def split: if_splits)
  show ?thesis using assms unfolding notify_host_def case_prod_unfold Let_def
    apply (elim bind_SomeE)
    apply (frule str[of "image_path_list (h_req h)"], frule str[of "request_host_ip (h_req h)"])
    apply (drule acts_popen, drule acts_exchange, drule (2) cstr_put)
    apply (auto simp: acts_connect split: if_splits elim!: bind_SomeE)
    done
qed

text \<open>
  C13. A request served to the end causes these actions in this order: the
  acknowledgement, the command that fetches the image (repeated until it succeeds), the
  conversion, the analysis, the command that puts the image back, the notification; the two
  global structures are cleared afterwards. The names in the commands are those of the request,
  unquoted.
\<close>

theorem serve_request_order:
  assumes "serve_request ops env fd b h tr = Some (Fall, b', h', tr')"
  shows "\<exists>ack n m sfd packet.
    acts tr' = acts tr @ [Send fd ack] @
      replicate (Suc n) (Popen (get_command (cstr (image_path_list (h_req h))) (cstr (request_host_ip (h_req h))))) @
      [System (convert_command (cstr (image_path_list (h_req h)))),
       System (analyse_command (cstr (image_path_list (h_req h))) (cstr (type_list (h_req h))))] @
      replicate (Suc m) (Popen (put_command (cstr (image_path_list (h_req h))) (cstr (request_host_ip (h_req h))))) @
      [Send sfd packet] \<and>
    take 12 ack = ''HTTP/1.1 200'' \<and> h_req h' = request0 \<and> h_res h' = result0 ops"
proof -
  from assms obtain b2 b3 q r where s:
    "build_error_callback b2 200 = Some b3"
    "analyse_image env (h_req h) (snd b3) (snd (sys_val env (Send fd (take (nat (fst b3)) (snd b3))) tr)) = Some q"
    "load_result ops env (h_req h) (h_res h) (snd q) = Some r"
    "\<exists>c. notify_host ops env (fst q) (h\<lparr> h_content := c, h_res := fst r \<rparr>) (snd r) = Some (Fall, b', h', tr')"
    unfolding serve_request_def case_prod_unfold Let_def by (auto elim!: bind_SomeE split: if_splits) blast
  have ack: "take 12 (take (nat (fst b3)) (snd b3)) = ''HTTP/1.1 200''"
  proof -
    have i: "int_dec 200 = ''200''" by code_simp
    show ?thesis using s(1) by (auto simp: build_error_callback_text sprintf_at_def status_line_def i split: if_splits elim!: bind_SomeE)
  qed
  from s(4) obtain c where n: "notify_host ops env (fst q) (h\<lparr> h_content := c, h_res := fst r \<rparr>) (snd r) = Some (Fall, b', h', tr')" ..
  from acts_notify[OF n] obtain m sfd packet where m: "acts tr' = acts (snd r) @
      replicate (Suc m) (Popen (put_command (cstr (image_path_list (h_req h))) (cstr (request_host_ip (h_req h))))) @ [Send sfd packet]"
      "h_req h' = request0" "h_res h' = result0 ops" by auto
  from acts_analyse[OF s(2)] obtain k where k: "acts (snd q) = acts (snd (sys_val env (Send fd (take (nat (fst b3)) (snd b3))) tr)) @
      replicate (Suc k) (Popen (get_command (cstr (image_path_list (h_req h))) (cstr (request_host_ip (h_req h))))) @
      [System (convert_command (cstr (image_path_list (h_req h)))),
       System (analyse_command (cstr (image_path_list (h_req h))) (cstr (type_list (h_req h))))]" by blast
  show ?thesis using ack m(2,3)
    by (intro exI[of _ "take (nat (fst b3)) (snd b3)"] exI[of _ k] exI[of _ m] exI[of _ sfd] exI[of _ packet] conjI)
       (simp_all only: m k acts_load[OF s(3)] acts_sys is_act_def syscall.case if_True append_assoc)
qed

section \<open>Requests are served\<close>

text \<open>
  An environment in which commands succeed, messages are sent and answers are shorter than
  the buffer.
\<close>

definition calm :: "env \<Rightarrow> bool" where
  "calm env \<longleftrightarrow> (\<forall>tr cmd. 0 \<le> rval (env tr (Popen cmd)) \<and> \<not> log_failed (rdata (env tr (Popen cmd)))) \<and>
     (\<forall>tr fd d. 0 \<le> rval (env tr (Send fd d))) \<and> (\<forall>tr fd n. length (rdata (env tr (Recv fd n))) < 1024)"

lemma calm_popen: "calm env \<Longrightarrow> \<exists>tr'. popen_exe env cmd tr = Some (0, tr')"
proof -
  assume "calm env"
  then have "\<not> rval (env tr (Popen cmd)) < 0" "\<not> log_failed (rdata (env tr (Popen cmd)))" by (simp_all add: calm_def not_less)
  then show ?thesis by (subst popen_exe.simps) (auto simp: sys_def Let_def split: prod.split)
qed

lemma memset0_full: "length b = n \<Longrightarrow> memset0 b n = Some (zeros n)"
  by (simp add: memset0_def zeros_def)

lemma sprintf_fits: "length s < length b \<Longrightarrow> \<exists>b'. sprintf_at b 0 s = Some (length s, b') \<and> length b' = length b"
  using sprintf_at_0[of s b] by auto

lemma cstr_short: "NUL \<in> set p \<Longrightarrow> length (cstr p) < length p"
proof -
  assume "NUL \<in> set p"
  then have "str_of p = Some (cstr p)" by (simp add: str_of_def)
  from str_of_SomeD[OF this] obtain r where p: "p = cstr p @ NUL # r" by blast
  have "length p = length (cstr p @ NUL # r)" by (rule arg_cong[OF p])
  then show ?thesis unfolding length_append by simp
qed

lemma str_of_terminated: "NUL \<in> set p \<Longrightarrow> str_of p = Some (cstr p)"
  by (simp add: str_of_def)

definition request_terminated :: "request_content_A_t \<Rightarrow> bool" where
  "request_terminated R \<longleftrightarrow> list_all (\<lambda>f. NUL \<in> set f) [request_host_ip R, request_id R, type_list R, image_path_list R]"

lemma command_lengths:
  assumes "request_typed R" "request_terminated R"
  shows "length (get_command (cstr (image_path_list R)) (cstr (request_host_ip R))) < 1024"
    "length (convert_command (cstr (image_path_list R))) < 1024"
    "length (analyse_command (cstr (image_path_list R)) (cstr (type_list R))) < 1024"
    "length (put_command (cstr (image_path_list R)) (cstr (request_host_ip R))) < 1024"
  using assms cstr_short[of "image_path_list R"] cstr_short[of "request_host_ip R"] cstr_short[of "type_list R"]
  by (auto simp: request_typed_def request_terminated_def get_command_def convert_command_def analyse_command_def put_command_def model_path_def)

lemma analyse_image_returns:
  assumes "calm env" "request_typed R" "request_terminated R" "length b = 1024"
  shows "\<exists>b' tr'. analyse_image env R b tr = Some (b', tr') \<and> length b' = 1024"
proof -
  have str: "str_of (image_path_list R) = Some (cstr (image_path_list R))" "str_of (request_host_ip R) = Some (cstr (request_host_ip R))"
    "str_of (type_list R) = Some (cstr (type_list R))" using assms(3) by (auto simp: request_terminated_def str_of_terminated)
  note l = command_lengths[OF assms(2,3)]
  obtain b1 where b1: "sprintf_at (zeros 1024) 0 (get_command (cstr (image_path_list R)) (cstr (request_host_ip R))) = Some (length (get_command (cstr (image_path_list R)) (cstr (request_host_ip R))), b1)" "length b1 = 1024"
    using sprintf_fits[of _ "zeros 1024"] l(1) by (metis length_zeros)
  obtain tr1 where p: "popen_exe env (cstr b1) tr = Some (0, tr1)" using calm_popen[OF assms(1)] by blast
  obtain b2 where b2: "sprintf_at (zeros 1024) 0 (convert_command (cstr (image_path_list R))) = Some (length (convert_command (cstr (image_path_list R))), b2)" "length b2 = 1024"
    using sprintf_fits[of _ "zeros 1024"] l(2) by (metis length_zeros)
  obtain b3 where b3: "sprintf_at (zeros 1024) 0 (analyse_command (cstr (image_path_list R)) (cstr (type_list R))) = Some (length (analyse_command (cstr (image_path_list R)) (cstr (type_list R))), b3)" "length b3 = 1024"
    using sprintf_fits[of _ "zeros 1024"] l(3) by (metis length_zeros)
  show ?thesis using memset0_full[OF assms(4)] memset0_full[OF b1(2)] memset0_full[OF b2(2)] b1 b2 b3 p str
    by (simp add: analyse_image_def case_prod_unfold Let_def)
qed

lemma packet_fits:
  assumes "length body < 512" "n < 1000"
  shows "length (packet_text notify_path (int n) body) < 1024"
  using assms length_nat_dec_3[OF assms(2)] by (simp add: packet_text_def int_dec_nat CRLF_def notify_path_def)

lemma exchange_returns:
  assumes "calm env" "length b = 1024"
  shows "\<exists>b' tr'. exchange env sfd b n tr = Some (True, b', tr') \<and> length b' = 1024"
proof -
  have v: "\<not> fst (sys_val env (Send sfd (take n b)) tr) < 0"
    using assms(1) by (simp add: calm_def sys_val_def sys_def Let_def not_less)
  obtain ret d tr2 where r: "sys_recv env sfd 1024 (snd (sys_val env (Send sfd (take n b)) tr)) = (ret, d, tr2)" by (metis prod_cases3)
  have short: "length (rdata (env t (Recv sfd 1024))) < 1024" for t using assms(1) by (simp add: calm_def)
  have d: "length d < 1024" using r short less_imp_le[OF short]
    by (auto simp: sys_recv_def sys_def Let_def min_def split: if_splits)
  have s: "store_at (zeros 1024) 0 d = Some (d @ drop (length d) (zeros 1024))" using d by (simp add: store_at_def)
  have "NUL \<in> set (drop (length d) (zeros 1024))" using d by (simp add: zeros_def)
  then have "str_of (d @ drop (length d) (zeros 1024)) \<noteq> None" by (simp add: str_of_def)
  then show ?thesis using v r d s memset0_full[OF assms(2)]
    by (auto simp: exchange_def case_prod_unfold Let_def)
qed

lemma notify_host_returns:
  assumes calm: "calm env" and R: "request_typed (h_req h)" "request_terminated (h_req h)"
    and b: "length b = 1024" and hc: "length (h_content h) = 512"
    and J: "result_ok (h_res h)" "length (content_text ops (h_req h) (h_res h)) < 512"
  shows "\<exists>b' h' tr'. notify_host ops env b h tr = Some (Fall, b', h', tr')"
proof -
  let ?R = "h_req h" and ?t = "content_text ops (h_req h) (h_res h)"
  let ?cmd = "put_command (cstr (image_path_list ?R)) (cstr (request_host_ip ?R))"
  have str: "str_of (image_path_list ?R) = Some (cstr (image_path_list ?R))" "str_of (request_host_ip ?R) = Some (cstr (request_host_ip ?R))"
    and rid: "NUL \<in> set (request_id ?R)"
    using R(2) by (auto simp: request_terminated_def str_of_terminated)
  obtain b1 where b1: "sprintf_at (zeros 1024) 0 ?cmd = Some (length ?cmd, b1)" "length b1 = 1024"
    using sprintf_fits[of ?cmd "zeros 1024"] command_lengths(4)[OF R] by auto
  obtain tr1 where p: "popen_exe env (cstr b1) tr = Some (0, tr1)" using calm_popen[OF calm] by blast
  define c where "c = ?t @ NUL # drop (length ?t + 1) (h_content h)"
  have c: "build_A_callback_content ops ?R (h_res h) (h_content h) = Some (length ?t, c)"
    unfolding build_content_text[OF J(1) rid] c_def by (rule sprintf_at_0) (use J(2) hc in simp)
  have lc: "length c = 512" using J(2) hc by (simp add: c_def)
  have sc: "str_of c = Some (cstr c)" by (rule str_of_terminated) (simp add: c_def)
  have "length (cstr c) < 512" using cstr_short[of c] lc by (simp add: c_def)
  then obtain b2 where b2: "build_callback_packet (zeros 1024) c (int (length ?t)) notify_path =
      Some (length (packet_text notify_path (int (length ?t)) (cstr c)), b2)" "length b2 = 1024"
    using sprintf_fits[of _ "zeros 1024"] packet_fits[of "cstr c" "length ?t"] J(2)
    unfolding build_callback_packet_text[OF sc] by fastforce
  obtain sfd tr2 where cn: "tcp_connect env (cstr (request_host_ip ?R)) (request_host_port ?R) tr1 = (sfd, tr2)" by force
  obtain b3 tr3 where x: "exchange env sfd b2 (length (packet_text notify_path (int (length ?t)) (cstr c))) tr2 = Some (True, b3, tr3)" "length b3 = 1024"
    using exchange_returns[OF calm b2(2)] by blast
  show ?thesis
    using memset0_full[OF b] memset0_full[OF b1(2)] memset0_full[OF length_zeros[of 1024]] memset0_full[OF lc] memset0_full[OF x(2)]
      str b1(1) p c b2(1) cn x(1)
    by (simp add: notify_host_def)
qed

lemma serve_request_done:
  assumes calm: "calm env" and typed: "http_typed h" and ended: "request_terminated (h_req h)" and b: "length b = 1024"
    and load: "\<And>tr. \<exists>tr'. load_result ops env (h_req h) (h_res h) tr = Some (J, tr')"
    and J: "result_ok J" "length (content_text ops (h_req h) J) < 512"
  shows "\<exists>b' h' tr'. serve_request ops env fd b h tr = Some (Fall, b', h', tr') \<and> http_typed h'"
proof -
  have R: "request_typed (h_req h)" and hc: "length (h_content h) = 512" using typed by (auto simp: http_typed_def)
  obtain n b1 where ack: "build_error_callback (zeros 1024) 200 = Some (int n, b1)" "length b1 = 1024"
    using error_callback_well_formed[of 200 "zeros 1024"] error_callback_length[of "zeros 1024" 200] by fastforce
  let ?tr1 = "snd (sys_val env (Send fd (take n b1)) tr)"
  have v: "\<not> fst (sys_val env (Send fd (take n b1)) tr) < 0"
    using calm by (simp add: calm_def sys_val_def sys_def Let_def not_less)
  obtain b2 tr2 where a: "analyse_image env (h_req h) b1 ?tr1 = Some (b2, tr2)" "length b2 = 1024"
    using analyse_image_returns[OF calm R ended ack(2)] by blast
  obtain tr3 where l: "load_result ops env (h_req h) (h_res h) tr2 = Some (J, tr3)" using load by blast
  obtain b3 h3 tr4 where nt: "notify_host ops env b2 (h\<lparr> h_content := zeros 512, h_res := J \<rparr>) tr3 = Some (Fall, b3, h3, tr4)"
    using notify_host_returns[OF calm, of "h\<lparr> h_content := zeros 512, h_res := J \<rparr>" b2 ops tr3] R ended a(2) J by auto
  have "serve_request ops env fd b h tr = Some (Fall, b3, h3, tr4)"
    using memset0_full[OF hc] memset0_full[OF b] ack v a l nt by (simp add: serve_request_def case_prod_unfold Let_def)
  moreover have "http_typed h3"
    using notify_host_typed[OF nt] typed load_result_typed[OF l] by (auto simp: http_typed_def)
  ultimately show ?thesis by blast
qed


section \<open>A run\<close>

definition int_ops :: "int lf_ops" where
  "int_ops = \<lparr> lf_scan = scan_int, lf_print = int_dec, lf_zero = 0 \<rparr>"

definition calm_env :: env where
  "calm_env = numbering (\<lambda>tr c. case c of Access _ \<Rightarrow> reply_of (-1) | _ \<Rightarrow> reply_of 0)"

lemma calm_env_calm: "calm calm_env"
  by (simp add: calm_def calm_env_def numbering_def opens_def reply_of_def log_failed.simps)

definition example_http :: "int http" where
  "example_http = (http0 int_ops)\<lparr> h_req := request0\<lparr> image_path_list := ''a.jpg'' @ zeros 123, request_host_ip := ''1.2.3.4'' @ zeros 9 \<rparr> \<rparr>"

definition example_result :: "int result_json_t" where
  "example_result = (result0 int_ops)\<lparr> res_image_path := ''/root/image/a.jpg.rgb'' @ zeros 235 \<rparr>"

lemma strstr_zeros: "0 < n \<Longrightarrow> k \<noteq> [] \<Longrightarrow> strstr (zeros n) k = Some None"
  by (simp add: strstr_def field_zeros)

lemma example_load: "\<exists>tr'. load_result int_ops calm_env (h_req example_http) (h_res example_http) tr = Some (example_result, tr')"
proof -
  have p: "parse_result_json int_ops (zeros 10240) (h_req example_http) (h_res example_http) = Some (0, example_result)"
  proof -
    have "strstr (zeros 10240) (jkey k) = Some None" "strstr (zeros 10240) (quoted k) = Some None" for k
      by (simp_all add: strstr_zeros jkey_def quoted_def)
    moreover have "str_of (image_path_list (h_req example_http)) = Some ''a.jpg''" by code_simp
    moreover have "sprintf_at (res_image_path (h_res example_http)) 0 (''/root/image/'' @ ''a.jpg'' @ ''.rgb'') =
        Some (21, ''/root/image/a.jpg.rgb'' @ zeros 235)" by code_simp
    moreover have "\<not> Option.is_none (str_of (''/root/image/a.jpg.rgb'' @ zeros 235))" by code_simp
    ultimately show ?thesis
      by (auto simp: parse_result_json_def print_areas_def example_result_def example_http_def http0_def result0_def field_zeros Option.is_none_def)
  qed
  show ?thesis using p
    by (simp add: load_result_def read_result_json_def calm_env_def numbering_def opens_def reply_of_def sys_val_def sys_def Let_def)
qed

lemma example_ok: "http_typed example_http" "request_terminated (h_req example_http)" "result_ok example_result"
  "length (content_text int_ops (h_req example_http) example_result) < 512"
  by code_simp+

lemma example_served: "\<exists>b' h' tr'. serve_request int_ops calm_env 4 (zeros 1024) example_http [] = Some (Fall, b', h', tr')"
  using serve_request_done[OF calm_env_calm example_ok(1,2) length_zeros example_load example_ok(3,4)] by blast


theorem serve_request_order_witness:
  "\<exists>b' h' tr' n m ack sfd packet. serve_request int_ops calm_env 4 (zeros 1024) example_http [] = Some (Fall, b', h', tr') \<and>
     acts tr' = [Send 4 ack] @ replicate (Suc n) (Popen (get_command ''a.jpg'' ''1.2.3.4'')) @
       [System (convert_command ''a.jpg''), System (analyse_command ''a.jpg'' [])] @
       replicate (Suc m) (Popen (put_command ''a.jpg'' ''1.2.3.4'')) @ [Send sfd packet]"
proof -
  obtain b' h' tr' where s: "serve_request int_ops calm_env 4 (zeros 1024) example_http [] = Some (Fall, b', h', tr')"
    using example_served by blast
  have c: "cstr (image_path_list (h_req example_http)) = ''a.jpg''" "cstr (request_host_ip (h_req example_http)) = ''1.2.3.4''"
    "cstr (type_list (h_req example_http)) = []" by code_simp+
  have e: "acts [] = []" by (simp add: acts_def)
  from serve_request_order[OF s] s show ?thesis unfolding c e append_Nil by blast
qed

definition fixed_ops :: "nat lf_ops" where
  "fixed_ops = \<lparr> lf_scan = (\<lambda>s. None), lf_print = (\<lambda>d. ''0.000000''), lf_zero = 0 \<rparr>"

definition three_areas :: "nat result_json_t" where
  "three_areas = (result0 fixed_ops)\<lparr> res_count := 3, res_area := replicate 32 (area0 fixed_ops\<lparr> ar_count := 4 \<rparr>) \<rparr>"


theorem notification_roundtrip_witness:
  "\<exists>len content' n buf'.
     build_A_callback_content int_ops request0 (result0 int_ops) (zeros 512) = Some (len, content') \<and>
     build_callback_packet (zeros 1024) content' (int len) notify_path = Some (n, buf') \<and>
     n = length (cstr buf') \<and> n < 1024 \<and>
     check_if_post buf' (zeros 128) (zeros 512) =
       Some (0, notify_path @ zeros (128 - length notify_path),
                content_text int_ops request0 (result0 int_ops) @ zeros (512 - length (content_text int_ops request0 (result0 int_ops))))"
proof (rule notification_roundtrip)
  show "NUL \<notin> set (lf_print int_ops d)" for d by (simp add: int_ops_def int_dec_NUL_free)
  show "result_ok (result0 int_ops)" "NUL \<in> set (request_id request0)"
    "length (content_text int_ops request0 (result0 int_ops)) < 512" by code_simp+
qed simp_all

definition retry_env :: env where
  "retry_env tr c = (if length tr = 0 then (reply_of 0)\<lparr> rdata := ''login failed'' \<rparr> else reply_of 0)"

theorem popen_exe_returns_witness:
  "\<exists>r. popen_exe retry_env ''get'' [] = Some (0, (Pclose 0, r) # runs retry_env ''get'' 2 [])"
proof -
  have failed: "log_failed ''login failed''" by code_simp
  have "popen_exe retry_env ''get'' [] = Some (0, (Pclose (rval (retry_env (runs retry_env ''get'' 1 []) (Popen ''get''))),
      retry_env (runs retry_env ''get'' (Suc 1) []) (Pclose (rval (retry_env (runs retry_env ''get'' 1 []) (Popen ''get''))))) #
      runs retry_env ''get'' (Suc 1) [])"
  proof (rule popen_exe_returns)
    show "\<forall>j \<le> 1. 0 \<le> rval (retry_env (runs retry_env ''get'' j []) (Popen ''get''))" 
      "\<forall>j < 1. log_failed (rdata (retry_env (runs retry_env ''get'' j []) (Popen ''get'')))"
      "\<not> log_failed (rdata (retry_env (runs retry_env ''get'' 1 []) (Popen ''get'')))"
      using failed by (simp_all add: retry_env_def reply_of_def log_failed.simps[of "[]"])
  qed
  moreover have "rval (retry_env (runs retry_env ''get'' 1 []) (Popen ''get'')) = 0" by (simp add: retry_env_def reply_of_def)
  ultimately show ?thesis by (auto simp: numeral_eq_Suc)
qed



text \<open>The file with two areas that is read wrong.\<close>

definition two_areas :: string where
  "two_areas = (let pt = (\<lambda>x y. ''{'' @ quoted ''x'' @ '':'' @ [TAB] @ x @ '','' @ quoted ''y'' @ '':'' @ [TAB] @ y @ ''}'') in
     ''{'' @ jkey ''pos'' @ ''[{'' @ jkey ''areas'' @ ''['' @ pt ''1'' ''2'' @ '','' @ pt ''3'' ''4'' @ '']},{'' @ jkey ''areas'' @ ''['' @ pt ''5'' ''6'' @ '']}]}'')"

text \<open>
  A result file with an area of two points and then one of one point is read as two
  areas of two points: the scratch buffer keeps the end of the longer text.
\<close>

theorem stale_points:
  "map_option (\<lambda>(v, J). map (\<lambda>a. (ar_count a, take 2 (ar_x a))) (take (nat (res_count J)) (res_area J)))
     (parse_result_json int_ops (two_areas @ zeros 100) request0 (result0 int_ops)) =
   Some [(2, [1, 3]), (2, [5, 3])]"
  by code_simp

end
