(* ===== verification/HttpClient.thy ===== *)
theory HttpClient
  imports HttpServer
begin

text \<open>
  The client of \<^verbatim>\<open>http_client/http.c\<close>: the packet it builds, its connection, and its \<^verbatim>\<open>main\<close>,
  which in the present state of the file listens for one message. The packet is one the
  server of \<^verbatim>\<open>http_server\<close> takes apart again.
\<close>

definition HTTP_IP :: string where "HTTP_IP = ''192.168.3.131''"

definition build_http_post_packet :: "cbuf \<Rightarrow> string \<Rightarrow> string \<Rightarrow> (nat \<times> cbuf) option" where
  "build_http_post_packet b filename content =
     do { (pos, b) \<leftarrow> sprintf_at b 0 (''POST '' @ filename @ '' HTTP/1.1'' @ [LF]);
          (pos, b) \<leftarrow> sprintf_at b pos (''HOST: '' @ HTTP_IP @ [LF]);
          (pos, b) \<leftarrow> sprintf_at b pos (''Content-Type: application/json'' @ [LF]);
          (pos, b) \<leftarrow> sprintf_at b pos (''Content-Length: '' @ int_dec (int (length content)) @ [LF]);
          (pos, b) \<leftarrow> sprintf_at b pos [LF];
          (pos, b) \<leftarrow> sprintf_at b pos (content @ CRLF);
          sprintf_at b pos CRLF }"

definition http_tcp_connect :: "env \<Rightarrow> trace \<Rightarrow> int \<times> trace" where
  "http_tcp_connect env tr = tcp_connect env HTTP_IP 8081 tr"

definition http_bind_listen :: "env \<Rightarrow> trace \<Rightarrow> int \<times> trace" where
  "http_bind_listen env tr = socket_bind_listen env 8081 tr"

definition http_client_main :: "env \<Rightarrow> trace \<Rightarrow> (int \<times> trace) option" where
  "http_client_main env tr =
     (let (sockfd, tr) = http_bind_listen env tr in
      if sockfd < 0 then Some (-1, tr)
      else let (acceptfd, tr) = sys_val env (Accept sockfd) tr; (ret, d, tr) = sys_recv env acceptfd 1024 tr in
        if ret \<le> 0 then Some (-1, tr)
        else do {
          b \<leftarrow> store_at (replicate 1024 NUL) 0 d;
          _ \<leftarrow> str_of b;
          let (_, tr) = sys_val env (Close acceptfd) tr;
          let (_, tr) = sys_val env (Close sockfd) tr;
          Some (0, tr) })"

definition post_header :: "string \<Rightarrow> string" where
  "post_header content = ''/1.1'' @ [LF] @ ''HOST: '' @ HTTP_IP @ [LF] @ ''Content-Type: application/json'' @ [LF] @
     ''Content-Length: '' @ int_dec (int (length content)) @ [LF] @ [LF]"

definition post_text :: "string \<Rightarrow> string \<Rightarrow> string" where
  "post_text filename content = ''POST '' @ filename @ '' HTTP'' @ post_header content @ content @ CRLF @ CRLF"

lemma build_http_post_packet_text: "build_http_post_packet b filename content = sprintf_at b 0 (post_text filename content)"
proof -
  have ret: "x = do { (p, q) \<leftarrow> x; Some (p, q) }" for x :: "(nat \<times> cbuf) option" by (cases x) auto
  have t: "''POST '' @ filename @ '' HTTP/1.1'' @ [LF] = ''POST '' @ filename @ '' HTTP'' @ ''/1.1'' @ [LF]" by simp
  show ?thesis unfolding build_http_post_packet_def post_text_def post_header_def t
    by (subst ret, subst (2) ret) (simp only: bind.bind_lunit sprintf_seq append_assoc)
qed

text \<open>
  C28. A packet of the client whose content is an object is taken apart by the server's
  \<^verbatim>\<open>check_if_post\<close> into the path and the content the client was given, although the client
  ends its header lines with LF alone and adds two line ends after the content.
\<close>

theorem client_packet_accepted:
  assumes name: "CHR '' '' \<notin> set name" "name = CHR ''/'' # name'" "length name \<le> 128" "NUL \<notin> set name" "LBRACE \<notin> set name"
    and body: "content = LBRACE # mid @ [RBRACE]" "NUL \<notin> set content" "length content \<le> 512"
    and room: "length (post_text name content) < length b"
  shows "\<exists>b'. build_http_post_packet b name content = Some (length (post_text name content), b') \<and>
    check_if_post b' (zeros 128) (zeros 512) =
      Some (0, name @ zeros (128 - length name), content @ zeros (512 - length content))"
proof -
  let ?t = "post_text name content"
  have pk: "build_http_post_packet b name content = Some (length ?t, ?t @ NUL # drop (length ?t + 1) b)"
    unfolding build_http_post_packet_text by (rule sprintf_at_0[OF room])
  have h: "NUL \<notin> set (post_header content)" "LBRACE \<notin> set (post_header content)"
    using nat_dec_chars[of _ "length content"]
    by (auto simp: post_header_def HTTP_IP_def int_dec_nat NUL_def LBRACE_def LF_def)
  have c: "NUL \<notin> set (CRLF @ CRLF)" "RBRACE \<notin> set (CRLF @ CRLF)" by (simp_all add: CRLF_def LF_def NUL_def RBRACE_def)
  have "check_if_post (''POST '' @ name @ '' HTTP'' @ post_header content @ content @ (CRLF @ CRLF) @ NUL # drop (length ?t + 1) b)
      (zeros 128) (zeros 512) = Some (0, name @ drop (length name) (zeros 128), content @ drop (length content) (zeros 512))"
    using name h body(2,3) by (intro check_if_post_reads[OF name(1,2) _ _ _ body(1) _ c]) (auto simp: zeros_def)
  then show ?thesis using pk by (simp add: post_text_def zeros_def)
qed

theorem client_packet_accepted_witness:
  "\<exists>b'. build_http_post_packet (zeros 1024) ''/a'' ''{}'' = Some (length (post_text ''/a'' ''{}''), b') \<and>
    check_if_post b' (zeros 128) (zeros 512) = Some (0, ''/a'' @ zeros (128 - length ''/a''), ''{}'' @ zeros (512 - length ''{}''))"
proof (rule client_packet_accepted)
  show "''{}'' = LBRACE # [] @ [RBRACE]" by (simp add: LBRACE_def RBRACE_def)
  show "length (post_text ''/a'' ''{}'') < length (zeros 1024)"
    by (simp add: post_text_def post_header_def HTTP_IP_def int_dec_def nat_dec.simps CRLF_def zeros_def)
qed (simp_all add: NUL_def LBRACE_def)

end
