(* ===== verification/ImageQueue.thy ===== *)
theory ImageQueue
  imports CLib
begin

text \<open>
  The image buffer pool of \<^verbatim>\<open>queue/queue.c\<close>: five memory blocks in a ring, handed out by
  \<^verbatim>\<open>queue_allocate\<close> from the head and given back by \<^verbatim>\<open>queue_release\<close>, under a mutex with a
  condition variable. The operations are functions on the ring; the threads that call them
  are a step relation in which every critical section is one step and a wait on the
  condition variable splits it.
\<close>

section \<open>The ring\<close>

definition QUEUE_SIZE :: nat where
  "QUEUE_SIZE = 5"

text \<open>An address is a number; \<^verbatim>\<open>malloc\<close> returns one or NULL.\<close>

record QueueElement =
  address :: nat
  in_use :: int

record ImageQueue =
  elements :: "QueueElement list"
  head :: nat
  tail :: nat

text \<open>
  \<^verbatim>\<open>queue_init\<close> exits the process when a block cannot be allocated: then there is no queue.
  The argument lists what the successive calls of \<^verbatim>\<open>malloc\<close> return.
\<close>

fun init_elements :: "nat \<Rightarrow> nat option list \<Rightarrow> QueueElement list option" where
  "init_elements 0 ms = Some []"
| "init_elements (Suc n) [] = None"
| "init_elements (Suc n) (None # ms) = None"
| "init_elements (Suc n) (Some a # ms) =
     do { es \<leftarrow> init_elements n ms; Some (\<lparr>address = a, in_use = 0\<rparr> # es) }"

definition queue_init :: "nat option list \<Rightarrow> ImageQueue option" where
  "queue_init ms =
     do { es \<leftarrow> init_elements QUEUE_SIZE ms; Some \<lparr>elements = es, head = 0, tail = 0\<rparr> }"

text \<open>The test of the loop in \<^verbatim>\<open>queue_allocate\<close>: the caller has to wait.\<close>

definition must_wait :: "ImageQueue \<Rightarrow> bool" where
  "must_wait q \<longleftrightarrow> in_use (elements q ! head q) = 1"

text \<open>What \<^verbatim>\<open>queue_allocate\<close> does once it leaves the loop.\<close>

definition queue_allocate :: "ImageQueue \<Rightarrow> nat \<times> ImageQueue" where
  "queue_allocate q =
     (let addr = address (elements q ! head q) in
      (addr, q\<lparr>elements := (elements q)[head q := (elements q ! head q)\<lparr>in_use := 1\<rparr>],
               head := (head q + 1) mod QUEUE_SIZE\<rparr>))"

function release_loop :: "ImageQueue \<Rightarrow> nat \<Rightarrow> nat \<Rightarrow> ImageQueue" where
  "release_loop q addr i =
     (if i < QUEUE_SIZE then
        (if address (elements q ! i) = addr then
           q\<lparr>elements := (elements q)[i := (elements q ! i)\<lparr>in_use := 0\<rparr>],
             tail := (tail q + 1) mod QUEUE_SIZE\<rparr>
         else release_loop q addr (Suc i))
      else q)"
  by pat_completeness auto
termination
  by (relation "measure (\<lambda>(q, addr, i). QUEUE_SIZE - i)") auto

declare release_loop.simps [simp del]

definition queue_release :: "ImageQueue \<Rightarrow> nat \<Rightarrow> ImageQueue" where
  "queue_release q addr = release_loop q addr 0"

text \<open>The addresses \<^verbatim>\<open>queue_destroy\<close> hands to \<^verbatim>\<open>free\<close>.\<close>

definition queue_destroy :: "ImageQueue \<Rightarrow> nat list" where
  "queue_destroy q = map (\<lambda>i. address (elements q ! i)) [0 ..< QUEUE_SIZE]"

section \<open>Threads\<close>

text \<open>
  \<^verbatim>\<open>held\<close> lists which thread has which block, \<^verbatim>\<open>waiting\<close> the threads asleep on the condition
  variable, \<^verbatim>\<open>woken\<close> those that were signalled and have yet to run their test again. A
  release signals: one sleeper, if any, is woken. POSIX allows spurious wake-ups.
\<close>

record pool =
  ring :: ImageQueue
  held :: "(nat \<times> nat) list"
  waiting :: "nat list"
  woken :: "nat list"

inductive pool_step :: "pool \<Rightarrow> pool \<Rightarrow> bool" where
  alloc: "t \<notin> set (waiting p) \<Longrightarrow> t \<notin> set (woken p) \<Longrightarrow> \<not> must_wait (ring p) \<Longrightarrow>
    queue_allocate (ring p) = (a, q) \<Longrightarrow> pool_step p (p\<lparr>ring := q, held := (t, a) # held p\<rparr>)"
| wait: "t \<notin> set (waiting p) \<Longrightarrow> t \<notin> set (woken p) \<Longrightarrow> must_wait (ring p) \<Longrightarrow>
    pool_step p (p\<lparr>waiting := t # waiting p\<rparr>)"
| retry: "t \<in> set (woken p) \<Longrightarrow> \<not> must_wait (ring p) \<Longrightarrow> queue_allocate (ring p) = (a, q) \<Longrightarrow>
    pool_step p (p\<lparr>ring := q, held := (t, a) # held p, woken := remove1 t (woken p)\<rparr>)"
| rewait: "t \<in> set (woken p) \<Longrightarrow> must_wait (ring p) \<Longrightarrow>
    pool_step p (p\<lparr>waiting := t # waiting p, woken := remove1 t (woken p)\<rparr>)"
| spurious: "t \<in> set (waiting p) \<Longrightarrow>
    pool_step p (p\<lparr>waiting := remove1 t (waiting p), woken := t # woken p\<rparr>)"
| release_quiet: "(t, a) \<in> set (held p) \<Longrightarrow> t \<notin> set (waiting p) \<Longrightarrow> t \<notin> set (woken p) \<Longrightarrow> waiting p = [] \<Longrightarrow>
    pool_step p (p\<lparr>ring := queue_release (ring p) a, held := remove1 (t, a) (held p)\<rparr>)"
| release_signal: "(t, a) \<in> set (held p) \<Longrightarrow> t \<notin> set (waiting p) \<Longrightarrow> t \<notin> set (woken p) \<Longrightarrow> w \<in> set (waiting p) \<Longrightarrow>
    pool_step p (p\<lparr>ring := queue_release (ring p) a, held := remove1 (t, a) (held p),
                   waiting := remove1 w (waiting p), woken := w # woken p\<rparr>)"

inductive_cases pool_stepE: "pool_step p p'"

definition pool_start :: "ImageQueue \<Rightarrow> pool" where
  "pool_start q = \<lparr>ring = q, held = [], waiting = [], woken = []\<rparr>"

definition pool_reachable :: "ImageQueue \<Rightarrow> pool \<Rightarrow> bool" where
  "pool_reachable q p \<longleftrightarrow> pool_step\<^sup>*\<^sup>* (pool_start q) p"

section \<open>Invariant\<close>

definition addresses :: "ImageQueue \<Rightarrow> nat list" where
  "addresses q = map address (elements q)"

definition ring_ok :: "ImageQueue \<Rightarrow> bool" where
  "ring_ok q \<longleftrightarrow> length (elements q) = QUEUE_SIZE \<and> head q < QUEUE_SIZE \<and> tail q < QUEUE_SIZE \<and>
     distinct (addresses q) \<and> (\<forall>e \<in> set (elements q). in_use e = 0 \<or> in_use e = 1)"

definition busy :: "ImageQueue \<Rightarrow> nat set" where
  "busy q = {address e |e. e \<in> set (elements q) \<and> in_use e = 1}"

definition pool_ok :: "pool \<Rightarrow> bool" where
  "pool_ok p \<longleftrightarrow> ring_ok (ring p) \<and> distinct (map snd (held p)) \<and> snd ` set (held p) = busy (ring p) \<and>
     distinct (waiting p @ woken p)"

lemma busy_nth: "busy q = {address (elements q ! i) |i. i < length (elements q) \<and> in_use (elements q ! i) = 1}"
  by (auto simp: busy_def in_set_conv_nth)

lemma address_inj:
  assumes "ring_ok q" "i < QUEUE_SIZE" "j < QUEUE_SIZE" "address (elements q ! i) = address (elements q ! j)"
  shows "i = j"
proof -
  have "addresses q ! i = addresses q ! j" using assms by (simp add: addresses_def ring_ok_def)
  with assms show ?thesis using nth_eq_iff_index_eq[of "addresses q" i j] by (simp add: ring_ok_def addresses_def)
qed

lemma mark_ok:
  assumes q: "ring_ok q" and i: "i < QUEUE_SIZE" and u: "u = 0 \<or> u = 1" and h: "h < QUEUE_SIZE" "t < QUEUE_SIZE"
  defines "q' \<equiv> q\<lparr>elements := (elements q)[i := (elements q ! i)\<lparr>in_use := u\<rparr>], head := h, tail := t\<rparr>"
  shows "ring_ok q'" "busy q' = (if u = 1 then insert (address (elements q ! i)) (busy q) else busy q - {address (elements q ! i)})"
proof -
  have len: "length (elements q) = QUEUE_SIZE" using q by (simp add: ring_ok_def)
  have nth: "elements q' ! j = (if j = i then (elements q ! i)\<lparr>in_use := u\<rparr> else elements q ! j)" if "j < QUEUE_SIZE" for j
    using that len i by (simp add: q'_def)
  have bin: "in_use (elements q ! j) = 0 \<or> in_use (elements q ! j) = 1" if "j < QUEUE_SIZE" for j
    using that q by (simp add: ring_ok_def)
  have len': "length (elements q') = QUEUE_SIZE" using len by (simp add: q'_def)
  have "addresses q' = addresses q"
    using len len' nth by (intro nth_equalityI) (auto simp: addresses_def)
  moreover have "\<forall>e \<in> set (elements q'). in_use e = 0 \<or> in_use e = 1"
  proof
    fix e assume "e \<in> set (elements q')"
    then obtain j where "j < QUEUE_SIZE" "e = elements q' ! j" using len' by (auto simp: in_set_conv_nth)
    then show "in_use e = 0 \<or> in_use e = 1" using nth bin u by (cases "j = i") auto
  qed
  ultimately show "ring_ok q'" using q len' h by (simp add: ring_ok_def q'_def)
  have "a \<in> busy q' \<longleftrightarrow> (\<exists>j < QUEUE_SIZE. address (elements q ! j) = a \<and> (if j = i then u = 1 else in_use (elements q ! j) = 1))" for a
  proof -
    have "address (elements q' ! j) = address (elements q ! j) \<and>
        in_use (elements q' ! j) = (if j = i then u else in_use (elements q ! j))" if "j < QUEUE_SIZE" for j
      using nth[OF that] by simp
    then show ?thesis unfolding busy_nth len' by auto metis+
  qed
  moreover have "a \<in> busy q \<longleftrightarrow> (\<exists>j < QUEUE_SIZE. address (elements q ! j) = a \<and> in_use (elements q ! j) = 1)" for a
    using len by (auto simp: busy_nth)
  ultimately show "busy q' = (if u = 1 then insert (address (elements q ! i)) (busy q) else busy q - {address (elements q ! i)})"
    using u i address_inj[OF q i] by (intro set_eqI) (auto, metis+)
qed

lemma allocate_ok:
  assumes "ring_ok q" "queue_allocate q = (a, q')"
  shows "ring_ok q'" "busy q' = insert a (busy q)" "a = address (elements q ! head q)"
proof -
  have h: "head q < QUEUE_SIZE" "tail q < QUEUE_SIZE" using assms(1) by (auto simp: ring_ok_def)
  have a: "a = address (elements q ! head q)"
    "q' = q\<lparr>elements := (elements q)[head q := (elements q ! head q)\<lparr>in_use := 1\<rparr>], head := (head q + 1) mod QUEUE_SIZE, tail := tail q\<rparr>"
    using assms(2) by (auto simp: queue_allocate_def Let_def)
  have "(head q + 1) mod QUEUE_SIZE < QUEUE_SIZE" by (simp add: QUEUE_SIZE_def)
  with mark_ok[OF assms(1) h(1), of 1 "(head q + 1) mod QUEUE_SIZE" "tail q"] h(2)
  show "ring_ok q'" "busy q' = insert a (busy q)" "a = address (elements q ! head q)"
    unfolding a by simp_all
qed

lemma free_head:
  assumes "ring_ok q" "\<not> must_wait q"
  shows "address (elements q ! head q) \<notin> busy q"
proof
  have h: "head q < QUEUE_SIZE" "length (elements q) = QUEUE_SIZE" using assms(1) by (auto simp: ring_ok_def)
  assume "address (elements q ! head q) \<in> busy q"
  with h obtain i where "i < QUEUE_SIZE" "address (elements q ! head q) = address (elements q ! i)" "in_use (elements q ! i) = 1"
    by (auto simp: busy_nth)
  with address_inj[OF assms(1) h(1)] assms(2) show False by (auto simp: must_wait_def)
qed

lemma release_loop_hit:
  assumes "ring_ok q" "i < QUEUE_SIZE" "address (elements q ! i) = a"
  shows "j \<le> i \<Longrightarrow> release_loop q a j =
     q\<lparr>elements := (elements q)[i := (elements q ! i)\<lparr>in_use := 0\<rparr>], tail := (tail q + 1) mod QUEUE_SIZE\<rparr>"
proof (induction "i - j" arbitrary: j)
  case 0
  then have "j = i" by simp
  then show ?case using assms by (subst release_loop.simps) simp
next
  case (Suc m)
  then have j: "j < i" "m = i - Suc j" by simp_all
  then have "address (elements q ! j) \<noteq> a" using address_inj[OF assms(1), of i j] assms(2,3) by auto
  with Suc(1)[OF j(2)] j(1) assms(2) show ?case by (subst release_loop.simps) simp
qed

lemma queue_release_hit:
  assumes "ring_ok q" "i < QUEUE_SIZE" "address (elements q ! i) = a"
  shows "queue_release q a =
     q\<lparr>elements := (elements q)[i := (elements q ! i)\<lparr>in_use := 0\<rparr>], tail := (tail q + 1) mod QUEUE_SIZE\<rparr>"
  unfolding queue_release_def using release_loop_hit[OF assms, of 0] by simp

lemma release_ok:
  assumes "ring_ok q" "a \<in> busy q"
  shows "ring_ok (queue_release q a)" "busy (queue_release q a) = busy q - {a}"
proof -
  have h: "head q < QUEUE_SIZE" "length (elements q) = QUEUE_SIZE" using assms(1) by (auto simp: ring_ok_def)
  obtain i where i: "i < QUEUE_SIZE" "address (elements q ! i) = a" using assms(2) h(2) by (auto simp: busy_nth)
  have "(tail q + 1) mod QUEUE_SIZE < QUEUE_SIZE" by (simp add: QUEUE_SIZE_def)
  from mark_ok[OF assms(1) i(1) _ h(1) this, of 0] i(2)
  show "ring_ok (queue_release q a)" "busy (queue_release q a) = busy q - {a}"
    unfolding queue_release_hit[OF assms(1) i] by simp_all
qed

lemma remove1_held:
  assumes "distinct (map snd h)" "(t, a) \<in> set h"
  shows "distinct (map snd (remove1 (t, a) h))" "snd ` set (remove1 (t, a) h) = snd ` set h - {a}"
  using assms by (induction h) (auto, force+)

lemma pool_step_ok: "pool_step p p' \<Longrightarrow> pool_ok p \<Longrightarrow> pool_ok p'"
proof (induction rule: pool_step.induct)
  case (alloc t p a q)
  then show ?case using allocate_ok[of "ring p" a q] free_head[of "ring p"] by (auto simp: pool_ok_def)
next
  case (retry t p a q)
  then show ?case using allocate_ok[of "ring p" a q] free_head[of "ring p"]
    by (auto simp: pool_ok_def distinct_remove1 dest: notin_set_remove1)
next
  case (release_quiet t a p)
  then have "a \<in> busy (ring p)" by (force simp: pool_ok_def)
  with release_quiet show ?case using release_ok[of "ring p" a] remove1_held[of "held p" t a] by (auto simp: pool_ok_def)
next
  case (release_signal t a p w)
  then have "a \<in> busy (ring p)" by (force simp: pool_ok_def)
  with release_signal show ?case using release_ok[of "ring p" a] remove1_held[of "held p" t a]
    by (auto simp: pool_ok_def distinct_remove1 dest: notin_set_remove1)
qed (auto simp: pool_ok_def distinct_remove1 dest: notin_set_remove1)

lemma init_elements_ok:
  "init_elements n ms = Some es \<Longrightarrow>
   length es = n \<and> map Some (map address es) = take n ms \<and> (\<forall>e \<in> set es. in_use e = 0)"
  by (induction n ms arbitrary: es rule: init_elements.induct) (auto split: bind_splits)

lemma queue_init_ok:
  assumes "distinct ms" "queue_init ms = Some q"
  shows "ring_ok q" "busy q = {}" "map Some (addresses q) = take QUEUE_SIZE ms" "head q = 0" "tail q = 0"
    "\<forall>e \<in> set (elements q). in_use e = 0"
proof -
  obtain es where es: "init_elements QUEUE_SIZE ms = Some es" "q = \<lparr>elements = es, head = 0, tail = 0\<rparr>"
    using assms(2) by (auto simp: queue_init_def split: bind_splits)
  note e = init_elements_ok[OF es(1)]
  have "distinct (map Some (map address es))" using e assms(1) by (metis distinct_take)
  then have "distinct (map address es)" by (simp only: distinct_map)
  with e es show "ring_ok q" by (auto simp: ring_ok_def addresses_def QUEUE_SIZE_def)
  show "busy q = {}" "map Some (addresses q) = take QUEUE_SIZE ms" "head q = 0" "tail q = 0"
    "\<forall>e \<in> set (elements q). in_use e = 0"
    using e es by (auto simp: busy_def addresses_def)
qed

lemma pool_reachable_ok:
  assumes "ring_ok q" "busy q = {}" "pool_reachable q p"
  shows "pool_ok p"
  using assms(3) unfolding pool_reachable_def
proof (induction rule: rtranclp_induct)
  case base
  then show ?case using assms(1,2) by (simp add: pool_ok_def pool_start_def)
qed (rule pool_step_ok)

section \<open>A client that returns blocks in order\<close>

text \<open>
  A client that asks (True) or gives back its oldest block (False), with the list of blocks
  it has out, oldest first; a request that would block does nothing.
\<close>

fun fifo_client :: "('q \<Rightarrow> bool) \<Rightarrow> ('q \<Rightarrow> nat \<times> 'q) \<Rightarrow> ('q \<Rightarrow> nat \<Rightarrow> 'q) \<Rightarrow> 'q \<Rightarrow> nat list \<Rightarrow> bool list \<Rightarrow> 'q \<times> nat list" where
  "fifo_client blocked get give q bs [] = (q, bs)"
| "fifo_client blocked get give q bs (True # rs) =
     (if blocked q then fifo_client blocked get give q bs rs
      else (let (a, q') = get q in fifo_client blocked get give q' (bs @ [a]) rs))"
| "fifo_client blocked get give q bs (False # rs) =
     (case bs of [] \<Rightarrow> fifo_client blocked get give q bs rs
      | b # bs' \<Rightarrow> fifo_client blocked get give (give q b) bs' rs)"

fun outstanding :: "nat \<Rightarrow> nat \<Rightarrow> bool list \<Rightarrow> nat" where
  "outstanding cap n [] = n"
| "outstanding cap n (r # rs) = outstanding cap (if r then (if n < cap then n + 1 else n) else n - 1) rs"

section \<open>The contract of a bounded pool used in order\<close>

text \<open>
  What a client that gives its blocks back in the order it got them may rely on: at most
  \<^verbatim>\<open>cap\<close> blocks are out, a request blocks exactly when that many are out, and each
  request adds the next block at the end of the list of outstanding ones.
\<close>

locale fifo_pool =
  fixes cap :: nat
    and inv :: "'q \<Rightarrow> nat list \<Rightarrow> bool"
    and blocked :: "'q \<Rightarrow> bool"
    and get :: "'q \<Rightarrow> nat \<times> 'q"
    and give :: "'q \<Rightarrow> nat \<Rightarrow> 'q"
  assumes blocked_iff: "inv q bs \<Longrightarrow> blocked q \<longleftrightarrow> length bs = cap"
    and get_inv: "inv q bs \<Longrightarrow> length bs < cap \<Longrightarrow> get q = (a, q') \<Longrightarrow> a \<notin> set bs \<and> inv q' (bs @ [a])"
    and give_inv: "inv q (b # bs) \<Longrightarrow> inv (give q b) bs"
    and bounded: "inv q bs \<Longrightarrow> length bs \<le> cap"
begin

lemma client_inv:
  "inv q bs \<Longrightarrow> fifo_client blocked get give q bs rs = (q', bs') \<Longrightarrow>
   inv q' bs' \<and> length bs' = outstanding cap (length bs) rs"
proof (induction rs arbitrary: q bs)
  case step: (Cons r rs)
  have full: "blocked q \<longleftrightarrow> length bs = cap" "length bs \<le> cap" using blocked_iff bounded step.prems(1) by auto
  show ?case
  proof (cases r)
    case True
    show ?thesis
    proof (cases "blocked q")
      case True
      with step full \<open>r\<close> show ?thesis by simp
    next
      case False
      obtain a q1 where g: "get q = (a, q1)" by (rule prod.exhaust)
      have "inv q1 (bs @ [a])" using get_inv[OF step.prems(1) _ g] False full by simp
      with step.IH[of q1 "bs @ [a]"] step.prems(2) g False full \<open>r\<close> show ?thesis by simp
    qed
  next
    case False
    show ?thesis
    proof (cases bs)
      case (Cons b bs1)
      have "inv (give q b) bs1" using step.prems(1) Cons give_inv by simp
      from step.IH[OF this] Cons step.prems(2) \<open>\<not> r\<close> show ?thesis by simp
    qed (use step \<open>\<not> r\<close> in simp)
  qed
qed simp

end

section \<open>The ring used in order\<close>

definition ring_at :: "ImageQueue \<Rightarrow> nat \<Rightarrow> QueueElement" where
  "ring_at q i = elements q ! ((tail q + i) mod QUEUE_SIZE)"

definition fifo_inv :: "ImageQueue \<Rightarrow> nat list \<Rightarrow> bool" where
  "fifo_inv q bs \<longleftrightarrow> ring_ok q \<and> length bs \<le> QUEUE_SIZE \<and> head q = (tail q + length bs) mod QUEUE_SIZE \<and>
     (\<forall>i < QUEUE_SIZE. in_use (ring_at q i) = (if i < length bs then 1 else 0)) \<and>
     (\<forall>i < length bs. bs ! i = address (ring_at q i))"

lemma mod_size_inj: "i < QUEUE_SIZE \<Longrightarrow> j < QUEUE_SIZE \<Longrightarrow> (t + i) mod QUEUE_SIZE = (t + j) mod QUEUE_SIZE \<Longrightarrow> i = j"
proof (induction i j rule: linorder_wlog)
  case (le i j)
  have "QUEUE_SIZE dvd j - i" using mod_eq_dvd_iff_nat[of "t + i" "t + j" QUEUE_SIZE] le by simp
  moreover have "j - i < QUEUE_SIZE" using le by simp
  ultimately have "j - i = 0" using nat_dvd_not_less neq0_conv by blast
  with le show ?case by simp
qed simp

lemma mod_size_less [simp]: "n mod QUEUE_SIZE < QUEUE_SIZE"
  by (simp add: QUEUE_SIZE_def)

lemma must_wait_fifo:
  assumes "fifo_inv q bs"
  shows "must_wait q \<longleftrightarrow> length bs = QUEUE_SIZE"
proof (cases "length bs < QUEUE_SIZE")
  case True
  then have "in_use (ring_at q (length bs)) = 0" using assms by (simp add: fifo_inv_def)
  with True assms show ?thesis by (simp add: must_wait_def fifo_inv_def ring_at_def)
next
  case False
  then have b: "length bs = QUEUE_SIZE" using assms by (simp add: fifo_inv_def)
  then have "in_use (ring_at q 0) = 1" using assms by (simp add: fifo_inv_def QUEUE_SIZE_def)
  moreover have "head q = (tail q + 0) mod QUEUE_SIZE" using assms b by (simp add: fifo_inv_def)
  ultimately show ?thesis using b by (simp add: must_wait_def ring_at_def)
qed

lemma allocate_fifo:
  assumes inv: "fifo_inv q bs" and room: "length bs < QUEUE_SIZE" and get: "queue_allocate q = (a, q')"
  shows "a \<notin> set bs \<and> fifo_inv q' (bs @ [a])"
proof -
  let ?n = "length bs"
  have ok: "ring_ok q" and len: "length (elements q) = QUEUE_SIZE" and hd: "head q = (tail q + ?n) mod QUEUE_SIZE"
    using inv by (auto simp: fifo_inv_def ring_ok_def)
  note al = allocate_ok[OF ok get]
  have q': "q' = q\<lparr>elements := (elements q)[head q := (elements q ! head q)\<lparr>in_use := 1\<rparr>], head := (head q + 1) mod QUEUE_SIZE\<rparr>"
    using get by (auto simp: queue_allocate_def Let_def)
  have at: "ring_at q' i = (if i = ?n then (ring_at q i)\<lparr>in_use := 1\<rparr> else ring_at q i)" if "i < QUEUE_SIZE" for i
    using that room len hd mod_size_inj[of i ?n "tail q"] by (auto simp: ring_at_def q' nth_list_update)
  have a: "a = address (ring_at q ?n)" using al(3) hd by (simp add: ring_at_def)
  have "\<not> must_wait q" using must_wait_fifo[OF inv] room by simp
  then have "a \<notin> busy q" using free_head[OF ok] al(3) by simp
  moreover have "set bs \<subseteq> busy q"
  proof
    fix b assume "b \<in> set bs"
    then obtain i where i: "i < ?n" "b = address (ring_at q i)" "in_use (ring_at q i) = 1"
      using inv by (auto simp: fifo_inv_def in_set_conv_nth)
    then show "b \<in> busy q" using len by (auto simp: busy_def ring_at_def)
  qed
  moreover have "fifo_inv q' (bs @ [a])"
    unfolding fifo_inv_def
  proof (intro conjI allI impI)
    show "ring_ok q'" by (rule al(1))
    show "length (bs @ [a]) \<le> QUEUE_SIZE" using room by simp
    show "head q' = (tail q' + length (bs @ [a])) mod QUEUE_SIZE"
      by (simp add: q' hd mod_Suc_eq)
    fix i
    show "in_use (ring_at q' i) = (if i < length (bs @ [a]) then 1 else 0)" if "i < QUEUE_SIZE"
      using inv that at[OF that] by (auto simp: fifo_inv_def)
    show "(bs @ [a]) ! i = address (ring_at q' i)" if "i < length (bs @ [a])"
      using inv that at[of i] room a by (auto simp: fifo_inv_def nth_append less_Suc_eq)
  qed
  ultimately show ?thesis by blast
qed

lemma release_fifo:
  assumes inv: "fifo_inv q (b # bs)"
  shows "fifo_inv (queue_release q b) bs"
proof -
  have ok: "ring_ok q" and len: "length (elements q) = QUEUE_SIZE" and t: "tail q < QUEUE_SIZE"
    and n: "length bs < QUEUE_SIZE" and hd: "head q = (tail q + Suc (length bs)) mod QUEUE_SIZE"
    using inv by (auto simp: fifo_inv_def ring_ok_def)
  have b: "b = address (ring_at q 0)" "in_use (ring_at q 0) = 1" using inv by (auto simp: fifo_inv_def QUEUE_SIZE_def)
  have tm: "tail q mod QUEUE_SIZE = tail q" using t by simp
  have q': "queue_release q b = q\<lparr>elements := (elements q)[tail q := (elements q ! tail q)\<lparr>in_use := 0\<rparr>], tail := (tail q + 1) mod QUEUE_SIZE\<rparr>"
    using queue_release_hit[OF ok t] b tm by (simp add: ring_at_def)
  have busy: "b \<in> busy q" using b len t tm by (auto simp: busy_def ring_at_def)
  have ix: "((tail q + 1) mod QUEUE_SIZE + i) mod QUEUE_SIZE = (tail q + Suc i) mod QUEUE_SIZE" for i
    by (simp add: mod_simps)
  have at: "ring_at (queue_release q b) i = (if i = QUEUE_SIZE - 1 then (ring_at q 0)\<lparr>in_use := 0\<rparr> else ring_at q (Suc i))" if "i < QUEUE_SIZE" for i
  proof (cases "i = QUEUE_SIZE - 1")
    case True
    then have "(tail q + Suc i) mod QUEUE_SIZE = tail q" using t by (simp add: QUEUE_SIZE_def)
    with True show ?thesis using len t tm ix[of i] by (simp add: ring_at_def q')
  next
    case False
    with that have "Suc i < QUEUE_SIZE" by (simp add: QUEUE_SIZE_def)
    then have "(tail q + Suc i) mod QUEUE_SIZE \<noteq> tail q"
      using mod_size_inj[of "Suc i" 0 "tail q"] tm by (auto simp: QUEUE_SIZE_def)
    with False show ?thesis using ix[of i] by (simp add: ring_at_def q')
  qed
  show ?thesis
    unfolding fifo_inv_def
  proof (intro conjI allI impI)
    show "ring_ok (queue_release q b)" by (rule release_ok(1)[OF ok busy])
    show "length bs \<le> QUEUE_SIZE" using n by simp
    show "head (queue_release q b) = (tail (queue_release q b) + length bs) mod QUEUE_SIZE"
      using hd ix[of "length bs"] by (simp add: q')
    fix i
    show "in_use (ring_at (queue_release q b) i) = (if i < length bs then 1 else 0)" if "i < QUEUE_SIZE"
      using inv that at[OF that] n by (auto simp: fifo_inv_def)
    show "bs ! i = address (ring_at (queue_release q b) i)" if "i < length bs"
    proof -
      have "\<forall>j < length (b # bs). (b # bs) ! j = address (ring_at q j)" using inv unfolding fifo_inv_def by blast
      then have "bs ! i = address (ring_at q (Suc i))" using that by (auto dest: spec[of _ "Suc i"])
      moreover have "i \<noteq> QUEUE_SIZE - 1" "i < QUEUE_SIZE" using that n by simp_all
      ultimately show ?thesis using at[of i] by simp
    qed
  qed
qed

interpretation img: fifo_pool QUEUE_SIZE fifo_inv must_wait queue_allocate queue_release
proof (unfold_locales, goal_cases)
  case (1 q bs)
  then show ?case by (rule must_wait_fifo)
next
  case (2 q bs a q')
  then show ?case by (rule allocate_fifo)
next
  case (3 q b bs)
  then show ?case by (rule release_fifo)
next
  case (4 q bs)
  then show ?case by (simp add: fifo_inv_def)
qed

lemma fifo_inv_init:
  assumes "distinct ms" "queue_init ms = Some q"
  shows "fifo_inv q []"
proof -
  note q = queue_init_ok[OF assms]
  have "length (elements q) = QUEUE_SIZE" using q(1) by (simp add: ring_ok_def)
  with q show ?thesis by (auto simp: fifo_inv_def ring_at_def)
qed

definition pool_at :: "ImageQueue \<Rightarrow> (nat \<times> nat) list \<Rightarrow> nat list \<Rightarrow> nat list \<Rightarrow> pool" where
  "pool_at r h w k = \<lparr>ring = r, held = h, waiting = w, woken = k\<rparr>"

lemma run_alloc:
  "t \<notin> set w \<Longrightarrow> t \<notin> set k \<Longrightarrow> \<not> must_wait r \<Longrightarrow> queue_allocate r = (a, r') \<Longrightarrow> h' = (t, a) # h \<Longrightarrow>
   pool_step\<^sup>*\<^sup>* s (pool_at r h w k) \<Longrightarrow> pool_step\<^sup>*\<^sup>* s (pool_at r' h' w k)"
  using pool_step.alloc[of t "pool_at r h w k" a r'] by (auto simp: pool_at_def intro: rtranclp.intros(2))

lemma run_wait:
  "t \<notin> set w \<Longrightarrow> t \<notin> set k \<Longrightarrow> must_wait r \<Longrightarrow> w' = t # w \<Longrightarrow>
   pool_step\<^sup>*\<^sup>* s (pool_at r h w k) \<Longrightarrow> pool_step\<^sup>*\<^sup>* s (pool_at r h w' k)"
  using pool_step.wait[of t "pool_at r h w k"] by (auto simp: pool_at_def intro: rtranclp.intros(2))

lemma run_rewait:
  "t \<in> set k \<Longrightarrow> must_wait r \<Longrightarrow> w' = t # w \<Longrightarrow> k' = remove1 t k \<Longrightarrow>
   pool_step\<^sup>*\<^sup>* s (pool_at r h w k) \<Longrightarrow> pool_step\<^sup>*\<^sup>* s (pool_at r h w' k')"
  using pool_step.rewait[of t "pool_at r h w k"] by (auto simp: pool_at_def intro: rtranclp.intros(2))

lemma run_retry:
  "t \<in> set k \<Longrightarrow> \<not> must_wait r \<Longrightarrow> queue_allocate r = (a, r') \<Longrightarrow> h' = (t, a) # h \<Longrightarrow> k' = remove1 t k \<Longrightarrow>
   pool_step\<^sup>*\<^sup>* s (pool_at r h w k) \<Longrightarrow> pool_step\<^sup>*\<^sup>* s (pool_at r' h' w k')"
  using pool_step.retry[of t "pool_at r h w k" a r'] by (auto simp: pool_at_def intro: rtranclp.intros(2))

lemma run_signal:
  "(t, a) \<in> set h \<Longrightarrow> t \<notin> set w \<Longrightarrow> t \<notin> set k \<Longrightarrow> u \<in> set w \<Longrightarrow> queue_release r a = r' \<Longrightarrow> h' = remove1 (t, a) h \<Longrightarrow>
   w' = remove1 u w \<Longrightarrow> k' = u # k \<Longrightarrow>
   pool_step\<^sup>*\<^sup>* s (pool_at r h w k) \<Longrightarrow> pool_step\<^sup>*\<^sup>* s (pool_at r' h' w' k')"
  using pool_step.release_signal[of t a "pool_at r h w k" u] by (auto simp: pool_at_def intro: rtranclp.intros(2))

section \<open>Properties\<close>

text \<open>
  C9. Mutual exclusion: however the threads interleave, with signals, spurious wake-ups
  and waits in between, no block is ever in the hands of two threads, the blocks handed
  out are exactly those marked in use, and the indices stay inside the array.
\<close>

theorem pool_exclusive:
  assumes "distinct ms" "queue_init ms = Some q" "pool_reachable q p"
  shows "distinct (map snd (held p)) \<and> snd ` set (held p) = busy (ring p) \<and>
     head (ring p) < length (elements (ring p)) \<and> tail (ring p) < length (elements (ring p))"
  using pool_reachable_ok[OF queue_init_ok(1,2)[OF assms(1,2)] assms(3)]
  by (simp add: pool_ok_def ring_ok_def)

definition example_blocks :: "nat option list" where
  "example_blocks = [Some 10, Some 20, Some 30, Some 40, Some 50]"

definition example_ring :: "int list \<Rightarrow> nat \<Rightarrow> nat \<Rightarrow> ImageQueue" where
  "example_ring us h t = \<lparr>elements = map2 (\<lambda>a u. \<lparr>address = a, in_use = u\<rparr>) [10, 20, 30, 40, 50] us, head = h, tail = t\<rparr>"

lemma example_release:
  "queue_release (example_ring [1, 1, 1, 1, 1] 0 0) 20 = example_ring [1, 0, 1, 1, 1] 0 1"
  "queue_release (example_ring [1, 0, 1, 1, 1] 0 1) 10 = example_ring [0, 0, 1, 1, 1] 0 2"
  by code_simp+

lemma example_allocate:
  "queue_allocate (example_ring [0, 0, 0, 0, 0] 0 0) = (10, example_ring [1, 0, 0, 0, 0] 1 0)"
  "queue_allocate (example_ring [1, 0, 0, 0, 0] 1 0) = (20, example_ring [1, 1, 0, 0, 0] 2 0)"
  "queue_allocate (example_ring [1, 1, 0, 0, 0] 2 0) = (30, example_ring [1, 1, 1, 0, 0] 3 0)"
  "queue_allocate (example_ring [1, 1, 1, 0, 0] 3 0) = (40, example_ring [1, 1, 1, 1, 0] 4 0)"
  "queue_allocate (example_ring [1, 1, 1, 1, 0] 4 0) = (50, example_ring [1, 1, 1, 1, 1] 0 0)"
  "queue_allocate (example_ring [0, 0, 1, 1, 1] 0 2) = (10, example_ring [1, 0, 1, 1, 1] 1 2)"
  by code_simp+

lemma example_must_wait:
  "\<not> must_wait (example_ring [0, 0, 0, 0, 0] 0 0)" "\<not> must_wait (example_ring [1, 0, 0, 0, 0] 1 0)"
  "\<not> must_wait (example_ring [1, 1, 0, 0, 0] 2 0)" "\<not> must_wait (example_ring [1, 1, 1, 0, 0] 3 0)"
  "\<not> must_wait (example_ring [1, 1, 1, 1, 0] 4 0)" "\<not> must_wait (example_ring [0, 0, 1, 1, 1] 0 2)"
  "\<not> must_wait (example_ring [1, 0, 1, 1, 1] 1 2)"
  "must_wait (example_ring [1, 1, 1, 1, 1] 0 0)" "must_wait (example_ring [1, 0, 1, 1, 1] 0 1)"
  by code_simp+

lemmas example_eval = example_allocate example_must_wait example_release

lemma example_init: "queue_init example_blocks = Some (example_ring [0, 0, 0, 0, 0] 0 0)"
  by (simp add: queue_init_def example_blocks_def example_ring_def QUEUE_SIZE_def eval_nat_numeral)

theorem pool_exclusive_witness:
  "pool_reachable (example_ring [0, 0, 0, 0, 0] 0 0) (pool_start (example_ring [0, 0, 0, 0, 0] 0 0)) \<and>
   distinct (map snd (held (pool_start (example_ring [0, 0, 0, 0, 0] 0 0))))"
proof -
  have r: "pool_reachable (example_ring [0, 0, 0, 0, 0] 0 0) (pool_start (example_ring [0, 0, 0, 0, 0] 0 0))"
    by (simp add: pool_reachable_def)
  have "distinct example_blocks" by (simp add: example_blocks_def)
  from pool_exclusive[OF this example_init r] r show ?thesis by blast
qed

text \<open>
  C20. Used in order the pool is a bounded FIFO: a client that gives blocks back in the
  order it got them always has as many blocks out as a counter bounded by five says, a
  request blocks exactly when all five are out, and the outstanding blocks lie in the ring
  from \<^verbatim>\<open>tail\<close> on.
\<close>

theorem queue_fifo_refines:
  assumes "distinct ms" "queue_init ms = Some q" "fifo_client must_wait queue_allocate queue_release q [] rs = (q', bs)"
  shows "length bs = outstanding 5 0 rs \<and> length bs \<le> 5 \<and> (must_wait q' \<longleftrightarrow> length bs = 5) \<and>
     (\<forall>i < length bs. bs ! i = address (elements q' ! ((tail q' + i) mod 5)))"
proof -
  from img.client_inv[OF fifo_inv_init[OF assms(1,2)] assms(3)]
  have f: "fifo_inv q' bs" "length bs = outstanding 5 0 rs" by (simp_all add: QUEUE_SIZE_def)
  then show ?thesis using must_wait_fifo[OF f(1)] by (simp add: fifo_inv_def ring_at_def QUEUE_SIZE_def)
qed

theorem queue_fifo_refines_witness:
  "\<exists>q' bs. fifo_client must_wait queue_allocate queue_release (example_ring [0, 0, 0, 0, 0] 0 0) [] [True, True, False] = (q', bs) \<and> length bs = 1"
proof -
  obtain q' bs where c: "fifo_client must_wait queue_allocate queue_release (example_ring [0, 0, 0, 0, 0] 0 0) [] [True, True, False] = (q', bs)"
    by (rule prod.exhaust)
  have "distinct example_blocks" by (simp add: example_blocks_def)
  from queue_fifo_refines[OF this example_init c] c show ?thesis by (simp add: QUEUE_SIZE_def)
qed


end
