(* ===== verification/Crc.thy ===== *)
theory Crc
  imports CLib
begin

text \<open>
  The CRC routines of \<^verbatim>\<open>crccheck/crc16.c\<close>: bit reversal, the three widths with their
  parameter sets, and what makes them checksums: linearity, detection of every error
  confined to one byte, and the zero residue of a message followed by its own checksum.
\<close>

section \<open>Definitions\<close>

text \<open>\<^verbatim>\<open>CRC_8\<close>, \<^verbatim>\<open>CRC_16\<close> and \<^verbatim>\<open>CRC_32\<close> have the same fields at three widths.\<close>

record 'w crc_type =
  poly :: 'w
  InitValue :: 'w
  xor_out :: 'w
  InputReverse :: u8
  OutputReverse :: u8

type_synonym CRC_8 = "u8 crc_type"
type_synonym CRC_16 = "u16 crc_type"
type_synonym CRC_32 = "u32 crc_type"

definition crc_8 :: CRC_8 where "crc_8 = \<lparr>poly = 0x07, InitValue = 0x00, xor_out = 0x00, InputReverse = 0, OutputReverse = 0\<rparr>"
definition crc_8_ITU :: CRC_8 where "crc_8_ITU = \<lparr>poly = 0x07, InitValue = 0x00, xor_out = 0x55, InputReverse = 0, OutputReverse = 0\<rparr>"
definition crc_8_ROHC :: CRC_8 where "crc_8_ROHC = \<lparr>poly = 0x07, InitValue = 0xff, xor_out = 0x00, InputReverse = 1, OutputReverse = 1\<rparr>"
definition crc_8_MAXIM :: CRC_8 where "crc_8_MAXIM = \<lparr>poly = 0x31, InitValue = 0x00, xor_out = 0x00, InputReverse = 1, OutputReverse = 1\<rparr>"
definition crc_16_IBM :: CRC_16 where "crc_16_IBM = \<lparr>poly = 0x8005, InitValue = 0x0000, xor_out = 0x0000, InputReverse = 1, OutputReverse = 1\<rparr>"
definition crc_16_MAXIM :: CRC_16 where "crc_16_MAXIM = \<lparr>poly = 0x8005, InitValue = 0x0000, xor_out = 0xffff, InputReverse = 1, OutputReverse = 1\<rparr>"
definition crc_16_USB :: CRC_16 where "crc_16_USB = \<lparr>poly = 0x8005, InitValue = 0xffff, xor_out = 0xffff, InputReverse = 1, OutputReverse = 1\<rparr>"
definition crc_16_MODBUS :: CRC_16 where "crc_16_MODBUS = \<lparr>poly = 0x8005, InitValue = 0xffff, xor_out = 0x0000, InputReverse = 1, OutputReverse = 1\<rparr>"
definition crc_16_CCITT :: CRC_16 where "crc_16_CCITT = \<lparr>poly = 0x1021, InitValue = 0x0000, xor_out = 0x0000, InputReverse = 1, OutputReverse = 1\<rparr>"
definition crc_16_CCITT_FALSE :: CRC_16 where "crc_16_CCITT_FALSE = \<lparr>poly = 0x1021, InitValue = 0xffff, xor_out = 0x0000, InputReverse = 0, OutputReverse = 0\<rparr>"
definition crc_16_X5 :: CRC_16 where "crc_16_X5 = \<lparr>poly = 0x1021, InitValue = 0xffff, xor_out = 0xffff, InputReverse = 1, OutputReverse = 1\<rparr>"
definition crc_16_XMODEM :: CRC_16 where "crc_16_XMODEM = \<lparr>poly = 0x1021, InitValue = 0x0000, xor_out = 0x0000, InputReverse = 0, OutputReverse = 0\<rparr>"
definition crc_16_DNP :: CRC_16 where "crc_16_DNP = \<lparr>poly = 0x3d65, InitValue = 0x0000, xor_out = 0xffff, InputReverse = 1, OutputReverse = 1\<rparr>"
definition crc_32 :: CRC_32 where "crc_32 = \<lparr>poly = 0x04c11db7, InitValue = 0xffffffff, xor_out = 0xffffffff, InputReverse = 1, OutputReverse = 1\<rparr>"
definition crc_32_MPEG2 :: CRC_32 where "crc_32_MPEG2 = \<lparr>poly = 0x04c11db7, InitValue = 0xffffffff, xor_out = 0x00000000, InputReverse = 0, OutputReverse = 0\<rparr>"

definition reverse8 :: "u8 \<Rightarrow> u8" where
  "reverse8 data = fold (\<lambda>i temp. temp OR push_bit (7 - i) (drop_bit i data AND 0x01)) [0 ..< 8] 0"

definition reverse16 :: "u16 \<Rightarrow> u16" where
  "reverse16 data = fold (\<lambda>i temp. temp OR push_bit (15 - i) (drop_bit i data AND 0x0001)) [0 ..< 16] 0"

definition reverse32 :: "u32 \<Rightarrow> u32" where
  "reverse32 data = fold (\<lambda>i temp. temp OR push_bit (31 - i) (drop_bit i data AND 0x01)) [0 ..< 32] 0"

text \<open>The bodies of the inner loops.\<close>

definition crc8_bit :: "CRC_8 \<Rightarrow> u8 \<Rightarrow> u8" where
  "crc8_bit type crc = (if crc AND 0x80 \<noteq> 0 then push_bit 1 crc XOR poly type else push_bit 1 crc)"

definition crc16_bit :: "CRC_16 \<Rightarrow> u16 \<Rightarrow> u16" where
  "crc16_bit type crc = (if crc AND 0x8000 \<noteq> 0 then push_bit 1 crc XOR poly type else push_bit 1 crc)"

definition crc32_bit :: "CRC_32 \<Rightarrow> u32 \<Rightarrow> u32" where
  "crc32_bit type crc = (if crc AND 0x80000000 \<noteq> 0 then push_bit 1 crc XOR poly type else push_bit 1 crc)"

definition crc_input :: "'w crc_type \<Rightarrow> u8 \<Rightarrow> u8" where
  "crc_input type data = (if InputReverse type = 1 then reverse8 data else data)"

definition crc8_byte :: "CRC_8 \<Rightarrow> u8 \<Rightarrow> u8 \<Rightarrow> u8" where
  "crc8_byte type crc data = (crc8_bit type ^^ 8) (crc XOR crc_input type data)"

definition crc16_byte :: "CRC_16 \<Rightarrow> u16 \<Rightarrow> u8 \<Rightarrow> u16" where
  "crc16_byte type crc data = (crc16_bit type ^^ 8) (crc XOR push_bit 8 (ucast (crc_input type data)))"

definition crc32_byte :: "CRC_32 \<Rightarrow> u32 \<Rightarrow> u8 \<Rightarrow> u32" where
  "crc32_byte type crc data = (crc32_bit type ^^ 8) (crc XOR push_bit 24 (ucast (crc_input type data)))"

text \<open>
  The outer loop reads \<^verbatim>\<open>num\<close> bytes from \<^verbatim>\<open>addr\<close> on, which must be there; a negative \<^verbatim>\<open>num\<close>
  reads none.
\<close>

fun crc_loop :: "('w \<Rightarrow> u8 \<Rightarrow> 'w) \<Rightarrow> 'w \<Rightarrow> u8 list \<Rightarrow> nat \<Rightarrow> 'w option" where
  "crc_loop step crc addr 0 = Some crc"
| "crc_loop step crc [] (Suc n) = None"
| "crc_loop step crc (d # ds) (Suc n) = crc_loop step (step crc d) ds n"

definition crc8 :: "u8 list \<Rightarrow> int \<Rightarrow> CRC_8 \<Rightarrow> u8 option" where
  "crc8 addr num type =
     do { crc \<leftarrow> crc_loop (crc8_byte type) (InitValue type) addr (nat num);
          Some ((if OutputReverse type = 1 then reverse8 crc else crc) XOR xor_out type) }"

definition crc16 :: "u8 list \<Rightarrow> int \<Rightarrow> CRC_16 \<Rightarrow> u16 option" where
  "crc16 addr num type =
     do { crc \<leftarrow> crc_loop (crc16_byte type) (InitValue type) addr (nat num);
          Some ((if OutputReverse type = 1 then reverse16 crc else crc) XOR xor_out type) }"

definition crc32 :: "u8 list \<Rightarrow> int \<Rightarrow> CRC_32 \<Rightarrow> u32 option" where
  "crc32 addr num type =
     do { crc \<leftarrow> crc_loop (crc32_byte type) (InitValue type) addr (nat num);
          Some ((if OutputReverse type = 1 then reverse32 crc else crc) XOR xor_out type) }"

section \<open>Bit reversal\<close>

definition word_rev :: "'a::len word \<Rightarrow> 'a word" where
  "word_rev w = fold (\<lambda>i temp. temp OR push_bit (LENGTH('a) - 1 - i) (drop_bit i w AND 1)) [0 ..< LENGTH('a)] 0"

lemma bit_word_rev_prefix:
  fixes w :: "'a::len word"
  assumes "n \<le> LENGTH('a)" "j < LENGTH('a)"
  shows "bit (fold (\<lambda>i temp. temp OR push_bit (LENGTH('a) - 1 - i) (drop_bit i w AND 1)) [0 ..< n] 0) j \<longleftrightarrow>
     LENGTH('a) - 1 - j < n \<and> bit w (LENGTH('a) - 1 - j)"
  using assms(1)
proof (induction n)
  case (Suc n)
  have "bit (push_bit (LENGTH('a) - 1 - n) (drop_bit n w AND 1)) j \<longleftrightarrow> j = LENGTH('a) - 1 - n \<and> bit w n"
    using Suc.prems assms(2) by (auto simp: bit_push_bit_iff bit_and_iff bit_drop_bit_eq bit_1_iff bit_exp_iff)
  moreover have "(LENGTH('a) - 1 - j < n \<or> n = LENGTH('a) - 1 - j) \<longleftrightarrow> LENGTH('a) - 1 - j < Suc n" by auto
  moreover have "j = LENGTH('a) - 1 - n \<longleftrightarrow> n = LENGTH('a) - 1 - j" using Suc.prems assms(2) by auto
  ultimately show ?case using Suc by (auto simp: bit_or_iff)
qed simp

lemma bit_word_rev:
  fixes w :: "'a::len word"
  shows "bit (word_rev w) j \<longleftrightarrow> j < LENGTH('a) \<and> bit w (LENGTH('a) - 1 - j)"
proof (cases "j < LENGTH('a)")
  case True
  then show ?thesis unfolding word_rev_def using bit_word_rev_prefix[OF order_refl True, of w] by simp
next
  case False
  then show ?thesis using bit_imp_le_length by blast
qed

lemma reverse_word_rev: "reverse8 = word_rev" "reverse16 = word_rev" "reverse32 = word_rev"
  by (simp_all add: fun_eq_iff reverse8_def reverse16_def reverse32_def word_rev_def)

lemma word_rev_involution [simp]: "word_rev (word_rev w) = w"
proof (rule bit_word_eqI)
  fix n assume "n < LENGTH('a)"
  then show "bit (word_rev (word_rev w)) n = bit w n" for w :: "'a::len word"
    by (simp add: bit_word_rev)
qed

lemma word_rev_inj: "word_rev a = word_rev b \<longleftrightarrow> a = b"
  by (metis word_rev_involution)

lemma word_rev_xor: "word_rev (a XOR b) = word_rev a XOR word_rev b"
  by (rule bit_word_eqI) (simp add: bit_word_rev bit_xor_iff)

section \<open>The register step\<close>

text \<open>One step of the shift register at any width: shift out the top bit, feed it back.\<close>

definition crc_shift :: "'a::len word \<Rightarrow> 'a word \<Rightarrow> 'a word" where
  "crc_shift g r = push_bit 1 r XOR (if bit r (LENGTH('a) - 1) then g else 0)"

lemma crc_bit_shift:
  "crc8_bit t8 = crc_shift (poly t8)" "crc16_bit t16 = crc_shift (poly t16)" "crc32_bit t32 = crc_shift (poly t32)"
proof -
  have "(r AND 0x80 = 0) \<longleftrightarrow> \<not> bit r 7" for r :: u8 using and_exp_eq_0_iff_not_bit[of r 7] by simp
  then show "crc8_bit t8 = crc_shift (poly t8)" by (auto simp: fun_eq_iff crc8_bit_def crc_shift_def)
  have "(r AND 0x8000 = 0) \<longleftrightarrow> \<not> bit r 15" for r :: u16 using and_exp_eq_0_iff_not_bit[of r 15] by simp
  then show "crc16_bit t16 = crc_shift (poly t16)" by (auto simp: fun_eq_iff crc16_bit_def crc_shift_def)
  have "(r AND 0x80000000 = 0) \<longleftrightarrow> \<not> bit r 31" for r :: u32 using and_exp_eq_0_iff_not_bit[of r 31] by simp
  then show "crc32_bit t32 = crc_shift (poly t32)" by (auto simp: fun_eq_iff crc32_bit_def crc_shift_def)
qed

lemma crc_shift_xor: "crc_shift g (a XOR b) = crc_shift g a XOR crc_shift g b"
  by (rule bit_word_eqI) (auto simp: crc_shift_def bit_xor_iff bit_push_bit_iff)

lemma crc_shift_zero [simp]: "crc_shift g 0 = 0"
  by (simp add: crc_shift_def)

lemma crc_shift_inj:
  fixes g r :: "'a::len word"
  assumes g: "bit g 0" and eq: "crc_shift g r = 0"
  shows "r = 0"
proof -
  have "bit (crc_shift g r) 0 \<longleftrightarrow> bit r (LENGTH('a) - 1)" using g by (simp add: crc_shift_def bit_xor_iff bit_push_bit_iff del: push_bit_Suc)
  then have top: "\<not> bit r (LENGTH('a) - 1)" using eq by simp
  then have p: "push_bit 1 r = 0" using eq by (simp add: crc_shift_def)
  show ?thesis
  proof (rule bit_word_eqI)
    fix n assume n: "n < LENGTH('a)"
    show "bit r n = bit (0 :: 'a word) n"
    proof (cases "n = LENGTH('a) - 1")
      case False
      with n have "Suc n < LENGTH('a)" by linarith
      then have "bit (push_bit 1 r) (Suc n) \<longleftrightarrow> bit r n" by (simp add: bit_push_bit_iff del: push_bit_Suc)
      then show ?thesis using p by simp
    qed (use top in simp)
  qed
qed

lemma xor_zero_eq: "a XOR b = 0 \<Longrightarrow> a = (b :: 'a::len word)"
  by (rule bit_word_eqI) (metis bit_0_eq bit_xor_iff bot2E bot_apply)

lemma crc_shifts_xor: "(crc_shift g ^^ n) (a XOR b) = (crc_shift g ^^ n) a XOR (crc_shift g ^^ n) b"
  by (induction n) (simp_all add: crc_shift_xor)

lemma crc_shifts_zero [simp]: "(crc_shift g ^^ n) 0 = 0"
  by (induction n) simp_all

lemma crc_shifts_inj: "bit g 0 \<Longrightarrow> (crc_shift g ^^ n) a = (crc_shift g ^^ n) b \<Longrightarrow> a = b"
proof (induction n)
  case (Suc n)
  have "crc_shift g ((crc_shift g ^^ n) a XOR (crc_shift g ^^ n) b) = 0"
    using Suc.prems(2) by (simp add: crc_shift_xor)
  from crc_shift_inj[OF Suc.prems(1) this] have "(crc_shift g ^^ n) a XOR (crc_shift g ^^ n) b = 0" .
  then have "(crc_shift g ^^ n) a = (crc_shift g ^^ n) b" by (rule xor_zero_eq)
  with Suc show ?case by blast
qed simp

section \<open>The contract of a checksum register\<close>

text \<open>
  What a byte-wise register promises: feeding a byte is injective in the byte and in the
  register. It detects every change confined to one byte of a message.
\<close>

locale crc_register =
  fixes feed :: "'w \<Rightarrow> u8 \<Rightarrow> 'w"
  assumes feed_byte: "feed r d = feed r d' \<Longrightarrow> d = d'"
    and feed_register: "feed r d = feed r' d \<Longrightarrow> r = r'"
begin

lemma fold_register: "fold (\<lambda>d r. feed r d) ds r = fold (\<lambda>d r. feed r d) ds r' \<Longrightarrow> r = r'"
  by (induction ds arbitrary: r r') (auto dest: feed_register)

lemma one_byte_detected:
  "d \<noteq> d' \<Longrightarrow> fold (\<lambda>d r. feed r d) (xs @ d # ys) r \<noteq> fold (\<lambda>d r. feed r d) (xs @ d' # ys) r"
  by (auto dest!: fold_register dest: feed_byte)

end

lemma crc_loop_fold: "crc_loop step crc ds (length ds) = Some (fold (\<lambda>d r. step r d) ds crc)"
  by (induction ds arbitrary: crc) auto

lemma crc_input_inj: "crc_input type d = crc_input type d' \<longleftrightarrow> d = d'"
  by (simp add: crc_input_def reverse_word_rev word_rev_inj)

text \<open>The generic byte step: the input byte enters at the top of the register.\<close>

definition feed_at :: "nat \<Rightarrow> 'a::len word \<Rightarrow> (u8 \<Rightarrow> u8) \<Rightarrow> 'a word \<Rightarrow> u8 \<Rightarrow> 'a word" where
  "feed_at k g inp r d = (crc_shift g ^^ 8) (r XOR push_bit k (ucast (inp d)))"

lemma crc_byte_feed:
  "crc8_byte t8 = feed_at 0 (poly t8) (crc_input t8)"
  "crc16_byte t16 = feed_at 8 (poly t16) (crc_input t16)"
  "crc32_byte t32 = feed_at 24 (poly t32) (crc_input t32)"
  by (simp_all add: fun_eq_iff crc8_byte_def crc16_byte_def crc32_byte_def feed_at_def crc_bit_shift)

lemma push_ucast_inj:
  fixes a b :: u8
  assumes "k + 8 \<le> LENGTH('a::len)" "push_bit k (ucast a :: 'a word) = push_bit k (ucast b)"
  shows "a = b"
proof (rule bit_word_eqI)
  fix n assume n: "n < LENGTH(8)"
  then have "bit (push_bit k (ucast a :: 'a word)) (k + n) \<longleftrightarrow> bit a n" "bit (push_bit k (ucast b :: 'a word)) (k + n) \<longleftrightarrow> bit b n"
    using assms(1) by (auto simp: bit_push_bit_iff bit_ucast_iff)
  with assms(2) show "bit a n = bit b n" by simp
qed

lemma feed_at_register:
  fixes g :: "'a::len word"
  assumes "bit g 0" "inj inp" "k + 8 \<le> LENGTH('a)"
  shows "crc_register (feed_at k g inp)"
proof
  fix r r' :: "'a word" and d d'
  have cancel: "x XOR y = x XOR z \<Longrightarrow> y = z" for x y z :: "'a word" by (metis xor.assoc xor_self_eq xor.left_neutral)
  show "d = d'" if "feed_at k g inp r d = feed_at k g inp r d'"
    using crc_shifts_inj[OF assms(1) that[unfolded feed_at_def]] cancel push_ucast_inj[OF assms(3)] assms(2)
    by (metis injD)
  show "r = r'" if "feed_at k g inp r d = feed_at k g inp r' d"
    using crc_shifts_inj[OF assms(1) that[unfolded feed_at_def]] cancel by (metis xor.commute)
qed

lemma feed_at_xor:
  "inp (a XOR b) = inp a XOR inp b \<Longrightarrow> feed_at k g inp (r XOR s) (a XOR b) = feed_at k g inp r a XOR feed_at k g inp s b"
proof -
  assume "inp (a XOR b) = inp a XOR inp b"
  moreover have "push_bit k (ucast (x XOR y) :: 'a::len word) = push_bit k (ucast x) XOR push_bit k (ucast y)" for x y :: u8
    by (rule bit_word_eqI) (auto simp: bit_push_bit_iff bit_ucast_iff bit_xor_iff)
  ultimately show "feed_at k g inp (r XOR s) (a XOR b) = feed_at k g inp r a XOR feed_at k g inp s b"
    by (simp add: feed_at_def flip: crc_shifts_xor) (simp add: xor.assoc xor.left_commute)
qed

lemma crc_input_xor: "crc_input t (a XOR b) = crc_input t a XOR crc_input t b"
  by (simp add: crc_input_def reverse_word_rev word_rev_xor)

lemma fold_feed_xor:
  assumes "\<And>a b. inp (a XOR b) = inp a XOR inp b"
  shows "length xs = length ys \<Longrightarrow> length ys = length zs \<Longrightarrow>
    fold (\<lambda>d r. feed_at k g inp r d) (map2 (XOR) xs (map2 (XOR) ys zs)) (r XOR (s XOR t)) =
    fold (\<lambda>d r. feed_at k g inp r d) xs r XOR (fold (\<lambda>d r. feed_at k g inp r d) ys s XOR fold (\<lambda>d r. feed_at k g inp r d) zs t)"
proof (induction xs ys zs arbitrary: r s t rule: list_induct3)
  case (Cons x xs y ys z zs)
  have "feed_at k g inp (r XOR (s XOR t)) (x XOR (y XOR z)) = feed_at k g inp r x XOR (feed_at k g inp s y XOR feed_at k g inp t z)"
    by (simp add: feed_at_xor assms)
  with Cons show ?case by simp
qed simp

interpretation mpeg2: crc_register "crc32_byte crc_32_MPEG2"
  unfolding crc_byte_feed
  by (rule feed_at_register) (auto simp: crc_32_MPEG2_def crc_input_inj inj_def)

interpretation modbus: crc_register "crc16_byte crc_16_MODBUS"
  unfolding crc_byte_feed
  by (rule feed_at_register) (auto simp: crc_16_MODBUS_def crc_input_inj inj_def)

lemma crc_byte_register:
  "bit (poly t8) 0 \<Longrightarrow> crc_register (crc8_byte t8)"
  "bit (poly t16) 0 \<Longrightarrow> crc_register (crc16_byte t16)"
  "bit (poly t32) 0 \<Longrightarrow> crc_register (crc32_byte t32)"
  unfolding crc_byte_feed by (rule feed_at_register; simp add: inj_def crc_input_inj)+

lemma xor_cancel: "a XOR c = b XOR c \<longleftrightarrow> a = (b :: 'a::len word)"
  by (metis xor.assoc xor_self_eq xor.right_neutral)

section \<open>Properties\<close>

text \<open>
  C32. Error detection: with a polynomial whose constant term is 1 (every parameter set of
  the file), replacing any one byte of a message by another, at any position in a message
  of any length, changes the checksum, at all three widths and with any reflection.
\<close>

theorem crc_detects_byte:
  assumes "d \<noteq> d'" "bit (poly t8) 0" "bit (poly t16) 0" "bit (poly t32) 0"
  shows "crc8 (xs @ d # ys) (int (length (xs @ d # ys))) t8 \<noteq> crc8 (xs @ d' # ys) (int (length (xs @ d' # ys))) t8 \<and>
    crc16 (xs @ d # ys) (int (length (xs @ d # ys))) t16 \<noteq> crc16 (xs @ d' # ys) (int (length (xs @ d' # ys))) t16 \<and>
    crc32 (xs @ d # ys) (int (length (xs @ d # ys))) t32 \<noteq> crc32 (xs @ d' # ys) (int (length (xs @ d' # ys))) t32"
proof -
  note det = crc_register.one_byte_detected[OF crc_byte_register(1)[OF assms(2)] assms(1)]
    crc_register.one_byte_detected[OF crc_byte_register(2)[OF assms(3)] assms(1)]
    crc_register.one_byte_detected[OF crc_byte_register(3)[OF assms(4)] assms(1)]
  show ?thesis
    unfolding crc8_def crc16_def crc32_def nat_int crc_loop_fold
    using det(1)[of xs ys "InitValue t8"] det(2)[of xs ys "InitValue t16"] det(3)[of xs ys "InitValue t32"]
    by (simp add: reverse_word_rev word_rev_inj xor_cancel)
qed

theorem crc_detects_byte_witness:
  "(0x41 :: u8) \<noteq> 0x42 \<and>
   crc16 ([0x30] @ 0x41 # [0x31]) (int (length ([0x30 :: u8] @ 0x41 # [0x31]))) crc_16_MODBUS \<noteq>
   crc16 ([0x30] @ 0x42 # [0x31]) (int (length ([0x30 :: u8] @ 0x42 # [0x31]))) crc_16_MODBUS"
proof -
  have "bit (poly crc_8) 0" "bit (poly crc_16_MODBUS) 0" "bit (poly crc_32) 0"
    by (simp_all add: crc_8_def crc_16_MODBUS_def crc_32_def)
  from crc_detects_byte[OF _ this, of "0x41" "0x42" "[0x30]" "[0x31]"] show ?thesis by simp
qed

text \<open>
  Linearity: for three messages of the same length the checksum of their bitwise sum
  is the sum of their checksums, initial value, final xor and reflections included (an odd
  number of terms keeps the constants).
\<close>

theorem crc32_affine:
  assumes len: "length xs = length ys" "length ys = length zs"
  shows "crc32 (map2 (XOR) xs (map2 (XOR) ys zs)) (int (length xs)) t =
     do { a \<leftarrow> crc32 xs (int (length xs)) t; b \<leftarrow> crc32 ys (int (length ys)) t; c \<leftarrow> crc32 zs (int (length zs)) t;
          Some (a XOR (b XOR c)) }"
proof -
  have l: "length xs = length (map2 (XOR) xs (map2 (XOR) ys zs))" using len by simp
  have i: "InitValue t = InitValue t XOR (InitValue t XOR InitValue t)" by simp
  have "fold (\<lambda>d r. crc32_byte t r d) (map2 (XOR) xs (map2 (XOR) ys zs)) (InitValue t) =
      fold (\<lambda>d r. crc32_byte t r d) xs (InitValue t) XOR
       (fold (\<lambda>d r. crc32_byte t r d) ys (InitValue t) XOR fold (\<lambda>d r. crc32_byte t r d) zs (InitValue t))"
    unfolding crc_byte_feed by (subst i, rule fold_feed_xor[OF crc_input_xor len])
  then have f: "crc_loop (crc32_byte t) (InitValue t) (map2 (XOR) xs (map2 (XOR) ys zs)) (length xs) =
      Some (fold (\<lambda>d r. crc32_byte t r d) xs (InitValue t) XOR
       (fold (\<lambda>d r. crc32_byte t r d) ys (InitValue t) XOR fold (\<lambda>d r. crc32_byte t r d) zs (InitValue t)))"
    by (subst l) (simp only: crc_loop_fold)
  have x: "(a XOR (b XOR c)) XOR o' = (a XOR o') XOR ((b XOR o') XOR (c XOR o'))" for a b c o' :: u32
    by (rule bit_word_eqI) (auto simp: bit_xor_iff)
  show ?thesis
    unfolding crc32_def nat_int f crc_loop_fold
    by (cases "OutputReverse t = 1") (simp_all only: bind.bind_lunit option.simps simp_thms if_True if_False reverse_word_rev word_rev_xor x)
qed

theorem crc32_affine_witness:
  "crc32 (map2 (XOR) [1, 2] (map2 (XOR) [4, 8] [16, 32])) (int (length [1 :: u8, 2])) crc_32 =
     do { a \<leftarrow> crc32 [1, 2] (int (length [1 :: u8, 2])) crc_32; b \<leftarrow> crc32 [4, 8] (int (length [4 :: u8, 8])) crc_32;
          c \<leftarrow> crc32 [16, 32] (int (length [16 :: u8, 32])) crc_32; Some (a XOR (b XOR c)) }"
  by (rule crc32_affine) simp_all

text \<open>
  Self check: without reflection and final xor, a message followed by its own 16-bit
  checksum, high byte first, has checksum zero, which is how a receiver verifies it.
\<close>

theorem crc16_residue:
  assumes t: "InputReverse t \<noteq> 1" "OutputReverse t \<noteq> 1" "xor_out t = 0"
    and c: "crc16 xs (int (length xs)) t = Some c"
  shows "crc16 (xs @ [ucast (drop_bit 8 c), ucast c]) (int (length xs) + 2) t = Some 0"
proof -
  define r where "r = fold (\<lambda>d r. crc16_byte t r d) xs (InitValue t)"
  have cr: "c = r" using c t by (simp add: crc16_def crc_loop_fold r_def)
  let ?lo = "ucast (ucast c :: u8) :: u16"
  have hi: "c XOR push_bit 8 (ucast (ucast (drop_bit 8 c) :: u8)) = ?lo"
    by (rule bit_word_eqI) (auto simp: bit_xor_iff bit_push_bit_iff bit_ucast_iff bit_drop_bit_eq)
  have "(crc_shift (poly t) ^^ n) ?lo = push_bit n ?lo" if "n \<le> 8" for n
    using that
  proof (induction n)
    case (Suc n)
    have "\<not> bit (push_bit n ?lo) 15" using Suc.prems by (simp add: bit_push_bit_iff bit_ucast_iff) arith
    then have "crc_shift (poly t) (push_bit n ?lo) = push_bit (Suc n) ?lo"
      by (simp add: crc_shift_def)
    then show ?case using Suc by simp
  qed simp
  then have "crc16_byte t c (ucast (drop_bit 8 c)) = push_bit 8 ?lo"
    by (simp only: crc_byte_feed feed_at_def crc_input_def t if_False hi order_refl)
  then have "crc16_byte t (crc16_byte t c (ucast (drop_bit 8 c))) (ucast c) = 0"
    using t by (simp only: crc_byte_feed feed_at_def crc_input_def if_False xor_self_eq crc_shifts_zero)
  then have "fold (\<lambda>d r. crc16_byte t r d) (xs @ [ucast (drop_bit 8 c), ucast c]) (InitValue t) = 0"
    by (simp add: cr flip: r_def)
  moreover have "nat (int (length xs) + 2) = length (xs @ [ucast (drop_bit 8 c), ucast c :: u8])" by simp
  ultimately show ?thesis using t by (simp only: crc16_def crc_loop_fold bind.bind_lunit if_False xor_self_eq)
qed

theorem crc16_residue_witness:
  "\<exists>c. crc16 [0x31, 0x32] 2 crc_16_XMODEM = Some c \<and>
     crc16 ([0x31, 0x32] @ [ucast (drop_bit 8 c), ucast c]) 4 crc_16_XMODEM = Some 0"
proof -
  obtain c where c: "crc16 [0x31, 0x32] (int (length [0x31 :: u8, 0x32])) crc_16_XMODEM = Some c"
    unfolding crc16_def nat_int crc_loop_fold by simp
  from crc16_residue[OF _ _ _ c] c show ?thesis by (simp add: crc_16_XMODEM_def)
qed

end
