(* ===== verification/Sm4.thy ===== *)
theory Sm4
  imports CLib
begin

text \<open>
  The SM4 block cipher of \<^verbatim>\<open>encode_decode/sm4.c\<close>: the round functions on \<^verbatim>\<open>unsigned long\<close>
  (64 bits on the target, so rotations leave bits above the low 32), the key schedule,
  one block, and the ECB and CBC modes. Decryption inverts encryption in every mode, and the
  64-bit arithmetic computes the 32-bit cipher.
\<close>

section \<open>Tables and macros\<close>

definition SboxTable :: "u8 list" where
  "SboxTable =
    [0xd6, 0x90, 0xe9, 0xfe, 0xcc, 0xe1, 0x3d, 0xb7, 0x16, 0xb6, 0x14, 0xc2, 0x28, 0xfb, 0x2c, 0x05,
     0x2b, 0x67, 0x9a, 0x76, 0x2a, 0xbe, 0x04, 0xc3, 0xaa, 0x44, 0x13, 0x26, 0x49, 0x86, 0x06, 0x99,
     0x9c, 0x42, 0x50, 0xf4, 0x91, 0xef, 0x98, 0x7a, 0x33, 0x54, 0x0b, 0x43, 0xed, 0xcf, 0xac, 0x62,
     0xe4, 0xb3, 0x1c, 0xa9, 0xc9, 0x08, 0xe8, 0x95, 0x80, 0xdf, 0x94, 0xfa, 0x75, 0x8f, 0x3f, 0xa6,
     0x47, 0x07, 0xa7, 0xfc, 0xf3, 0x73, 0x17, 0xba, 0x83, 0x59, 0x3c, 0x19, 0xe6, 0x85, 0x4f, 0xa8,
     0x68, 0x6b, 0x81, 0xb2, 0x71, 0x64, 0xda, 0x8b, 0xf8, 0xeb, 0x0f, 0x4b, 0x70, 0x56, 0x9d, 0x35,
     0x1e, 0x24, 0x0e, 0x5e, 0x63, 0x58, 0xd1, 0xa2, 0x25, 0x22, 0x7c, 0x3b, 0x01, 0x21, 0x78, 0x87,
     0xd4, 0x00, 0x46, 0x57, 0x9f, 0xd3, 0x27, 0x52, 0x4c, 0x36, 0x02, 0xe7, 0xa0, 0xc4, 0xc8, 0x9e,
     0xea, 0xbf, 0x8a, 0xd2, 0x40, 0xc7, 0x38, 0xb5, 0xa3, 0xf7, 0xf2, 0xce, 0xf9, 0x61, 0x15, 0xa1,
     0xe0, 0xae, 0x5d, 0xa4, 0x9b, 0x34, 0x1a, 0x55, 0xad, 0x93, 0x32, 0x30, 0xf5, 0x8c, 0xb1, 0xe3,
     0x1d, 0xf6, 0xe2, 0x2e, 0x82, 0x66, 0xca, 0x60, 0xc0, 0x29, 0x23, 0xab, 0x0d, 0x53, 0x4e, 0x6f,
     0xd5, 0xdb, 0x37, 0x45, 0xde, 0xfd, 0x8e, 0x2f, 0x03, 0xff, 0x6a, 0x72, 0x6d, 0x6c, 0x5b, 0x51,
     0x8d, 0x1b, 0xaf, 0x92, 0xbb, 0xdd, 0xbc, 0x7f, 0x11, 0xd9, 0x5c, 0x41, 0x1f, 0x10, 0x5a, 0xd8,
     0x0a, 0xc1, 0x31, 0x88, 0xa5, 0xcd, 0x7b, 0xbd, 0x2d, 0x74, 0xd0, 0x12, 0xb8, 0xe5, 0xb4, 0xb0,
     0x89, 0x69, 0x97, 0x4a, 0x0c, 0x96, 0x77, 0x7e, 0x65, 0xb9, 0xf1, 0x09, 0xc5, 0x6e, 0xc6, 0x84,
     0x18, 0xf0, 0x7d, 0xec, 0x3a, 0xdc, 0x4d, 0x20, 0x79, 0xee, 0x5f, 0x3e, 0xd7, 0xcb, 0x39, 0x48]"

definition FK :: "u64 list" where
  "FK = [0xa3b1bac6, 0x56aa3350, 0x677d9197, 0xb27022dc]"

definition CK :: "u64 list" where
  "CK =
    [0x00070e15, 0x1c232a31, 0x383f464d, 0x545b6269,
     0x70777e85, 0x8c939aa1, 0xa8afb6bd, 0xc4cbd2d9,
     0xe0e7eef5, 0xfc030a11, 0x181f262d, 0x343b4249,
     0x50575e65, 0x6c737a81, 0x888f969d, 0xa4abb2b9,
     0xc0c7ced5, 0xdce3eaf1, 0xf8ff060d, 0x141b2229,
     0x30373e45, 0x4c535a61, 0x686f767d, 0x848b9299,
     0xa0a7aeb5, 0xbcc3cad1, 0xd8dfe6ed, 0xf4fb0209,
     0x10171e25, 0x2c333a41, 0x484f565d, 0x646b7279]"

definition GET_ULONG_BE :: "u8 list \<Rightarrow> nat \<Rightarrow> u64" where
  "GET_ULONG_BE b i =
     push_bit 24 (ucast (b ! i)) OR push_bit 16 (ucast (b ! (i + 1))) OR
     push_bit 8 (ucast (b ! (i + 2))) OR ucast (b ! (i + 3))"

text \<open>The four bytes that \<^verbatim>\<open>PUT_ULONG_BE\<close> stores.\<close>

definition PUT_ULONG_BE :: "u64 \<Rightarrow> u8 list" where
  "PUT_ULONG_BE n = [ucast (drop_bit 24 n), ucast (drop_bit 16 n), ucast (drop_bit 8 n), ucast n]"

definition SHL :: "u64 \<Rightarrow> nat \<Rightarrow> u64" where
  "SHL x n = push_bit n (x AND 0xFFFFFFFF)"

definition ROTL :: "u64 \<Rightarrow> nat \<Rightarrow> u64" where
  "ROTL x n = SHL x n OR drop_bit (32 - n) x"

section \<open>Round functions\<close>

definition sm4Sbox :: "u8 \<Rightarrow> u8" where
  "sm4Sbox inch = SboxTable ! unat inch"

definition sm4_sub :: "u64 \<Rightarrow> u64" where
  "sm4_sub ka = GET_ULONG_BE (map sm4Sbox (PUT_ULONG_BE ka)) 0"

definition sm4Lt :: "u64 \<Rightarrow> u64" where
  "sm4Lt ka =
     (let bb = sm4_sub ka in
      bb XOR ROTL bb 2 XOR ROTL bb 10 XOR ROTL bb 18 XOR ROTL bb 24)"

definition sm4F :: "u64 \<Rightarrow> u64 \<Rightarrow> u64 \<Rightarrow> u64 \<Rightarrow> u64 \<Rightarrow> u64" where
  "sm4F x0 x1 x2 x3 rk = x0 XOR sm4Lt (x1 XOR x2 XOR x3 XOR rk)"

definition sm4CalciRK :: "u64 \<Rightarrow> u64" where
  "sm4CalciRK ka = (let bb = sm4_sub ka in bb XOR ROTL bb 13 XOR ROTL bb 23)"

text \<open>
  Arrays of fixed size are lists; the loops run over constant index ranges inside them. The
  key array has sixteen bytes, the expanded key thirty-two words.
\<close>

definition sm4_key_words :: "u8 list \<Rightarrow> u64 list" where
  "sm4_key_words key =
     (let MK = [GET_ULONG_BE key 0, GET_ULONG_BE key 4, GET_ULONG_BE key 8, GET_ULONG_BE key 12] in
      fold (\<lambda>i k. k[i + 4 := k ! i XOR sm4CalciRK (k ! (i + 1) XOR k ! (i + 2) XOR k ! (i + 3) XOR CK ! i)])
        [0 ..< 32] (map2 (XOR) MK FK @ replicate 32 0))"

definition sm4_setkey :: "u8 list \<Rightarrow> u64 list" where
  "sm4_setkey key = map (\<lambda>i. sm4_key_words key ! (i + 4)) [0 ..< 32]"

definition sm4_ulbuf :: "u64 list \<Rightarrow> u8 list \<Rightarrow> u64 list" where
  "sm4_ulbuf sk input =
     fold (\<lambda>i ul. ul[i + 4 := sm4F (ul ! i) (ul ! (i + 1)) (ul ! (i + 2)) (ul ! (i + 3)) (sk ! i)])
       [0 ..< 32]
       ([GET_ULONG_BE input 0, GET_ULONG_BE input 4, GET_ULONG_BE input 8, GET_ULONG_BE input 12] @ replicate 32 0)"

definition sm4_one_round :: "u64 list \<Rightarrow> u8 list \<Rightarrow> u8 list" where
  "sm4_one_round sk input =
     (let ulbuf = sm4_ulbuf sk input in
      PUT_ULONG_BE (ulbuf ! 35) @ PUT_ULONG_BE (ulbuf ! 34) @ PUT_ULONG_BE (ulbuf ! 33) @ PUT_ULONG_BE (ulbuf ! 32))"

section \<open>Contexts and modes\<close>

definition SM4_ENCRYPT :: int where "SM4_ENCRYPT = 1"
definition SM4_DECRYPT :: int where "SM4_DECRYPT = 0"

record sm4_context =
  mode :: int
  sk :: "u64 list"

definition sm4_setkey_enc :: "u8 list \<Rightarrow> sm4_context" where
  "sm4_setkey_enc key = \<lparr>mode = SM4_ENCRYPT, sk = sm4_setkey key\<rparr>"

definition swap_at :: "nat \<Rightarrow> 'a list \<Rightarrow> 'a list" where
  "swap_at i xs = xs[i := xs ! (31 - i), 31 - i := xs ! i]"

definition sm4_setkey_dec :: "u8 list \<Rightarrow> sm4_context" where
  "sm4_setkey_dec key = \<lparr>mode = SM4_ENCRYPT, sk = fold swap_at [0 ..< 16] (sm4_setkey key)\<rparr>"

text \<open>
  The loops over blocks, for any block function: they run while \<^verbatim>\<open>length\<close> is positive and
  take sixteen bytes each time, which must be there.
\<close>

function ecb_loop :: "(u8 list \<Rightarrow> u8 list) \<Rightarrow> int \<Rightarrow> u8 list \<Rightarrow> u8 list option" where
  "ecb_loop f n inp =
     (if n > 0 then
        if length inp < 16 then None
        else do { out \<leftarrow> ecb_loop f (n - 16) (drop 16 inp); Some (f (take 16 inp) @ out) }
      else Some [])"
  by pat_completeness auto
termination
  by (relation "measure (\<lambda>(f, n, inp). nat n)") auto

function cbc_enc_loop :: "(u8 list \<Rightarrow> u8 list) \<Rightarrow> int \<Rightarrow> u8 list \<Rightarrow> u8 list \<Rightarrow> (u8 list \<times> u8 list) option" where
  "cbc_enc_loop f n iv inp =
     (if n > 0 then
        if length inp < 16 \<or> length iv < 16 then None
        else (let block = f (map2 (XOR) (take 16 inp) (take 16 iv)) in
              do { (iv', out) \<leftarrow> cbc_enc_loop f (n - 16) block (drop 16 inp); Some (iv', block @ out) })
      else Some (iv, []))"
  by pat_completeness auto
termination
  by (relation "measure (\<lambda>(f, n, iv, inp). nat n)") auto

function cbc_dec_loop :: "(u8 list \<Rightarrow> u8 list) \<Rightarrow> int \<Rightarrow> u8 list \<Rightarrow> u8 list \<Rightarrow> (u8 list \<times> u8 list) option" where
  "cbc_dec_loop f n iv inp =
     (if n > 0 then
        if length inp < 16 \<or> length iv < 16 then None
        else (let temp = take 16 inp in
              do { (iv', out) \<leftarrow> cbc_dec_loop f (n - 16) temp (drop 16 inp);
                   Some (iv', map2 (XOR) (f temp) (take 16 iv) @ out) })
      else Some (iv, []))"
  by pat_completeness auto
termination
  by (relation "measure (\<lambda>(f, n, iv, inp). nat n)") auto

declare ecb_loop.simps [simp del] cbc_enc_loop.simps [simp del] cbc_dec_loop.simps [simp del]

definition sm4_crypt_ecb :: "sm4_context \<Rightarrow> int \<Rightarrow> int \<Rightarrow> u8 list \<Rightarrow> u8 list option" where
  "sm4_crypt_ecb ctx md len inp = ecb_loop (sm4_one_round (sk ctx)) len inp"

text \<open>The initialisation vector is updated in place: its new value comes first.\<close>

definition sm4_crypt_cbc :: "sm4_context \<Rightarrow> int \<Rightarrow> int \<Rightarrow> u8 list \<Rightarrow> u8 list \<Rightarrow> (u8 list \<times> u8 list) option" where
  "sm4_crypt_cbc ctx md len iv inp =
     (if md = SM4_ENCRYPT then cbc_enc_loop (sm4_one_round (sk ctx)) len iv inp
      else cbc_dec_loop (sm4_one_round (sk ctx)) len iv inp)"

section \<open>The low 32 bits\<close>

abbreviation lo :: "u64 \<Rightarrow> u32" where
  "lo x \<equiv> ucast x"

lemma lo_xor [simp]: "lo (a XOR b) = lo a XOR lo b"
  by (rule bit_word_eqI) (simp add: bit_ucast_iff bit_xor_iff)

lemma PUT_lo: "PUT_ULONG_BE a = PUT_ULONG_BE b" if "lo a = lo b"
proof -
  have "bit a n = bit b n" if "n < 32" for n
  proof -
    have "bit (lo a) n = bit (lo b) n" using \<open>lo a = lo b\<close> by simp
    with that show ?thesis by (simp add: bit_ucast_iff)
  qed
  then show ?thesis
    unfolding PUT_ULONG_BE_def
    by (auto intro!: bit_word_eqI simp: bit_ucast_iff bit_drop_bit_eq)
qed

lemma PUT_GET: "i + 4 \<le> length b \<Longrightarrow> PUT_ULONG_BE (GET_ULONG_BE b i) = take 4 (drop i b)"
proof -
  assume i: "i + 4 \<le> length b"
  have "drop i b = b ! i # b ! (i + 1) # b ! (i + 2) # b ! (i + 3) # drop (i + 4) b"
    using i by (simp add: Cons_nth_drop_Suc eval_nat_numeral)
  moreover have nb: "\<not> bit w (8 + n)" "\<not> bit w (16 + n)" "\<not> bit w (24 + n)" for w :: u8 and n
    using bit_imp_le_length[of w "8 + n"] bit_imp_le_length[of w "16 + n"] bit_imp_le_length[of w "24 + n"] by auto
  have "PUT_ULONG_BE (GET_ULONG_BE b i) = [b ! i, b ! (i + 1), b ! (i + 2), b ! (i + 3)]"
    unfolding PUT_ULONG_BE_def GET_ULONG_BE_def
    by (auto intro!: bit_word_eqI simp: bit_ucast_iff bit_drop_bit_eq bit_or_iff bit_push_bit_iff nb)
  ultimately show ?thesis by simp
qed

lemma lo_GET_PUT: "lo (GET_ULONG_BE (xs @ PUT_ULONG_BE a @ ys) (length xs)) = lo a"
proof (rule bit_word_eqI)
  fix n assume "n < LENGTH(32)"
  then consider "n < 8" | "8 \<le> n" "n < 16" | "16 \<le> n" "n < 24" | "24 \<le> n" "n < 32" by fastforce
  then show "bit (lo (GET_ULONG_BE (xs @ PUT_ULONG_BE a @ ys) (length xs))) n = bit (lo a) n"
    by cases (auto simp: PUT_ULONG_BE_def GET_ULONG_BE_def nth_append bit_ucast_iff bit_drop_bit_eq bit_or_iff bit_push_bit_iff)
qed

section \<open>The generalised Feistel recurrence\<close>

text \<open>
  A buffer of 36 words filled from its first four by a recurrence, as both the key schedule
  and the rounds do.
\<close>

definition fill :: "(nat \<Rightarrow> 'a \<Rightarrow> 'a \<Rightarrow> 'a \<Rightarrow> 'a \<Rightarrow> 'a) \<Rightarrow> nat \<Rightarrow> 'a list \<Rightarrow> 'a list" where
  "fill g n ul = fold (\<lambda>i ul. ul[i + 4 := g i (ul ! i) (ul ! (i + 1)) (ul ! (i + 2)) (ul ! (i + 3))]) [0 ..< n] ul"

lemma fill_Suc: "fill g (Suc n) ul =
    (fill g n ul)[n + 4 := g n (fill g n ul ! n) (fill g n ul ! (n + 1)) (fill g n ul ! (n + 2)) (fill g n ul ! (n + 3))]"
  by (simp add: fill_def)

lemma fill_length [simp]: "length (fill g n ul) = length ul"
  by (induction n) (simp_all add: fill_Suc, simp add: fill_def)

lemma fill_stable: "j < n + 4 \<Longrightarrow> fill g (n + m) ul ! j = fill g n ul ! j"
  by (induction m) (simp_all add: fill_Suc)

lemma fill_first: "j < 4 \<Longrightarrow> fill g n ul ! j = ul ! j"
  using fill_stable[of j 0 g n ul] by (simp add: fill_def)

lemma fill_step:
  assumes "i < n" "n + 4 \<le> length ul"
  shows "fill g n ul ! (i + 4) =
    g i (fill g n ul ! i) (fill g n ul ! (i + 1)) (fill g n ul ! (i + 2)) (fill g n ul ! (i + 3))"
proof -
  have s: "fill g n ul ! j = fill g (Suc i) ul ! j" if "j < i + 5" for j
    using fill_stable[of j "Suc i" g "n - Suc i" ul] assms(1) that by simp
  have "fill g (Suc i) ul ! (i + 4) = g i (fill g i ul ! i) (fill g i ul ! (i + 1)) (fill g i ul ! (i + 2)) (fill g i ul ! (i + 3))"
    using assms by (simp add: fill_Suc)
  moreover have "fill g (Suc i) ul ! j = fill g i ul ! j" if "j < i + 4" for j
    using fill_stable[of j i g 1 ul] that by simp
  ultimately show ?thesis using s by simp
qed

lemma sm4_ulbuf_fill:
  "sm4_ulbuf ks inp = fill (\<lambda>i a b c d. sm4F a b c d (ks ! i)) 32
     ([GET_ULONG_BE inp 0, GET_ULONG_BE inp 4, GET_ULONG_BE inp 8, GET_ULONG_BE inp 12] @ replicate 32 0)"
  by (simp add: sm4_ulbuf_def fill_def)

text \<open>The round transformation on the low halves.\<close>

definition T32 :: "u32 \<Rightarrow> u32" where
  "T32 x = lo (sm4Lt (ucast x))"

lemma lo_sm4Lt: "lo (sm4Lt x) = T32 (lo x)"
proof -
  have "lo (ucast (lo x)) = lo x" by (rule bit_word_eqI) (simp add: bit_ucast_iff)
  then have "PUT_ULONG_BE (ucast (lo x)) = PUT_ULONG_BE x" by (rule PUT_lo)
  then show ?thesis by (simp add: T32_def sm4Lt_def sm4_sub_def)
qed

lemma lo_sm4F: "lo (sm4F a b c d rk) = lo a XOR T32 (lo b XOR lo c XOR lo d XOR lo rk)"
  by (simp add: sm4F_def lo_sm4Lt)

lemma ulbuf_step:
  assumes "i < 32"
  shows "lo (sm4_ulbuf ks inp ! (i + 4)) = lo (sm4_ulbuf ks inp ! i) XOR
    T32 (lo (sm4_ulbuf ks inp ! (i + 1)) XOR lo (sm4_ulbuf ks inp ! (i + 2)) XOR lo (sm4_ulbuf ks inp ! (i + 3)) XOR lo (ks ! i))"
  unfolding sm4_ulbuf_fill using assms by (subst fill_step) (simp_all add: lo_sm4F)

lemma ulbuf_first: "j < 4 \<Longrightarrow> sm4_ulbuf ks inp ! j = GET_ULONG_BE inp (4 * j)"
  unfolding sm4_ulbuf_fill by (subst fill_first) (auto simp: less_Suc_eq numeral_eq_Suc)

lemma ulbuf_reverse:
  fixes inp :: "u8 list"
  assumes ks: "length ks = 32"
  defines "X \<equiv> sm4_ulbuf ks inp" and "Y \<equiv> sm4_ulbuf (rev ks) (sm4_one_round ks inp)"
  shows "i < 36 \<Longrightarrow> lo (Y ! i) = lo (X ! (35 - i))"
proof (induction i rule: less_induct)
  case (less i)
  show ?case
  proof (cases "i < 4")
    case True
    have out: "sm4_one_round ks inp = PUT_ULONG_BE (X ! 35) @ PUT_ULONG_BE (X ! 34) @ PUT_ULONG_BE (X ! 33) @ PUT_ULONG_BE (X ! 32)"
      by (simp add: sm4_one_round_def X_def Let_def)
    have l: "length (PUT_ULONG_BE a) = 4" for a by (simp add: PUT_ULONG_BE_def)
    have "lo (GET_ULONG_BE (sm4_one_round ks inp) 0) = lo (X ! 35)" "lo (GET_ULONG_BE (sm4_one_round ks inp) 4) = lo (X ! 34)"
      "lo (GET_ULONG_BE (sm4_one_round ks inp) 8) = lo (X ! 33)" "lo (GET_ULONG_BE (sm4_one_round ks inp) 12) = lo (X ! 32)"
      using lo_GET_PUT[of "[]" "X ! 35"] lo_GET_PUT[of "PUT_ULONG_BE (X ! 35)" "X ! 34"]
        lo_GET_PUT[of "PUT_ULONG_BE (X ! 35) @ PUT_ULONG_BE (X ! 34)" "X ! 33"]
        lo_GET_PUT[of "PUT_ULONG_BE (X ! 35) @ PUT_ULONG_BE (X ! 34) @ PUT_ULONG_BE (X ! 33)" "X ! 32" "[]"]
      by (simp_all add: out l)
    then show ?thesis using True by (auto simp: Y_def ulbuf_first less_Suc_eq numeral_eq_Suc)
  next
    case False
    define j where "j = i - 4"
    have i: "i = j + 4" "j < 32" using False less.prems by (auto simp: j_def)
    have Y: "lo (Y ! i) = lo (Y ! j) XOR T32 (lo (Y ! (j + 1)) XOR lo (Y ! (j + 2)) XOR lo (Y ! (j + 3)) XOR lo (rev ks ! j))"
      unfolding Y_def i(1) by (rule ulbuf_step[OF i(2)])
    have "35 - j = (31 - j) + 4" using i(2) by simp
    then have X: "lo (X ! (35 - j)) = lo (X ! (31 - j)) XOR
        T32 (lo (X ! (32 - j)) XOR lo (X ! (33 - j)) XOR lo (X ! (34 - j)) XOR lo (ks ! (31 - j)))"
      using ulbuf_step[of "31 - j" ks inp] i(2) by (simp add: X_def Suc_diff_le eval_nat_numeral)
    have IH: "lo (Y ! j) = lo (X ! (35 - j))" "lo (Y ! (j + 1)) = lo (X ! (34 - j))"
      "lo (Y ! (j + 2)) = lo (X ! (33 - j))" "lo (Y ! (j + 3)) = lo (X ! (32 - j))"
      using less.IH[of j] less.IH[of "j + 1"] less.IH[of "j + 2"] less.IH[of "j + 3"] i by simp_all
    have "rev ks ! j = ks ! (31 - j)" using ks i(2) by (simp add: rev_nth)
    then show ?thesis
      unfolding Y IH X using i(1) by (simp add: xor.assoc xor.commute xor.left_commute)
  qed
qed

lemma one_round_length [simp]: "length (sm4_one_round ks inp) = 16"
  by (simp add: sm4_one_round_def PUT_ULONG_BE_def Let_def)

lemma one_round_inverse:
  assumes ks: "length ks = 32" and inp: "length inp = 16"
  shows "sm4_one_round (rev ks) (sm4_one_round ks inp) = inp"
proof -
  let ?Y = "sm4_ulbuf (rev ks) (sm4_one_round ks inp)"
  have p: "PUT_ULONG_BE (?Y ! (35 - j)) = take 4 (drop (4 * j) inp)" if "j < 4" for j
  proof -
    have "lo (?Y ! (35 - j)) = lo (sm4_ulbuf ks inp ! j)" using ulbuf_reverse[OF ks, of "35 - j" inp] that by simp
    then have "PUT_ULONG_BE (?Y ! (35 - j)) = PUT_ULONG_BE (GET_ULONG_BE inp (4 * j))"
      using ulbuf_first[OF that] by (metis PUT_lo)
    also have "\<dots> = take 4 (drop (4 * j) inp)" using that inp by (intro PUT_GET) simp
    finally show ?thesis .
  qed
  have "sm4_one_round (rev ks) (sm4_one_round ks inp) =
      take 4 inp @ take 4 (drop 4 inp) @ take 4 (drop 8 inp) @ take 4 (drop 12 inp)"
    using p[of 0] p[of 1] p[of 2] p[of 3] by (simp add: sm4_one_round_def Let_def)
  also have "\<dots> = inp"
    using append_take_drop_id[of 4 inp] append_take_drop_id[of 4 "drop 4 inp"] append_take_drop_id[of 4 "drop 8 inp"] inp
    by (simp add: take_all)
  finally show ?thesis .
qed

section \<open>The decryption key\<close>

lemma swap_prefix:
  assumes "length xs = 32" "n \<le> 16"
  shows "length (fold swap_at [0 ..< n] xs) = 32 \<and>
    (\<forall>j < 32. fold swap_at [0 ..< n] xs ! j = (if j < n \<or> 31 - j < n then xs ! (31 - j) else xs ! j))"
  using assms(2)
proof (induction n)
  case (Suc n)
  let ?f = "fold swap_at [0 ..< n] xs"
  have IH: "length ?f = 32" "\<And>j. j < 32 \<Longrightarrow> ?f ! j = (if j < n \<or> 31 - j < n then xs ! (31 - j) else xs ! j)"
    using Suc by auto
  have n: "?f ! n = xs ! n" "?f ! (31 - n) = xs ! (31 - n)" using IH(2)[of n] IH(2)[of "31 - n"] Suc.prems by auto
  have "fold swap_at [0 ..< Suc n] xs = ?f[n := xs ! (31 - n), 31 - n := xs ! n]"
    by (simp add: swap_at_def n)
  moreover have "(?f[n := xs ! (31 - n), 31 - n := xs ! n]) ! j = (if j < Suc n \<or> 31 - j < Suc n then xs ! (31 - j) else xs ! j)"
    if "j < 32" for j
  proof -
    consider "j = n" | "j = 31 - n" "j \<noteq> n" | "j \<noteq> n" "j \<noteq> 31 - n" by blast
    then show ?thesis
    proof cases
      case 1
      with IH(1) Suc.prems show ?thesis by simp
    next
      case 2
      with IH(1) Suc.prems show ?thesis by simp
    next
      case 3
      have "31 - j \<noteq> n" using 3(2) that by arith
      with 3(1) have "(j < Suc n \<or> 31 - j < Suc n) \<longleftrightarrow> (j < n \<or> 31 - j < n)" by (simp add: less_Suc_eq)
      with 3 IH(2)[OF that] show ?thesis by simp
    qed
  qed
  ultimately show ?case using IH(1) by simp
qed (use assms in simp)

lemma swap_all_rev:
  assumes "length xs = 32"
  shows "fold swap_at [0 ..< 16] xs = rev xs"
proof (rule nth_equalityI)
  note p = swap_prefix[OF assms order_refl]
  show "length (fold swap_at [0 ..< 16] xs) = length (rev xs)" using p assms by simp
  fix i assume "i < length (fold swap_at [0 ..< 16] xs)"
  then have i: "i < 32" using p by simp
  have "i < 16 \<or> 31 - i < 16" using i by arith
  with p i have "fold swap_at [0 ..< 16] xs ! i = xs ! (31 - i)" by presburger
  then show "fold swap_at [0 ..< 16] xs ! i = rev xs ! i" using i assms by (simp add: rev_nth)
qed

lemma setkey_length [simp]: "length (sm4_setkey key) = 32"
  by (simp add: sm4_setkey_def)

lemma setkey_dec_rev: "sk (sm4_setkey_dec key) = rev (sk (sm4_setkey_enc key))"
  by (simp add: sm4_setkey_dec_def sm4_setkey_enc_def swap_all_rev)

section \<open>The contract of a block cipher and its modes\<close>

locale block_cipher =
  fixes enc dec :: "'k \<Rightarrow> u8 list \<Rightarrow> u8 list"
  assumes enc_block: "length (enc k b) = 16"
    and dec_block: "length (dec k b) = 16"
    and dec_enc: "length b = 16 \<Longrightarrow> dec k (enc k b) = b"
begin

lemma ecb_roundtrip:
  "length inp = 16 * m \<Longrightarrow>
   \<exists>c. ecb_loop (enc k) (16 * int m) inp = Some c \<and> length c = 16 * m \<and> ecb_loop (dec k) (16 * int m) c = Some inp"
proof (induction m arbitrary: inp)
  case 0
  then show ?case by (simp add: ecb_loop.simps)
next
  case (Suc m)
  then have "length (drop 16 inp) = 16 * m" by simp
  from Suc.IH[OF this] obtain c where c: "ecb_loop (enc k) (16 * int m) (drop 16 inp) = Some c"
    "length c = 16 * m" "ecb_loop (dec k) (16 * int m) c = Some (drop 16 inp)" by blast
  let ?e = "enc k (take 16 inp)"
  have n: "16 * int (Suc m) - 16 = 16 * int m" by simp
  have "ecb_loop (enc k) (16 * int (Suc m)) inp = Some (?e @ c)"
    using Suc.prems c by (subst ecb_loop.simps) (simp add: n[simplified])
  moreover have "ecb_loop (dec k) (16 * int (Suc m)) (?e @ c) = Some inp"
    using Suc.prems c enc_block by (subst ecb_loop.simps) (simp add: n[simplified] dec_enc)
  ultimately show ?case using c enc_block by simp
qed

lemma xor_blocks: "length x = 16 \<Longrightarrow> length v = 16 \<Longrightarrow> map2 (XOR) (map2 (XOR) x v) v = (x :: u8 list)"
  by (intro nth_equalityI) (auto simp: xor.assoc)

lemma cbc_roundtrip:
  "length inp = 16 * m \<Longrightarrow> length iv = 16 \<Longrightarrow>
   \<exists>c iv'. cbc_enc_loop (enc k) (16 * int m) iv inp = Some (iv', c) \<and> length c = 16 * m \<and>
     cbc_dec_loop (dec k) (16 * int m) iv c = Some (iv', inp)"
proof (induction m arbitrary: inp iv)
  case 0
  then show ?case by (simp add: cbc_enc_loop.simps cbc_dec_loop.simps)
next
  case (Suc m)
  let ?b = "enc k (map2 (XOR) (take 16 inp) iv)"
  have "length (drop 16 inp) = 16 * m" using Suc.prems by simp
  from Suc.IH[OF this enc_block] obtain c iv' where c: "cbc_enc_loop (enc k) (16 * int m) ?b (drop 16 inp) = Some (iv', c)"
    "length c = 16 * m" "cbc_dec_loop (dec k) (16 * int m) ?b c = Some (iv', drop 16 inp)" by blast
  have n: "16 * int (Suc m) - 16 = 16 * int m" by simp
  have "cbc_enc_loop (enc k) (16 * int (Suc m)) iv inp = Some (iv', ?b @ c)"
    using Suc.prems c by (subst cbc_enc_loop.simps) (simp add: n[simplified] Let_def)
  moreover have "map2 (XOR) (dec k ?b) iv = take 16 inp"
    using Suc.prems dec_enc[of "map2 (XOR) (take 16 inp) iv" k] xor_blocks[of "take 16 inp" iv] by simp
  then have "cbc_dec_loop (dec k) (16 * int (Suc m)) iv (?b @ c) = Some (iv', inp)"
    using Suc.prems c enc_block by (subst cbc_dec_loop.simps) (simp add: n[simplified] Let_def)
  ultimately show ?case using c enc_block by auto
qed

end

interpretation sm4: block_cipher
  "\<lambda>key. sm4_one_round (sk (sm4_setkey_enc key))" "\<lambda>key. sm4_one_round (sk (sm4_setkey_dec key))"
  by unfold_locales (simp_all add: setkey_dec_rev one_round_inverse sm4_setkey_enc_def)

section \<open>The 32-bit cipher\<close>

text \<open>
  The cipher as the standard describes it, on 32-bit words with rotations: four words of
  state, one round key per round, the last four words written in reverse order.
\<close>

definition spec_tau :: "u32 \<Rightarrow> u32" where
  "spec_tau x =
     push_bit 24 (ucast (sm4Sbox (ucast (drop_bit 24 x)))) OR push_bit 16 (ucast (sm4Sbox (ucast (drop_bit 16 x)))) OR
     push_bit 8 (ucast (sm4Sbox (ucast (drop_bit 8 x)))) OR ucast (sm4Sbox (ucast x))"

definition spec_L :: "u32 \<Rightarrow> u32" where
  "spec_L b = b XOR word_rotl 2 b XOR word_rotl 10 b XOR word_rotl 18 b XOR word_rotl 24 b"

fun spec_round :: "u32 \<Rightarrow> u32 \<times> u32 \<times> u32 \<times> u32 \<Rightarrow> u32 \<times> u32 \<times> u32 \<times> u32" where
  "spec_round rk (x0, x1, x2, x3) = (x1, x2, x3, x0 XOR spec_L (spec_tau (x1 XOR x2 XOR x3 XOR rk)))"

definition spec_word :: "u8 list \<Rightarrow> nat \<Rightarrow> u32" where
  "spec_word b i =
     push_bit 24 (ucast (b ! i)) OR push_bit 16 (ucast (b ! (i + 1))) OR push_bit 8 (ucast (b ! (i + 2))) OR ucast (b ! (i + 3))"

definition spec_bytes :: "u32 \<Rightarrow> u8 list" where
  "spec_bytes n = [ucast (drop_bit 24 n), ucast (drop_bit 16 n), ucast (drop_bit 8 n), ucast n]"

definition spec_block :: "u32 list \<Rightarrow> u8 list \<Rightarrow> u8 list" where
  "spec_block rks b =
     (let (a, b, c, d) = fold spec_round rks (spec_word b 0, spec_word b 4, spec_word b 8, spec_word b 12)
      in spec_bytes d @ spec_bytes c @ spec_bytes b @ spec_bytes a)"

lemma lo_push_ucast: "lo (push_bit n (ucast (b :: u8))) = push_bit n (ucast b)"
  by (rule bit_word_eqI) (auto simp: bit_ucast_iff bit_push_bit_iff dest: bit_imp_le_length)

lemma lo_or: "lo (a OR b) = lo a OR lo b"
  by (rule bit_word_eqI) (simp add: bit_ucast_iff bit_or_iff)

lemma lo_GET: "lo (GET_ULONG_BE b i) = spec_word b i"
  using lo_push_ucast[of 0] by (simp add: GET_ULONG_BE_def spec_word_def lo_or lo_push_ucast)

lemma PUT_spec: "PUT_ULONG_BE x = spec_bytes (lo x)"
  unfolding PUT_ULONG_BE_def spec_bytes_def
  by (auto intro!: bit_word_eqI simp: bit_ucast_iff bit_drop_bit_eq)

lemma lo_sub: "lo (sm4_sub ka) = spec_tau (lo ka)"
  by (simp add: sm4_sub_def lo_GET PUT_spec spec_word_def spec_bytes_def spec_tau_def)

lemma sub_clean: "32 \<le> j \<Longrightarrow> \<not> bit (sm4_sub ka) j"
  by (auto simp: sm4_sub_def GET_ULONG_BE_def bit_or_iff bit_push_bit_iff bit_ucast_iff dest: bit_imp_le_length)

lemma lo_ROTL:
  assumes clean: "\<And>j. 32 \<le> j \<Longrightarrow> \<not> bit x j" and n: "0 < n" "n < 32"
  shows "lo (ROTL x n) = word_rotl n (lo x)"
proof (rule bit_word_eqI)
  fix j assume j: "j < LENGTH(32)"
  have mask: "(0xFFFFFFFF :: u64) = mask 32" by (simp add: mask_eq_exp_minus_1)
  have "bit (lo (ROTL x n)) j \<longleftrightarrow> (n \<le> j \<and> bit x (j - n)) \<or> bit x (32 - n + j)"
    using j by (auto simp: ROTL_def SHL_def mask bit_ucast_iff bit_or_iff bit_push_bit_iff bit_and_iff bit_mask_iff bit_drop_bit_eq)
  moreover have "bit (word_rotl n (lo x)) j \<longleftrightarrow> bit x ((j + (32 - n)) mod 32)"
    using j n by (simp add: bit_word_rotl_iff bit_ucast_iff)
  moreover have "(j + (32 - n)) mod 32 = (if n \<le> j then j - n else 32 - n + j)"
    using j n by (auto simp: mod_if)
  moreover have "n \<le> j \<Longrightarrow> \<not> bit x (32 - n + j)" using n by (intro clean) simp
  ultimately show "bit (lo (ROTL x n)) j = bit (word_rotl n (lo x)) j" by auto
qed

lemma T32_spec: "T32 x = spec_L (spec_tau x)"
proof -
  have x: "lo (ucast x) = x" by (rule bit_word_eqI) (simp add: bit_ucast_iff)
  show ?thesis
    by (simp add: T32_def sm4Lt_def Let_def spec_L_def lo_ROTL[OF sub_clean] lo_sub x)
qed

lemma spec_rounds:
  assumes "n \<le> 32" "length ks = 32"
  shows "fold spec_round (map lo (take n ks)) (spec_word b 0, spec_word b 4, spec_word b 8, spec_word b 12) =
    (lo (sm4_ulbuf ks b ! n), lo (sm4_ulbuf ks b ! (n + 1)), lo (sm4_ulbuf ks b ! (n + 2)), lo (sm4_ulbuf ks b ! (n + 3)))"
  using assms(1)
proof (induction n)
  case 0
  then show ?case using ulbuf_first[of _ ks b] by (simp add: lo_GET)
next
  case (Suc n)
  then have "take (Suc n) ks = take n ks @ [ks ! n]" using assms(2) by (simp add: take_Suc_conv_app_nth)
  moreover have "lo (sm4_ulbuf ks b ! (Suc n + 3)) = lo (sm4_ulbuf ks b ! n) XOR spec_L (spec_tau
      (lo (sm4_ulbuf ks b ! (n + 1)) XOR lo (sm4_ulbuf ks b ! (n + 2)) XOR lo (sm4_ulbuf ks b ! (n + 3)) XOR lo (ks ! n)))"
    using ulbuf_step[of n ks b] Suc.prems by (simp add: T32_spec eval_nat_numeral)
  ultimately show ?case using Suc by (simp add: eval_nat_numeral)
qed

subsection \<open>The key schedule\<close>

definition spec_LK :: "u32 \<Rightarrow> u32" where
  "spec_LK b = b XOR word_rotl 13 b XOR word_rotl 23 b"

fun spec_schedule :: "u32 list \<Rightarrow> u32 \<times> u32 \<times> u32 \<times> u32 \<Rightarrow> u32 list" where
  "spec_schedule [] ks = []"
| "spec_schedule (ck # cks) (k0, k1, k2, k3) =
     (let k4 = k0 XOR spec_LK (spec_tau (k1 XOR k2 XOR k3 XOR ck)) in k4 # spec_schedule cks (k1, k2, k3, k4))"

definition spec_keys :: "u8 list \<Rightarrow> u32 list" where
  "spec_keys key = spec_schedule (map lo CK)
     (spec_word key 0 XOR 0xa3b1bac6, spec_word key 4 XOR 0x56aa3350, spec_word key 8 XOR 0x677d9197, spec_word key 12 XOR 0xb27022dc)"

lemma lo_CalciRK: "lo (sm4CalciRK x) = spec_LK (spec_tau (lo x))"
  by (simp add: sm4CalciRK_def Let_def spec_LK_def lo_ROTL[OF sub_clean] lo_sub)

lemma key_words_fill:
  "sm4_key_words key = fill (\<lambda>i a b c d. a XOR sm4CalciRK (b XOR c XOR d XOR CK ! i)) 32
     (map2 (XOR) [GET_ULONG_BE key 0, GET_ULONG_BE key 4, GET_ULONG_BE key 8, GET_ULONG_BE key 12] FK @ replicate 32 0)"
  by (simp add: sm4_key_words_def fill_def Let_def)

lemma key_words_step:
  assumes "i < 32"
  shows "lo (sm4_key_words key ! (i + 4)) = lo (sm4_key_words key ! i) XOR spec_LK (spec_tau
    (lo (sm4_key_words key ! (i + 1)) XOR lo (sm4_key_words key ! (i + 2)) XOR lo (sm4_key_words key ! (i + 3)) XOR lo (CK ! i)))"
  unfolding key_words_fill using assms by (subst fill_step) (simp_all add: FK_def lo_CalciRK)

lemma length_CK: "length CK = 32"
  by (simp add: CK_def)

lemma spec_schedule_words:
  "n \<le> 32 \<Longrightarrow> spec_schedule (map lo (drop n CK))
     (lo (sm4_key_words key ! n), lo (sm4_key_words key ! (n + 1)), lo (sm4_key_words key ! (n + 2)), lo (sm4_key_words key ! (n + 3))) =
   map (\<lambda>i. lo (sm4_key_words key ! (i + 4))) [n ..< 32]"
proof (induction "32 - n" arbitrary: n)
  case 0
  then show ?case by (simp add: length_CK)
next
  case (Suc m)
  then have n: "n < 32" "m = 32 - Suc n" by simp_all
  have "drop n CK = CK ! n # drop (Suc n) CK" using n(1) by (simp add: Cons_nth_drop_Suc length_CK)
  moreover have "[n ..< 32] = n # [Suc n ..< 32]" using n(1) by (rule upt_conv_Cons)
  moreover have "Suc n + 1 = n + 2" "Suc n + 2 = n + 3" "Suc n + 3 = n + 4" "Suc n \<le> 32" "Suc n = n + 1" using n(1) by simp_all
  ultimately show ?case
    using Suc(1)[OF n(2)] by (simp only: list.map spec_schedule.simps Let_def key_words_step[OF n(1)])
qed

lemma spec_keys_setkey: "map lo (sm4_setkey key) = spec_keys key"
proof -
  have "sm4_key_words key ! j = [GET_ULONG_BE key 0 XOR 0xa3b1bac6, GET_ULONG_BE key 4 XOR 0x56aa3350,
      GET_ULONG_BE key 8 XOR 0x677d9197, GET_ULONG_BE key 12 XOR 0xb27022dc] ! j" if "j < 4" for j
  proof -
    have "j = 0 \<or> j = 1 \<or> j = 2 \<or> j = 3" using that by arith
    then show ?thesis unfolding key_words_fill by (subst fill_first[OF that]) (auto simp: FK_def)
  qed
  from this[of 0] this[of 1] this[of "Suc (Suc 0)"] this[of 3] spec_schedule_words[of 0 key] show ?thesis
    by (simp add: spec_keys_def sm4_setkey_def lo_GET comp_def)
qed

section \<open>Properties\<close>

text \<open>
  C10. CBC round trip: for every key, initialisation vector and message of whole blocks,
  decrypting with the decryption key what was encrypted with the encryption key gives the
  message back, both calls return, and both leave the same vector for the next call.
\<close>

theorem sm4_cbc_roundtrip:
  assumes "length inp = 16 * m" "length iv = 16"
  shows "\<exists>c iv'. sm4_crypt_cbc (sm4_setkey_enc key) SM4_ENCRYPT (int (length inp)) iv inp = Some (iv', c) \<and> length c = length inp \<and>
     sm4_crypt_cbc (sm4_setkey_dec key) SM4_DECRYPT (int (length inp)) iv c = Some (iv', inp)"
  using sm4.cbc_roundtrip[OF assms, of key] assms(1) by (simp add: sm4_crypt_cbc_def SM4_ENCRYPT_def SM4_DECRYPT_def)

theorem sm4_cbc_roundtrip_witness:
  "\<exists>c iv'. sm4_crypt_cbc (sm4_setkey_enc (replicate 16 7)) SM4_ENCRYPT (int (length (replicate 32 (1 :: u8)))) (replicate 16 0) (replicate 32 1) = Some (iv', c) \<and>
     length c = length (replicate 32 (1 :: u8)) \<and>
     sm4_crypt_cbc (sm4_setkey_dec (replicate 16 7)) SM4_DECRYPT (int (length (replicate 32 (1 :: u8)))) (replicate 16 0) c = Some (iv', replicate 32 1)"
  by (rule sm4_cbc_roundtrip[where m = 2]) simp_all

text \<open>
  ECB round trip for every key and message of whole blocks.
\<close>

theorem sm4_ecb_roundtrip:
  assumes "length inp = 16 * m"
  shows "\<exists>c. sm4_crypt_ecb (sm4_setkey_enc key) SM4_ENCRYPT (int (length inp)) inp = Some c \<and> length c = length inp \<and>
     sm4_crypt_ecb (sm4_setkey_dec key) SM4_DECRYPT (int (length inp)) c = Some inp"
  using sm4.ecb_roundtrip[OF assms, of key] assms by (simp add: sm4_crypt_ecb_def)

theorem sm4_ecb_roundtrip_witness:
  "\<exists>c. sm4_crypt_ecb (sm4_setkey_enc (replicate 16 7)) SM4_ENCRYPT (int (length (replicate 16 (1 :: u8)))) (replicate 16 1) = Some c \<and>
     length c = length (replicate 16 (1 :: u8)) \<and>
     sm4_crypt_ecb (sm4_setkey_dec (replicate 16 7)) SM4_DECRYPT (int (length (replicate 16 (1 :: u8)))) c = Some (replicate 16 1)"
  by (rule sm4_ecb_roundtrip[where m = 1]) simp

text \<open>
  C21. The 64-bit arithmetic is right: although \<^verbatim>\<open>ROTL\<close> on \<^verbatim>\<open>unsigned long\<close> leaves bits above
  the low 32 and they spread through the key and round words, the block the code produces
  is the one the 32-bit cipher with true rotations produces, for every key and block.
\<close>

theorem sm4_block_spec:
  "sm4_one_round (sk (sm4_setkey_enc key)) b = spec_block (spec_keys key) b"
  using spec_rounds[of 32 "sm4_setkey key" b]
  by (simp add: spec_block_def sm4_one_round_def PUT_spec Let_def sm4_setkey_enc_def flip: spec_keys_setkey)

text \<open>
  A message that is not a whole number of blocks: both modes run one block too far
  and read past the end of the input.
\<close>

theorem sm4_partial_block_overrun:
  assumes "length inp = 16 * m + r" "0 < r" "r < 16"
  shows "sm4_crypt_ecb ctx md (int (length inp)) inp = None"
  unfolding sm4_crypt_ecb_def using assms
proof (induction m arbitrary: inp)
  case 0
  then show ?case by (subst ecb_loop.simps) simp
next
  case (Suc m)
  have "int (length inp) - 16 = int (length (drop 16 inp))" using Suc.prems(1) by simp
  with Suc.IH[of "drop 16 inp"] Suc.prems show ?case by (subst ecb_loop.simps) simp
qed

theorem sm4_partial_block_overrun_witness:
  "sm4_crypt_ecb (sm4_setkey_enc (replicate 16 7)) SM4_ENCRYPT (int (length (replicate 20 (1 :: u8)))) (replicate 20 1) = None"
  by (rule sm4_partial_block_overrun[where m = 1 and r = 4]) simp_all

end
