(* ===== verification/Sha256.thy ===== *)
theory Sha256
  imports CLib
begin

text \<open>
  \<^verbatim>\<open>encode_decode/sha256.c\<close>. The message words are assembled with shifts by a negative count,
  so what the function computes depends on how the machine shifts: the shift is a parameter
  of the model. With the C standard's shift the function is undefined; with a shift that
  reduces its count modulo 32 it computes the compression of FIPS 180-4, and writes the
  eight words of the result over each other.
\<close>

section \<open>Definitions\<close>

definition sha_k :: "u32 list" where
  "sha_k =
    [0x428a2f98, 0x71374491, 0xb5c0fbcf, 0xe9b5dba5] @ [0x3956c25b, 0x59f111f1, 0x923f82a4, 0xab1c5ed5] @
    [0xd807aa98, 0x12835b01, 0x243185be, 0x550c7dc3] @ [0x72be5d74, 0x80deb1fe, 0x9bdc06a7, 0xc19bf174] @
    [0xe49b69c1, 0xefbe4786, 0x0fc19dc6, 0x240ca1cc] @ [0x2de92c6f, 0x4a7484aa, 0x5cb0a9dc, 0x76f988da] @
    [0x983e5152, 0xa831c66d, 0xb00327c8, 0xbf597fc7] @ [0xc6e00bf3, 0xd5a79147, 0x06ca6351, 0x14292967] @
    [0x27b70a85, 0x2e1b2138, 0x4d2c6dfc, 0x53380d13] @ [0x650a7354, 0x766a0abb, 0x81c2c92e, 0x92722c85] @
    [0xa2bfe8a1, 0xa81a664b, 0xc24b8b70, 0xc76c51a3] @ [0xd192e819, 0xd6990624, 0xf40e3585, 0x106aa070] @
    [0x19a4c116, 0x1e376c08, 0x2748774c, 0x34b0bcb5] @ [0x391c0cb3, 0x4ed8aa4a, 0x5b9cca4f, 0x682e6ff3] @
    [0x748f82ee, 0x78a5636f, 0x84c87814, 0x8cc70208] @ [0x90befffa, 0xa4506ceb, 0xbef9a3f7, 0xc67178f2]"

definition rightrotate :: "u32 \<Rightarrow> nat \<Rightarrow> u32" where
  "rightrotate w n = drop_bit n w OR push_bit (32 - n) w"

text \<open>The store of a word in big-endian order at a byte offset; it must lie in the buffer.\<close>

definition be_bytes :: "u32 \<Rightarrow> u8 list" where
  "be_bytes v = [ucast (drop_bit 24 v), ucast (drop_bit 16 v), ucast (drop_bit 8 v), ucast v]"

definition copy_uint32 :: "nat \<Rightarrow> u32 \<Rightarrow> u8 list \<Rightarrow> u8 list option" where
  "copy_uint32 p val out =
     (if p + 4 \<le> length out then Some (take p out @ be_bytes val @ drop (p + 4) out) else None)"

text \<open>\<^verbatim>\<open>x << n\<close> on \<^verbatim>\<open>int\<close> by the standard, and on a machine that uses the count modulo 32.\<close>

type_synonym shift = "u32 \<Rightarrow> int \<Rightarrow> u32 option"

definition shl_std :: shift where
  "shl_std x n = (if 0 \<le> n \<and> n < 32 \<and> uint x * 2 ^ nat n < 2 ^ 31 then Some (push_bit (nat n) x) else None)"

definition shl_mod32 :: shift where
  "shl_mod32 x n = Some (push_bit (nat (n mod 32)) x)"

definition sha_append :: "nat \<Rightarrow> nat" where
  "sha_append len = (let r = len * 8 mod 512 in (if r < 448 then 448 - r else 448 + 512 - r) div 8)"

definition sha_buf :: "u8 list \<Rightarrow> u8 list" where
  "sha_buf data =
     (let len = length data; append = sha_append len; bits_len = of_nat (len * 8) :: u64 in
      (data @ replicate append 0)[len := 0x80] @
      map (\<lambda>i. ucast (drop_bit ((7 - i) * 8) bits_len AND 0xff)) [0 ..< 8])"

text \<open>The first inner loop: value collected so far, and the message words.\<close>

fun load_words :: "shift \<Rightarrow> u8 list \<Rightarrow> nat \<Rightarrow> u32 \<Rightarrow> u32 list \<Rightarrow> u32 list option" where
  "load_words shl [] i val w = Some w"
| "load_words shl (b # bs) i val w =
     do { s \<leftarrow> shl (ucast b) (8 * (3 - int i));
          let val' = val OR s;
          if i mod 4 = 3 then load_words shl bs (Suc i) 0 (w[i div 4 := val'])
          else load_words shl bs (Suc i) val' w }"

declare load_words.simps [simp del]

definition extend_word :: "nat \<Rightarrow> u32 list \<Rightarrow> u32 list" where
  "extend_word i w =
     (let s0 = rightrotate (w ! (i - 15)) 7 XOR rightrotate (w ! (i - 15)) 18 XOR drop_bit 3 (w ! (i - 15));
          s1 = rightrotate (w ! (i - 2)) 17 XOR rightrotate (w ! (i - 2)) 19 XOR drop_bit 10 (w ! (i - 2))
      in w[i := w ! (i - 16) + s0 + w ! (i - 7) + s1])"

type_synonym sha_state = "u32 \<times> u32 \<times> u32 \<times> u32 \<times> u32 \<times> u32 \<times> u32 \<times> u32"

fun sha_round :: "u32 list \<Rightarrow> nat \<Rightarrow> sha_state \<Rightarrow> sha_state" where
  "sha_round w i (a, b, c, d, e, f, g, h) =
     (let s_1 = rightrotate e 6 XOR rightrotate e 11 XOR rightrotate e 25;
          ch = (e AND f) XOR (NOT e AND g);
          temp1 = h + s_1 + ch + sha_k ! i + w ! i;
          s_0 = rightrotate a 2 XOR rightrotate a 13 XOR rightrotate a 22;
          maj = (a AND b) XOR (a AND c) XOR (b AND c);
          temp2 = s_0 + maj
      in (temp1 + temp2, a, b, c, d + temp1, e, f, g))"

fun sha_add :: "sha_state \<Rightarrow> sha_state \<Rightarrow> sha_state" where
  "sha_add (h0, h1, h2, h3, h4, h5, h6, h7) (a, b, c, d, e, f, g, h) =
     (h0 + a, h1 + b, h2 + c, h3 + d, h4 + e, h5 + f, h6 + g, h7 + h)"

definition sha_chunk :: "shift \<Rightarrow> u8 list \<Rightarrow> u32 list \<times> sha_state \<Rightarrow> (u32 list \<times> sha_state) option" where
  "sha_chunk shl bytes wh =
     (case wh of (w, hs) \<Rightarrow>
        do { w1 \<leftarrow> load_words shl bytes 0 0 w;
             let w2 = fold extend_word [16 ..< 64] w1;
             Some (w2, sha_add hs (fold (sha_round w2) [0 ..< 64] hs)) })"

fun sha_chunks :: "shift \<Rightarrow> u8 list \<Rightarrow> nat \<Rightarrow> u32 list \<times> sha_state \<Rightarrow> (u32 list \<times> sha_state) option" where
  "sha_chunks shl buf 0 wh = Some wh"
| "sha_chunks shl buf (Suc n) wh =
     do { wh' \<leftarrow> sha_chunk shl (take 64 buf) wh; sha_chunks shl (drop 64 buf) n wh' }"

definition sha_init :: sha_state where
  "sha_init = (0x6a09e667, 0xbb67ae85, 0x3c6ef372, 0xa54ff53a, 0x510e527f, 0x9b05688c, 0x1f83d9ab, 0x5be0cd19)"

text \<open>
  Every word of \<^verbatim>\<open>w\<close> is written before it is read, so its first contents do not matter; zero
  here. The result is what \<^verbatim>\<open>out\<close> holds afterwards.
\<close>

definition sha256 :: "shift \<Rightarrow> u8 list \<Rightarrow> u8 list \<Rightarrow> u8 list option" where
  "sha256 shl data out =
     (let buf = sha_buf data in
      do { (w, h0, h1, h2, h3, h4, h5, h6, h7) \<leftarrow> sha_chunks shl buf (length buf div 64) (replicate 64 0, sha_init);
           o0 \<leftarrow> copy_uint32 0 h0 out;
           o1 \<leftarrow> copy_uint32 1 h1 o0;
           o2 \<leftarrow> copy_uint32 2 h2 o1;
           o3 \<leftarrow> copy_uint32 3 h3 o2;
           o4 \<leftarrow> copy_uint32 4 h4 o3;
           o5 \<leftarrow> copy_uint32 5 h5 o4;
           o6 \<leftarrow> copy_uint32 6 h6 o5;
           copy_uint32 7 h7 o6 })"

section \<open>FIPS 180-4\<close>

definition spec_pad :: "u8 list \<Rightarrow> u8 list" where
  "spec_pad m = m @ [0x80] @ replicate ((119 - length m mod 64) mod 64) 0 @
     rev (map (\<lambda>i. ucast (drop_bit (8 * i) (of_nat (8 * length m) :: u64))) [0 ..< 8])"

definition spec_word :: "u8 list \<Rightarrow> nat \<Rightarrow> u32" where
  "spec_word m t = push_bit 24 (ucast (m ! (4 * t))) OR push_bit 16 (ucast (m ! (4 * t + 1))) OR
     push_bit 8 (ucast (m ! (4 * t + 2))) OR ucast (m ! (4 * t + 3))"

definition spec_s0 :: "u32 \<Rightarrow> u32" where
  "spec_s0 x = word_rotr 7 x XOR word_rotr 18 x XOR drop_bit 3 x"

definition spec_s1 :: "u32 \<Rightarrow> u32" where
  "spec_s1 x = word_rotr 17 x XOR word_rotr 19 x XOR drop_bit 10 x"

function spec_W :: "u8 list \<Rightarrow> nat \<Rightarrow> u32" where
  "spec_W m t =
     (if t < 16 then spec_word m t
      else spec_s1 (spec_W m (t - 2)) + spec_W m (t - 7) + spec_s0 (spec_W m (t - 15)) + spec_W m (t - 16))"
  by pat_completeness auto
termination
  by (relation "measure snd") auto

declare spec_W.simps [simp del]

fun spec_step :: "u32 \<Rightarrow> u32 \<Rightarrow> sha_state \<Rightarrow> sha_state" where
  "spec_step k w (a, b, c, d, e, f, g, h) =
     (let t1 = h + (word_rotr 6 e XOR word_rotr 11 e XOR word_rotr 25 e) + ((e AND f) XOR (NOT e AND g)) + k + w;
          t2 = (word_rotr 2 a XOR word_rotr 13 a XOR word_rotr 22 a) + ((a AND b) XOR (a AND c) XOR (b AND c))
      in (t1 + t2, a, b, c, d + t1, e, f, g))"

definition spec_block :: "u8 list \<Rightarrow> sha_state \<Rightarrow> sha_state" where
  "spec_block m hs = sha_add hs (fold (\<lambda>t. spec_step (sha_k ! t) (spec_W m t)) [0 ..< 64] hs)"

fun spec_blocks :: "u8 list \<Rightarrow> nat \<Rightarrow> sha_state \<Rightarrow> sha_state" where
  "spec_blocks m 0 hs = hs"
| "spec_blocks m (Suc n) hs = spec_blocks (drop 64 m) n (spec_block (take 64 m) hs)"

definition spec_digest :: "u8 list \<Rightarrow> sha_state" where
  "spec_digest m = spec_blocks (spec_pad m) (length (spec_pad m) div 64) sha_init"

section \<open>Padding\<close>

lemma pad_zeros: "x < 64 \<Longrightarrow> (119 - x) mod 64 = (if x < 56 then 55 - x else 119 - x)" for x :: nat
proof (cases "x < 56")
  case True
  then have "119 - x = (55 - x) + 64" by simp
  then have "(119 - x) mod 64 = (55 - x) mod 64" by (simp only: mod_add_self2)
  with True show ?thesis by simp
qed simp

lemma sha_append_eq: "sha_append len = Suc ((119 - len mod 64) mod 64)"
proof -
  define x where "x = len mod 64"
  have m: "len * 8 mod 512 = 8 * x" by (simp add: x_def mult_mod_right mult.commute)
  have x: "x < 64" by (simp add: x_def)
  show ?thesis
  proof (cases "x < 56")
    case True
    then have "448 - 8 * x = 8 * (56 - x)" by simp
    with True x show ?thesis by (simp add: sha_append_def m pad_zeros flip: x_def)
  next
    case False
    then have "448 + 512 - 8 * x = 8 * (120 - x)" using x by simp
    with False x show ?thesis by (simp add: sha_append_def m pad_zeros flip: x_def)
  qed
qed

lemma sha_buf_pad: "sha_buf data = spec_pad data"
proof -
  have u: "map (\<lambda>i. ucast (drop_bit ((7 - i) * 8) (x :: u64) AND 0xff) :: u8) [0 ..< 8] = rev (map (\<lambda>i. ucast (drop_bit (8 * i) x)) [0 ..< 8])" for x
  proof -
    have "(ucast (y AND 0xff) :: u8) = ucast y" for y :: u64
    proof (rule bit_word_eqI)
      fix n assume "n < LENGTH(8)"
      moreover have "y AND 0xff = take_bit 8 y" by (simp add: take_bit_eq_mask mask_eq_exp_minus_1)
      ultimately show "bit (ucast (y AND 0xff) :: u8) n = bit (ucast y :: u8) n"
        by (simp add: bit_ucast_iff bit_take_bit_iff)
    qed
    then show ?thesis by (simp add: upt_rec)
  qed
  have c: "length data * 8 = 8 * length data" by simp
  show ?thesis
    unfolding sha_buf_def spec_pad_def Let_def sha_append_eq u c by (simp add: list_update_append)
qed

lemma spec_pad_length: "64 dvd length (spec_pad m) \<and> 0 < length (spec_pad m) div 64"
proof -
  have "(length m + 1 + (119 - length m mod 64) mod 64 + 8) mod 64 = 0"
  proof -
    define q x where "q = length m div 64" and "x = length m mod 64"
    have x: "length m = 64 * q + x" "x < 64" by (simp_all add: q_def x_def)
    have "length m + 1 + (119 - x) mod 64 + 8 = 64 * (q + (if x < 56 then 1 else 2))"
      using x by (simp add: pad_zeros)
    then show ?thesis by (simp flip: x_def)
  qed
  moreover have l: "length (spec_pad m) = length m + 1 + (119 - length m mod 64) mod 64 + 8" by (simp add: spec_pad_def)
  ultimately have "64 dvd length (spec_pad m)" by presburger
  moreover have "0 < length (spec_pad m)" by (simp add: l)
  ultimately show ?thesis by (simp add: div_greater_zero_iff dvd_imp_le)
qed

section \<open>Loading and extending the message words\<close>

lemma shift_count:
  "nat (8 * (3 - int (4 * t)) mod 32) = 24" "nat (8 * (3 - int (4 * t + 1)) mod 32) = 16"
  "nat (8 * (3 - int (4 * t + 2)) mod 32) = 8" "nat (8 * (3 - int (4 * t + 3)) mod 32) = 0"
proof -
  have "8 * (3 - int (4 * t)) = 24 + 32 * (- int t)" "8 * (3 - int (4 * t + 1)) = 16 + 32 * (- int t)"
    "8 * (3 - int (4 * t + 2)) = 8 + 32 * (- int t)" "8 * (3 - int (4 * t + 3)) = 0 + 32 * (- int t)" by simp_all
  then show "nat (8 * (3 - int (4 * t)) mod 32) = 24" "nat (8 * (3 - int (4 * t + 1)) mod 32) = 16"
    "nat (8 * (3 - int (4 * t + 2)) mod 32) = 8" "nat (8 * (3 - int (4 * t + 3)) mod 32) = 0"
    by (simp_all only: mod_mult_self2) simp_all
qed

lemma load_four:
  "load_words shl_mod32 (b0 # b1 # b2 # b3 # bs) (4 * t) 0 w =
   load_words shl_mod32 bs (4 * Suc t) 0 (w[t := push_bit 24 (ucast b0) OR push_bit 16 (ucast b1) OR push_bit 8 (ucast b2) OR ucast b3])"
proof -
  have i: "Suc (4 * t) = 4 * t + 1" "Suc (4 * t + 1) = 4 * t + 2" "Suc (4 * t + 2) = 4 * t + 3" "Suc (4 * t + 3) = 4 * Suc t"
    by simp_all
  have m: "4 * t mod 4 = 0" "(4 * t + 1) mod 4 = 1" "(4 * t + 2) mod 4 = 2" "(4 * t + 3) mod 4 = 3" "(4 * t + 3) div 4 = t"
    by (simp_all del: add_2_eq_Suc' add_Suc_right)
  show ?thesis
    unfolding load_words.simps shl_mod32_def i m shift_count Let_def
    by (simp add: or.assoc)
qed

lemma spec_word_step: "spec_word (b0 # b1 # b2 # b3 # bs) (Suc j) = spec_word bs j"
  by (simp add: spec_word_def add.commute[of 3])

lemma load_words_spec:
  "length bs = 4 * n \<Longrightarrow> t + n \<le> length w \<Longrightarrow>
   \<exists>w'. load_words shl_mod32 bs (4 * t) 0 w = Some w' \<and> length w' = length w \<and>
     (\<forall>j. t \<le> j \<and> j < t + n \<longrightarrow> w' ! j = spec_word bs (j - t)) \<and> (\<forall>j < t. w' ! j = w ! j)"
proof (induction n arbitrary: bs t w)
  case (Suc n)
  then obtain b0 b1 b2 b3 cs where bs: "bs = b0 # b1 # b2 # b3 # cs" "length cs = 4 * n"
    by (auto simp: length_Suc_conv numeral_eq_Suc)
  let ?x = "push_bit 24 (ucast b0) OR push_bit 16 (ucast b1) OR push_bit 8 (ucast b2) OR ucast b3 :: u32"
  have "Suc t + n \<le> length (w[t := ?x])" using Suc.prems by simp
  from Suc.IH[OF bs(2) this] obtain w' where
    w': "load_words shl_mod32 cs (4 * Suc t) 0 (w[t := ?x]) = Some w'" "length w' = length w"
      "\<forall>j. Suc t \<le> j \<and> j < Suc t + n \<longrightarrow> w' ! j = spec_word cs (j - Suc t)" "\<forall>j < Suc t. w' ! j = w[t := ?x] ! j"
    by auto
  have "w' ! j = spec_word bs (j - t)" if "t \<le> j" "j < t + Suc n" for j
  proof (cases "j = t")
    case True
    then show ?thesis using w'(4) Suc.prems(2) by (simp add: bs spec_word_def)
  next
    case False
    then have "j - t = Suc (j - Suc t)" using that by simp
    then show ?thesis using w'(3) that False by (simp add: bs spec_word_step)
  qed
  with w' show ?case by (auto simp: bs load_four)
qed (auto simp: load_words.simps)

lemma rightrotate_rotr:
  assumes "0 < n" "n < 32"
  shows "rightrotate x n = word_rotr n x"
proof (rule bit_word_eqI)
  fix j assume j: "j < LENGTH(32)"
  have "bit (rightrotate x n) j \<longleftrightarrow> bit x (n + j) \<or> (32 - n \<le> j \<and> bit x (j - (32 - n)))"
    using j by (auto simp: rightrotate_def bit_or_iff bit_drop_bit_eq bit_push_bit_iff)
  moreover have "bit (word_rotr n x) j \<longleftrightarrow> bit x ((j + n) mod 32)" using j by (simp add: bit_word_rotr_iff)
  moreover have "(j + n) mod 32 = (if 32 - n \<le> j then j - (32 - n) else n + j)"
    using j assms by (auto simp: mod_if)
  moreover have "32 - n \<le> j \<Longrightarrow> \<not> bit x (n + j)" using bit_imp_le_length[of x "n + j"] assms by auto
  ultimately show "bit (rightrotate x n) j = bit (word_rotr n x) j" by auto
qed

lemma extend_words:
  assumes "length w = 64" "\<forall>t < 16. w ! t = spec_W m t"
  shows "n \<le> 48 \<Longrightarrow> length (fold extend_word [16 ..< 16 + n] w) = 64 \<and>
    (\<forall>t < 16 + n. fold extend_word [16 ..< 16 + n] w ! t = spec_W m t)"
proof (induction n)
  case (Suc n)
  let ?w = "fold extend_word [16 ..< 16 + n] w"
  have IH: "length ?w = 64" "\<And>t. t < 16 + n \<Longrightarrow> ?w ! t = spec_W m t" using Suc by auto
  have e: "fold extend_word [16 ..< 16 + Suc n] w = extend_word (16 + n) ?w"
    by (simp add: upt_Suc_append[of 16 "16 + n", simplified])
  have W: "spec_W m (16 + n) = ?w ! (16 + n - 16) + spec_s0 (?w ! (16 + n - 15)) + ?w ! (16 + n - 7) + spec_s1 (?w ! (16 + n - 2))"
    using IH(2)[of n] IH(2)[of "n + 1"] IH(2)[of "n + 9"] IH(2)[of "n + 14"]
    by (subst spec_W.simps) (simp add: ac_simps)
  have "extend_word (16 + n) ?w = ?w[16 + n := spec_W m (16 + n)]"
    unfolding W extend_word_def Let_def spec_s0_def spec_s1_def by (simp add: rightrotate_rotr)
  with e IH Suc.prems show ?case by (auto simp: nth_list_update less_Suc_eq)
qed (use assms in simp)

lemma sha_round_step: "sha_round w i st = spec_step (sha_k ! i) (w ! i) st"
  by (cases "(w, i, st)" rule: sha_round.cases) (simp add: rightrotate_rotr Let_def)

lemma fold_rounds: "(\<And>i. i < n \<Longrightarrow> w ! i = spec_W m i) \<Longrightarrow>
    fold (sha_round w) [0 ..< n] hs = fold (\<lambda>t. spec_step (sha_k ! t) (spec_W m t)) [0 ..< n] hs"
  by (induction n) (auto simp: sha_round_step)

lemma sha_chunk_spec:
  assumes "length bytes = 64" "length w = 64"
  shows "\<exists>w'. sha_chunk shl_mod32 bytes (w, hs) = Some (w', spec_block bytes hs) \<and> length w' = 64"
proof -
  obtain w1 where w1: "load_words shl_mod32 bytes 0 0 w = Some w1" "length w1 = 64" "\<forall>j < 16. w1 ! j = spec_word bytes j"
    using load_words_spec[of bytes 16 0 w] assms by auto
  have "\<forall>t < 16. w1 ! t = spec_W bytes t" using w1(3) by (simp add: spec_W.simps)
  from extend_words[OF w1(2) this, of 48]
  have w2: "length (fold extend_word [16 ..< 64] w1) = 64" "\<And>t. t < 64 \<Longrightarrow> fold extend_word [16 ..< 64] w1 ! t = spec_W bytes t"
    by simp_all
  from fold_rounds[OF w2(2), of 64] w1(1) w2(1) show ?thesis by (simp add: sha_chunk_def spec_block_def Let_def)
qed

lemma sha_chunks_spec:
  "length buf = 64 * n \<Longrightarrow> length w = 64 \<Longrightarrow>
   \<exists>w'. sha_chunks shl_mod32 buf n (w, hs) = Some (w', spec_blocks buf n hs)"
proof (induction n arbitrary: buf w hs)
  case (Suc n)
  have "length (take 64 buf) = 64" "length (drop 64 buf) = 64 * n" using Suc.prems by simp_all
  with sha_chunk_spec[of "take 64 buf" w hs] Suc.IH Suc.prems(2) show ?case by fastforce
qed simp

section \<open>Properties\<close>



text \<open>
  By the C standard the function is undefined on every input: the fifth byte of the
  first block is shifted by a negative count.
\<close>

theorem sha256_undefined:
  "sha256 shl_std data out = None"
proof -
  obtain n where n: "length (spec_pad data) div 64 = Suc n" using spec_pad_length[of data] by (metis Suc_pred)
  have "4 < length (take 64 (spec_pad data))" using n by (cases "length (spec_pad data) < 64") simp_all
  then obtain b0 b1 b2 b3 b4 bs where b: "take 64 (spec_pad data) = b0 # b1 # b2 # b3 # b4 # bs"
    by (auto simp: numeral_eq_Suc Suc_le_length_iff less_eq_Suc_le)
  have "load_words shl_std (b0 # b1 # b2 # b3 # b4 # bs) 0 0 w = None" for w
    by (simp add: load_words.simps shl_std_def split: bind_splits)
  then show ?thesis
    by (simp add: sha256_def Let_def sha_buf_pad n b sha_chunk_def)
qed

end
