(* ===== verification/HexConv.thy ===== *)
theory HexConv
  imports CLib
begin

text \<open>
  The conversions of \<^verbatim>\<open>data_format_convertion.c\<close> between bytes and hexadecimal text. Output
  buffers are lists of bytes that every store must stay inside; characters are bytes, with
  the sign of \<^verbatim>\<open>char\<close> where the code depends on it.
\<close>

section \<open>Definitions\<close>

text \<open>The value the nibble expressions compute for a (signed) character.\<close>

definition nibble_expr :: "u8 \<Rightarrow> int" where
  "nibble_expr p =
     (let c = sint p in if c > 57 \<and> (c \<le> 70 \<or> c \<le> 102) then c - 48 - 7 else c - 48)"

text \<open>\<^verbatim>\<open>high\<close> and \<^verbatim>\<open>low\<close> are \<^verbatim>\<open>char\<close>s; only their low four bits enter the byte.\<close>

definition nibble_pair :: "u8 \<Rightarrow> u8 \<Rightarrow> u8" where
  "nibble_pair h l = push_bit 4 (word_of_int (nibble_expr h) AND 0x0f) OR (word_of_int (nibble_expr l) AND 0x0f)"

fun string_to_hex_loop :: "u8 list \<Rightarrow> nat \<Rightarrow> u8 list \<Rightarrow> u8 list option" where
  "string_to_hex_loop (h # l # p) cnt out =
     do { out' \<leftarrow> aset out cnt (nibble_pair h l); string_to_hex_loop p (Suc cnt) out' }"
| "string_to_hex_loop [c] cnt out = aset out cnt (word_of_int (nibble_expr c))"
| "string_to_hex_loop [] cnt out = Some out"

text \<open>The string is its characters before the NUL; the result is the length stored and the buffer.\<close>

definition StringToHex :: "u8 list \<Rightarrow> u8 list \<Rightarrow> (nat \<times> u8 list) option" where
  "StringToHex str out =
     (let tmplen = length str in
      do { out' \<leftarrow> string_to_hex_loop str 0 out; Some (tmplen div 2 + tmplen mod 2, out') })"

text \<open>The characters \<^verbatim>\<open>%02x\<close> prints for a \<^verbatim>\<open>char\<close> promoted to \<^verbatim>\<open>int\<close>, with the NUL.\<close>

definition hex_digit :: "nat \<Rightarrow> u8" where
  "hex_digit d = (if d < 10 then 48 + of_nat d else 87 + of_nat d)"

definition sprintf_02x :: "u8 \<Rightarrow> u8 list" where
  "sprintf_02x c =
     (if sint c < 0
      then replicate 6 102 @ [hex_digit (unat c div 16), hex_digit (unat c mod 16), 0]
      else [hex_digit (unat c div 16), hex_digit (unat c mod 16), 0])"

definition put_at :: "u8 list \<Rightarrow> nat \<Rightarrow> u8 list \<Rightarrow> u8 list option" where
  "put_at dest j s = (if j + length s \<le> length dest then Some (take j dest @ s @ drop (j + length s) dest) else None)"

fun str2hex_loop :: "u8 list \<Rightarrow> nat \<Rightarrow> u8 list \<Rightarrow> u8 list option" where
  "str2hex_loop [] j dest = aset dest j 0"
| "str2hex_loop (c # src) j dest =
     do { dest' \<leftarrow> put_at dest j (sprintf_02x c); str2hex_loop src (j + 2) dest' }"

definition str2hex :: "u8 list \<Rightarrow> u8 list \<Rightarrow> u8 list option" where
  "str2hex dest src = str2hex_loop src 0 dest"

definition ascii_of :: "u8 \<Rightarrow> u8" where
  "ascii_of h =
     (if h \<ge> 0x30 \<and> h \<le> 0x39 then 48 + h - 0x30
      else if h \<ge> 0x41 \<and> h \<le> 0x5A then 65 + (h - 0x41)
      else if h \<ge> 0x61 \<and> h \<le> 0x7A then 97 + (h - 0x61)
      else 0xff)"

fun hex_to_ascii_loop :: "u8 list \<Rightarrow> nat \<Rightarrow> u8 list \<Rightarrow> u8 list option" where
  "hex_to_ascii_loop [] i ascii = Some ascii"
| "hex_to_ascii_loop (h # hs) i ascii =
     do { ascii' \<leftarrow> aset ascii i (ascii_of h); hex_to_ascii_loop hs (Suc i) ascii' }"

definition hex_to_ascii :: "u8 list \<Rightarrow> u8 list \<Rightarrow> (nat \<times> u8 list) option" where
  "hex_to_ascii hex ascii = do { a \<leftarrow> hex_to_ascii_loop hex 0 ascii; Some (length hex, a) }"

definition hexEncode :: "u8 list" where
  "hexEncode = map (\<lambda>c. of_nat (of_char c)) ''0123456789ABCDEF''"

fun hex2str_loop :: "u8 list \<Rightarrow> nat \<Rightarrow> u8 list \<Rightarrow> u8 list option" where
  "hex2str_loop [] j output = Some output"
| "hex2str_loop (b # bs) j output =
     do { o1 \<leftarrow> aset output j (hexEncode ! unat (drop_bit 4 b AND 0xf));
          o2 \<leftarrow> aset o1 (j + 1) (hexEncode ! unat (b AND 0xf));
          hex2str_loop bs (j + 2) o2 }"

definition hex2str :: "u8 list \<Rightarrow> u8 list \<Rightarrow> u8 list option" where
  "hex2str input output = hex2str_loop input 0 output"

section \<open>Nibbles\<close>

definition enc :: "u8 \<Rightarrow> u8 list" where
  "enc b = [hexEncode ! unat (drop_bit 4 b AND 0xf), hexEncode ! unat (b AND 0xf)]"

lemma nibble_val: "unat (b AND 0xf) = unat b mod 16" "unat (drop_bit 4 b AND 0xf) = unat b div 16" for b :: u8
proof -
  have m: "x AND 0xf = take_bit 4 x" for x :: u8 by (simp add: take_bit_eq_mask mask_eq_exp_minus_1)
  show "unat (b AND 0xf) = unat b mod 16" unfolding m by (simp add: take_bit_eq_mod unat_mod)
  have "unat b < 256" using unsigned_less[of b] by simp
  then have "unat b div 16 < 16" by simp
  then show "unat (drop_bit 4 b AND 0xf) = unat b div 16"
    unfolding m by (simp add: take_bit_eq_mod unat_mod drop_bit_eq_div unat_div)
qed

lemma hexEncode_nibble: "\<forall>d < 16. word_of_int (nibble_expr (hexEncode ! d)) AND (0x0f :: u8) = of_nat d"
  by (simp add: All_less_Suc numeral_eq_Suc) (simp add: hexEncode_def nibble_expr_def Let_def)

lemma nibble_less: "unat (x AND 0xf) < 16" for x :: u8
  using nibble_val(1)[of x] by simp

lemma nibble_pair_encode:
  "nibble_pair (hexEncode ! unat (drop_bit 4 b AND 0xf)) (hexEncode ! unat (b AND 0xf)) = b"
proof -
  have "nibble_pair (hexEncode ! unat (drop_bit 4 b AND 0xf)) (hexEncode ! unat (b AND 0xf)) =
      push_bit 4 (drop_bit 4 b AND 0xf) OR (b AND 0xf)"
    unfolding nibble_pair_def using hexEncode_nibble nibble_less[of b] nibble_less[of "drop_bit 4 b"] by simp
  also have "\<dots> = b"
  proof (rule bit_word_eqI)
    fix n assume n: "n < LENGTH(8)"
    have m: "(0xf :: u8) = mask 4" by (simp add: mask_eq_exp_minus_1)
    show "bit (push_bit 4 (drop_bit 4 b AND 0xf) OR b AND 0xf) n = bit b n"
      unfolding m using n
      by (cases "n < 4") (auto simp: bit_or_iff bit_push_bit_iff bit_and_iff bit_drop_bit_eq bit_mask_iff simp del: mask_numeral)
  qed
  finally show ?thesis .
qed

section \<open>Buffers\<close>

lemma aset_snoc: "length pre = j \<Longrightarrow> aset (pre @ x # post) j v = Some (pre @ v # post)"
  by (simp add: aset_def list_update_append)

lemma hex2str_loop_eq:
  "length pre = j \<Longrightarrow> 2 * length bs \<le> length post \<Longrightarrow>
   hex2str_loop bs j (pre @ post) = Some (pre @ concat (map enc bs) @ drop (2 * length bs) post)"
proof (induction bs arbitrary: j pre post)
  case (Cons b bs)
  then obtain x y post' where post: "post = x # y # post'" "2 * length bs \<le> length post'"
    by (auto simp: Suc_le_length_iff)
  have "aset (pre @ [u] @ y # post') (j + 1) v = Some ((pre @ [u]) @ v # post')" for u v
    using aset_snoc[of "pre @ [u]" "j + 1" y post' v] Cons.prems(1) by simp
  then show ?case
    using Cons.IH[of "pre @ enc b" "j + 2" post'] Cons.prems(1) post by (simp add: aset_snoc enc_def)
qed simp

lemma string_to_hex_loop_eq:
  "length pre = cnt \<Longrightarrow> length bs \<le> length post \<Longrightarrow>
   string_to_hex_loop (concat (map enc bs)) cnt (pre @ post) = Some (pre @ bs @ drop (length bs) post)"
proof (induction bs arbitrary: cnt pre post)
  case (Cons b bs)
  then obtain x post' where post: "post = x # post'" "length bs \<le> length post'" by (cases post) auto
  show ?case
    using Cons.IH[of "pre @ [b]" "Suc cnt" post'] Cons.prems(1) post
    by (simp add: enc_def nibble_pair_encode aset_snoc)
qed simp

section \<open>Properties\<close>



text \<open>
  \<^verbatim>\<open>str2hex\<close> does not hold for bytes from 0x80 on: \<^verbatim>\<open>char\<close> is signed, \<^verbatim>\<open>%02x\<close> then prints
  eight digits, and a message that ends in such a byte is written six bytes past the two
  characters per byte (and the terminator) that the code reserves.
\<close>

theorem str2hex_overflow:
  assumes "sint c < 0" "length dest = 2 * length (src @ [c]) + 1"
  shows "str2hex dest (src @ [c]) = None"
proof -
  have l: "length (sprintf_02x x) \<ge> 3" for x by (simp add: sprintf_02x_def)
  have p: "length d' = length d" if "put_at d j s = Some d'" for d j s d'
    using that by (auto simp: put_at_def split: if_splits)
  have "str2hex_loop (src @ [c]) j d = None" if "length d = j + 2 * length (src @ [c]) + 1" for j d
    using that
  proof (induction src arbitrary: j d)
    case Nil
    then show ?case using assms(1) by (simp add: put_at_def sprintf_02x_def)
  next
    case (Cons x src)
    show ?case
    proof (cases "put_at d j (sprintf_02x x)")
      case (Some d')
      with p[OF Some] Cons.IH[of d' "j + 2"] Cons.prems show ?thesis by simp
    qed simp
  qed
  then show ?thesis unfolding str2hex_def using assms(2) by simp
qed

theorem str2hex_overflow_witness:
  "sint (0x80 :: u8) < 0 \<and> str2hex (replicate 5 0) ([0x41] @ [0x80]) = None"
proof -
  have "sint (0x80 :: u8) < 0" by simp
  from str2hex_overflow[OF this, of "replicate 5 0" "[0x41]"] this show ?thesis by simp
qed

end
