(* ===== verification/CJson.thy ===== *)
theory CJson
  imports CLib
begin

text \<open>
  The JSON library \<^verbatim>\<open>cJSON.c\<close>: the item type, the recursive-descent parser and the printer.
  An item owns the chain of its children, a list here; text is the characters before the
  NUL, and reading beyond that NUL is undefined. The arithmetic on \<^verbatim>\<open>double\<close> and its
  formatting by \<^verbatim>\<open>sprintf\<close> are parameters, gathered in a record.
\<close>

section \<open>Doubles\<close>

record 'd dops =
  dlit :: "int \<Rightarrow> 'd"          \<comment> \<open>conversion of an \<^verbatim>\<open>int\<close>\<close>
  dadd :: "'d \<Rightarrow> 'd \<Rightarrow> 'd"
  dsub :: "'d \<Rightarrow> 'd \<Rightarrow> 'd"
  dmul :: "'d \<Rightarrow> 'd \<Rightarrow> 'd"
  dpow10 :: "'d \<Rightarrow> 'd"         \<comment> \<open>\<^verbatim>\<open>pow(10.0, x)\<close>\<close>
  dint :: "'d \<Rightarrow> int"          \<comment> \<open>conversion to \<^verbatim>\<open>int\<close>\<close>
  deq :: "'d \<Rightarrow> 'd \<Rightarrow> bool"
  dle :: "'d \<Rightarrow> 'd \<Rightarrow> bool"
  dlt :: "'d \<Rightarrow> 'd \<Rightarrow> bool"
  dfabs :: "'d \<Rightarrow> 'd"
  dfloor :: "'d \<Rightarrow> 'd"
  DBL_EPSILON :: 'd
  d1e60 :: 'd
  d1em6 :: 'd
  d1e9 :: 'd
  fmt_0f :: "'d \<Rightarrow> string"
  fmt_e :: "'d \<Rightarrow> string"
  fmt_f :: "'d \<Rightarrow> string"

definition INT_MAX :: int where "INT_MAX = 2 ^ 31 - 1"
definition INT_MIN :: int where "INT_MIN = - (2 ^ 31)"

section \<open>Items\<close>

definition cJSON_False :: int where "cJSON_False = 0"
definition cJSON_True :: int where "cJSON_True = 1"
definition cJSON_NULL :: int where "cJSON_NULL = 2"
definition cJSON_Number :: int where "cJSON_Number = 3"
definition cJSON_String :: int where "cJSON_String = 4"
definition cJSON_Array :: int where "cJSON_Array = 5"
definition cJSON_Object :: int where "cJSON_Object = 6"
definition cJSON_IsReference :: int where "cJSON_IsReference = 256"
definition cJSON_StringIsConst :: int where "cJSON_StringIsConst = 512"

lemmas cJSON_types = cJSON_False_def cJSON_True_def cJSON_NULL_def cJSON_Number_def cJSON_String_def
  cJSON_Array_def cJSON_Object_def

text \<open>Type, valuestring, valueint, valuedouble, name, children.\<close>

datatype 'd cJSON = Item (jtype: int) (valuestring: cptr) (valueint: int) (valuedouble: 'd) (jname: cptr)
  (children: "'d cJSON list")

fun strcasecmp_loop :: "string \<Rightarrow> string \<Rightarrow> int" where
  "strcasecmp_loop [] [] = 0"
| "strcasecmp_loop [] (b # t) = - int (of_char (tolower b))"
| "strcasecmp_loop (a # s) [] = int (of_char (tolower a))"
| "strcasecmp_loop (a # s) (b # t) =
     (if tolower a = tolower b then strcasecmp_loop s t else int (of_char (tolower a)) - int (of_char (tolower b)))"

definition cJSON_strcasecmp :: "cptr \<Rightarrow> cptr \<Rightarrow> int" where
  "cJSON_strcasecmp s1 s2 =
     (case (s1, s2) of
        (None, None) \<Rightarrow> 0
      | (Some a, Some b) \<Rightarrow> strcasecmp_loop a b
      | _ \<Rightarrow> 1)"

fun cJSON_strdup :: "string \<Rightarrow> alloc \<Rightarrow> cptr \<times> alloc" where
  "cJSON_strdup s al = (let (ok, al') = malloc al in (if ok then Some s else None, al'))"

text \<open>An item of zeroes, if it could be allocated.\<close>

definition item0 :: "'d dops \<Rightarrow> 'd cJSON" where
  "item0 ops = Item 0 None 0 (dlit ops 0) None []"

fun cJSON_New_Item :: "'d dops \<Rightarrow> alloc \<Rightarrow> 'd cJSON option \<times> alloc" where
  "cJSON_New_Item ops al = (let (ok, al') = malloc al in (if ok then Some (item0 ops) else None, al'))"

section \<open>Parsing\<close>

text \<open>
  The outcome of a parse function: the item and the text after it, a failure with the
  error position that \<^verbatim>\<open>ep\<close> holds (none for a failed allocation), undefined behaviour, or
  that the recursion bound of the model was too small.
\<close>

datatype 'd presult = POk "'d cJSON" string | PFail cptr | PUB | PFuel

definition skip :: "string \<Rightarrow> string" where
  "skip inp = dropWhile (\<lambda>c. (of_char c :: nat) \<le> 32) inp"

definition is_digit :: "char \<Rightarrow> bool" where
  "is_digit c \<longleftrightarrow> 48 \<le> (of_char c :: nat) \<and> (of_char c :: nat) \<le> 57"

definition digit_of :: "char \<Rightarrow> int" where
  "digit_of c = int (of_char c) - 48"

fun starts :: "(char \<Rightarrow> bool) \<Rightarrow> string \<Rightarrow> bool" where
  "starts P [] = False"
| "starts P (c # cs) = P c"

definition accum :: "'d dops \<Rightarrow> 'd \<Rightarrow> char \<Rightarrow> 'd" where
  "accum ops n c = dadd ops (dmul ops n (dlit ops 10)) (dlit ops (digit_of c))"

text \<open>The exponent is an \<^verbatim>\<open>int\<close>; its overflow is undefined (\<^const>\<open>None\<close>).\<close>

fun exponent :: "string \<Rightarrow> int \<Rightarrow> int option" where
  "exponent [] e = Some e"
| "exponent (c # cs) e = (if e * 10 + digit_of c \<le> INT_MAX then exponent cs (e * 10 + digit_of c) else None)"

text \<open>The integer part: one leading 0 is skipped, then digits if the next one is not a 0.\<close>

definition num_int :: "string \<Rightarrow> string \<times> string" where
  "num_int s =
     (let s' = (if starts (\<lambda>c. c = CHR ''0'') s then tl s else s) in
      if starts (\<lambda>c. is_digit c \<and> c \<noteq> CHR ''0'') s' then (takeWhile is_digit s', dropWhile is_digit s')
      else ([], s'))"

definition num_frac :: "string \<Rightarrow> string \<times> string" where
  "num_frac s =
     (if starts (\<lambda>c. c = CHR ''.'') s \<and> starts is_digit (tl s)
      then (takeWhile is_digit (tl s), dropWhile is_digit (tl s)) else ([], s))"

definition num_exp :: "string \<Rightarrow> bool \<times> string \<times> string" where
  "num_exp s =
     (if starts (\<lambda>c. c = CHR ''e'' \<or> c = CHR ''E'') s then
        (let s1 = tl s;
             s2 = (if starts (\<lambda>c. c = CHR ''+'' \<or> c = CHR ''-'') s1 then tl s1 else s1)
         in (starts (\<lambda>c. c = CHR ''-'') s1, takeWhile is_digit s2, dropWhile is_digit s2))
      else (False, [], s))"

definition parse_number :: "'d dops \<Rightarrow> 'd cJSON \<Rightarrow> string \<Rightarrow> 'd presult" where
  "parse_number ops item num =
     (let neg = starts (\<lambda>c. c = CHR ''-'') num;
          (ints, s1) = num_int (if neg then tl num else num);
          (frac, s2) = num_frac s1;
          (expneg, expd, s3) = num_exp s2;
          n = fold (\<lambda>c n. accum ops n c) frac (fold (\<lambda>c n. accum ops n c) ints (dlit ops 0))
      in case exponent expd 0 of
           None \<Rightarrow> PUB
         | Some subscale \<Rightarrow>
             (let scale = dadd ops (dlit ops (- int (length frac))) (dlit ops (subscale * (if expneg then -1 else 1)));
                  r = dmul ops (dmul ops (dlit ops (if neg then -1 else 1)) n) (dpow10 ops scale)
              in POk (Item cJSON_Number (valuestring item) (dint ops r) r (jname item) (children item)) s3))"

definition hex_val :: "char \<Rightarrow> u32 option" where
  "hex_val c = (let b = (of_char c :: nat) in
     if 48 \<le> b \<and> b \<le> 57 then Some (of_nat (b - 48))
     else if 65 \<le> b \<and> b \<le> 70 then Some (of_nat (b - 55))
     else if 97 \<le> b \<and> b \<le> 102 then Some (of_nat (b - 87))
     else None)"

text \<open>Four hexadecimal digits; 0 as soon as one is missing, the NUL included.\<close>

fun parse_hex4 :: "string \<Rightarrow> u32" where
  "parse_hex4 (a # b # c # d # cs) =
     (case (hex_val a, hex_val b, hex_val c, hex_val d) of
        (Some w, Some x, Some y, Some z) \<Rightarrow> push_bit 4 (push_bit 4 (push_bit 4 w + x) + y) + z
      | _ \<Rightarrow> 0)"
| "parse_hex4 _ = 0"

definition chr_of :: "u32 \<Rightarrow> char" where
  "chr_of w = char_of_byte (ucast w)"

definition utf8 :: "u32 \<Rightarrow> string" where
  "utf8 uc =
     (if uc < 0x80 then [chr_of uc]
      else if uc < 0x800 then [chr_of (drop_bit 6 uc OR 0xC0), chr_of ((uc OR 0x80) AND 0xBF)]
      else if uc < 0x10000 then
        [chr_of (drop_bit 12 uc OR 0xE0), chr_of ((drop_bit 6 uc OR 0x80) AND 0xBF), chr_of ((uc OR 0x80) AND 0xBF)]
      else
        [chr_of (drop_bit 18 uc OR 0xF0), chr_of ((drop_bit 12 uc OR 0x80) AND 0xBF),
         chr_of ((drop_bit 6 uc OR 0x80) AND 0xBF), chr_of ((uc OR 0x80) AND 0xBF)])"

text \<open>
  The first loop of \<^verbatim>\<open>parse_string\<close>: the size of the copy. A backslash before the NUL takes
  the pointer past the end of the text.
\<close>

fun scan_len :: "string \<Rightarrow> nat \<Rightarrow> nat option" where
  "scan_len [] n = Some n"
| "scan_len (c # cs) n =
     (if c = DQUOTE then Some n
      else if c = BSLASH then (case cs of [] \<Rightarrow> None | _ # cs' \<Rightarrow> scan_len cs' (Suc n))
      else scan_len cs (Suc n))"

definition simple_escape :: "char \<Rightarrow> char" where
  "simple_escape e =
     (if e = CHR ''b'' then CHR 0x08 else if e = CHR ''f'' then CHR 0x0C else if e = CHR ''n'' then CHR 0x0A
      else if e = CHR ''r'' then CHR 0x0D else if e = CHR ''t'' then CHR 0x09 else e)"

text \<open>
  One \<^verbatim>\<open>\u\<close> escape, from the character after the \<^verbatim>\<open>u\<close> on: the bytes it stands for and the
  rest. Four (or ten) characters are skipped whatever they are and must be there.
\<close>

definition unicode_escape :: "string \<Rightarrow> (string \<times> string) option" where
  "unicode_escape cs =
     (let uc = parse_hex4 cs; r = drop 4 cs in
      if length cs < 4 then None
      else if (uc \<ge> 0xDC00 \<and> uc \<le> 0xDFFF) \<or> uc = 0 then Some ([], r)
      else if uc \<ge> 0xD800 \<and> uc \<le> 0xDBFF then
        (case r of
           b # u # h \<Rightarrow>
             if b = BSLASH \<and> u = CHR ''u'' then
               (let uc2 = parse_hex4 h in
                if length h < 4 then None
                else if uc2 < 0xDC00 \<or> uc2 > 0xDFFF then Some ([], drop 4 h)
                else Some (utf8 (0x10000 + (push_bit 10 (uc AND 0x3FF) OR (uc2 AND 0x3FF))), drop 4 h))
             else Some ([], r)
         | _ \<Rightarrow> Some ([], r))
      else Some (utf8 uc, r))"

lemma drop_Cons2: "drop n cs = a # b # h \<Longrightarrow> length h \<le> length cs"
  by (drule arg_cong[of _ _ length]) simp

lemma unicode_escape_shorter: "unicode_escape cs = Some (o', r) \<Longrightarrow> length r \<le> length cs"
  by (auto simp: unicode_escape_def Let_def split: if_splits list.splits dest!: drop_Cons2)

function unescape :: "string \<Rightarrow> (string \<times> string) option" where
  "unescape [] = Some ([], [])"
| "unescape (c # cs) =
     (if c = DQUOTE then Some ([], cs)
      else if c \<noteq> BSLASH then do { (o', r) \<leftarrow> unescape cs; Some (c # o', r) }
      else (case cs of
              [] \<Rightarrow> None
            | e # es \<Rightarrow>
                if e = CHR ''u'' then
                  (case unicode_escape es of
                     None \<Rightarrow> None
                   | Some (u, r) \<Rightarrow> do { (o', r') \<leftarrow> unescape r; Some (u @ o', r') })
                else do { (o', r) \<leftarrow> unescape es; Some (simple_escape e # o', r) }))"
  by pat_completeness auto
termination
  by (relation "measure length") (auto dest: unicode_escape_shorter)

text \<open>
  \<^verbatim>\<open>parse_string\<close>: the buffer has \<^verbatim>\<open>len + 1\<close> bytes; writing more than \<^verbatim>\<open>len\<close> characters and
  the NUL into it is undefined.
\<close>

definition parse_string :: "'d cJSON \<Rightarrow> string \<Rightarrow> alloc \<Rightarrow> 'd presult \<times> alloc" where
  "parse_string item str al =
     (case str of
        [] \<Rightarrow> (PFail (Some str), al)
      | q # cs \<Rightarrow>
          if q \<noteq> DQUOTE then (PFail (Some str), al)
          else (case scan_len cs 0 of
                  None \<Rightarrow> (PUB, al)
                | Some len \<Rightarrow>
                    (let (ok, al') = malloc al in
                     if \<not> ok then (PFail None, al')
                     else (case unescape cs of
                             None \<Rightarrow> (PUB, al')
                           | Some (out, rest) \<Rightarrow>
                               if length out \<le> len
                               then (POk (Item cJSON_String (Some out) (valueint item) (valuedouble item) (jname item) (children item)) rest, al')
                               else (PUB, al')))))"

definition set_type :: "int \<Rightarrow> 'd cJSON \<Rightarrow> 'd cJSON" where
  "set_type t item = Item t (valuestring item) (valueint item) (valuedouble item) (jname item) (children item)"

definition set_children :: "'d cJSON list \<Rightarrow> 'd cJSON \<Rightarrow> 'd cJSON" where
  "set_children cs item = Item (jtype item) (valuestring item) (valueint item) (valuedouble item) (jname item) cs"

text \<open>\<^verbatim>\<open>child->string=child->valuestring; child->valuestring=0\<close>\<close>

definition value_to_name :: "'d cJSON \<Rightarrow> 'd cJSON" where
  "value_to_name item = Item (jtype item) None (valueint item) (valuedouble item) (valuestring item) (children item)"

text \<open>
  The bodies of the mutually recursive functions, with the recursive calls as an argument
  \<^verbatim>\<open>call\<close> that takes the function to call. \<^verbatim>\<open>parse_elems\<close> and \<^verbatim>\<open>parse_members\<close> are the loops over
  the elements of an array and the members of an object, \<^verbatim>\<open>parse_member\<close> is one name and
  value; the loops get the item with the children collected so far and the text at the
  comma or the closing bracket.
\<close>

datatype pfun = PValue | PArray | PElems | PObject | PMember | PMembers

type_synonym 'd parser = "'d cJSON \<Rightarrow> string \<Rightarrow> alloc \<Rightarrow> 'd presult \<times> alloc"

definition parse_value :: "'d dops \<Rightarrow> (pfun \<Rightarrow> 'd parser) \<Rightarrow> 'd parser" where
  "parse_value ops call item v al =
     (if take 4 v = ''null'' then (POk (set_type cJSON_NULL item) (drop 4 v), al)
      else if take 5 v = ''false'' then (POk (set_type cJSON_False item) (drop 5 v), al)
      else if take 4 v = ''true'' then
        (POk (Item cJSON_True (valuestring item) 1 (valuedouble item) (jname item) (children item)) (drop 4 v), al)
      else (case v of
              [] \<Rightarrow> (PFail (Some v), al)
            | c # cs \<Rightarrow>
                if c = DQUOTE then parse_string item v al
                else if c = CHR ''-'' \<or> is_digit c then (parse_number ops item v, al)
                else if c = CHR ''['' then call PArray item v al
                else if c = CHR ''{'' then call PObject item v al
                else (PFail (Some v), al)))"

definition parse_next :: "'d dops \<Rightarrow> (pfun \<Rightarrow> 'd parser) \<Rightarrow> pfun \<Rightarrow> pfun \<Rightarrow> 'd parser" where
  "parse_next ops call one loop item v al =
     (case cJSON_New_Item ops al of
        (None, al1) \<Rightarrow> (PFail None, al1)
      | (Some new, al1) \<Rightarrow>
          (case call one new (skip v) al1 of
             (POk c rest, al2) \<Rightarrow> call loop (set_children (children item @ [c]) item) (skip rest) al2
           | r \<Rightarrow> r))"

definition parse_array :: "'d dops \<Rightarrow> (pfun \<Rightarrow> 'd parser) \<Rightarrow> 'd parser" where
  "parse_array ops call item v al =
     (if \<not> starts (\<lambda>c. c = CHR ''['') v then (PFail (Some v), al)
      else (let item1 = set_type cJSON_Array item; v1 = skip (tl v) in
            if starts (\<lambda>c. c = CHR '']'') v1 then (POk item1 (tl v1), al)
            else parse_next ops call PValue PElems item1 v1 al))"

definition parse_elems :: "'d dops \<Rightarrow> (pfun \<Rightarrow> 'd parser) \<Rightarrow> 'd parser" where
  "parse_elems ops call item v al =
     (if starts (\<lambda>c. c = CHR '','') v then parse_next ops call PValue PElems item (tl v) al
      else if starts (\<lambda>c. c = CHR '']'') v then (POk item (tl v), al)
      else (PFail (Some v), al))"

definition parse_object :: "'d dops \<Rightarrow> (pfun \<Rightarrow> 'd parser) \<Rightarrow> 'd parser" where
  "parse_object ops call item v al =
     (if \<not> starts (\<lambda>c. c = CHR ''{'') v then (PFail (Some v), al)
      else (let item1 = set_type cJSON_Object item; v1 = skip (tl v) in
            if starts (\<lambda>c. c = CHR ''}'') v1 then (POk item1 (tl v1), al)
            else parse_next ops call PMember PMembers item1 v1 al))"

definition parse_member :: "'d dops \<Rightarrow> (pfun \<Rightarrow> 'd parser) \<Rightarrow> 'd parser" where
  "parse_member ops call item v al =
     (case parse_string item v al of
        (POk c rest, al1) \<Rightarrow>
          (let v1 = skip rest in
           if \<not> starts (\<lambda>c. c = CHR '':'') v1 then (PFail (Some v1), al1)
           else call PValue (value_to_name c) (skip (tl v1)) al1)
      | r \<Rightarrow> r)"

definition parse_members :: "'d dops \<Rightarrow> (pfun \<Rightarrow> 'd parser) \<Rightarrow> 'd parser" where
  "parse_members ops call item v al =
     (if starts (\<lambda>c. c = CHR '','') v then parse_next ops call PMember PMembers item (tl v) al
      else if starts (\<lambda>c. c = CHR ''}'') v then (POk item (tl v), al)
      else (PFail (Some v), al))"

definition parse_body :: "'d dops \<Rightarrow> (pfun \<Rightarrow> 'd parser) \<Rightarrow> pfun \<Rightarrow> 'd parser" where
  "parse_body ops call f =
     (case f of
        PValue \<Rightarrow> parse_value ops call
      | PArray \<Rightarrow> parse_array ops call
      | PElems \<Rightarrow> parse_elems ops call
      | PObject \<Rightarrow> parse_object ops call
      | PMember \<Rightarrow> parse_member ops call
      | PMembers \<Rightarrow> parse_members ops call)"

text \<open>The knot, with a bound on the depth of the calls.\<close>

primrec parse_call :: "'d dops \<Rightarrow> nat \<Rightarrow> pfun \<Rightarrow> 'd parser" where
  "parse_call ops 0 = (\<lambda>f item v al. (PFuel, al))"
| "parse_call ops (Suc n) = parse_body ops (parse_call ops n)"

definition parse_fuel :: "string \<Rightarrow> nat" where
  "parse_fuel v = 3 * length v + 3"

definition cJSON_ParseWithOpts :: "'d dops \<Rightarrow> string \<Rightarrow> bool \<Rightarrow> alloc \<Rightarrow> 'd presult \<times> alloc" where
  "cJSON_ParseWithOpts ops value require_null_terminated al =
     (case cJSON_New_Item ops al of
        (None, al1) \<Rightarrow> (PFail None, al1)
      | (Some c, al1) \<Rightarrow>
          (case parse_call ops (parse_fuel value) PValue c (skip value) al1 of
             (POk item rest, al2) \<Rightarrow>
               if require_null_terminated
               then (if skip rest \<noteq> [] then (PFail (Some (skip rest)), al2) else (POk item (skip rest), al2))
               else (POk item rest, al2)
           | r \<Rightarrow> r))"

definition cJSON_Parse :: "'d dops \<Rightarrow> string \<Rightarrow> alloc \<Rightarrow> 'd presult \<times> alloc" where
  "cJSON_Parse ops value al = cJSON_ParseWithOpts ops value False al"

section \<open>Printing\<close>

text \<open>
  A printed text is a string, NULL when an allocation failed; every text is written into a
  block whose size the code computes beforehand, and a text that does not fit there with
  its NUL is undefined behaviour.
\<close>

type_synonym printed = "(cptr \<times> alloc) option"

definition put_text :: "nat \<Rightarrow> string \<Rightarrow> alloc \<Rightarrow> printed" where
  "put_text sz txt al =
     (let (ok, al') = malloc al in
      if \<not> ok then Some (None, al')
      else if length txt + 1 \<le> sz then Some (Some txt, al')
      else None)"

definition print_number :: "'d dops \<Rightarrow> 'd cJSON \<Rightarrow> alloc \<Rightarrow> printed" where
  "print_number ops item al =
     (let d = valuedouble item in
      if deq ops d (dlit ops 0) then put_text 2 ''0'' al
      else if dle ops (dfabs ops (dsub ops (dlit ops (valueint item)) d)) (DBL_EPSILON ops) \<and>
              dle ops d (dlit ops INT_MAX) \<and> dle ops (dlit ops INT_MIN) d
      then put_text 21 (int_dec (valueint item)) al
      else put_text 64
             (if dle ops (dfabs ops (dsub ops (dfloor ops d) d)) (DBL_EPSILON ops) \<and> dlt ops (dfabs ops d) (d1e60 ops)
              then fmt_0f ops d
              else if dlt ops (dfabs ops d) (d1em6 ops) \<or> dlt ops (d1e9 ops) (dfabs ops d) then fmt_e ops d
              else fmt_f ops d) al)"

definition needs_escape :: "char \<Rightarrow> bool" where
  "needs_escape c \<longleftrightarrow> (of_char c :: nat) < 32 \<or> c = DQUOTE \<or> c = BSLASH"

definition hex4 :: "char \<Rightarrow> string" where
  "hex4 c = ''00'' @ [digit_char (of_char c div 16), digit_char (of_char c mod 16)]"

definition escape_char :: "char \<Rightarrow> string" where
  "escape_char c =
     (if \<not> needs_escape c then [c]
      else if c = BSLASH then [BSLASH, BSLASH]
      else if c = DQUOTE then [BSLASH, DQUOTE]
      else if c = CHR 0x08 then [BSLASH, CHR ''b'']
      else if c = CHR 0x0C then [BSLASH, CHR ''f'']
      else if c = CHR 0x0A then [BSLASH, CHR ''n'']
      else if c = CHR 0x0D then [BSLASH, CHR ''r'']
      else if c = CHR 0x09 then [BSLASH, CHR ''t'']
      else [BSLASH, CHR ''u''] @ hex4 c)"

definition escape_len :: "char \<Rightarrow> nat" where
  "escape_len c =
     (if c \<in> {DQUOTE, BSLASH, CHR 0x08, CHR 0x0C, CHR 0x0A, CHR 0x0D, CHR 0x09} then 2
      else if (of_char c :: nat) < 32 then 6 else 1)"

text \<open>
  The test for NULL comes after the loop that looks at the characters, so a NULL string is
  dereferenced.
\<close>

definition print_string_ptr :: "cptr \<Rightarrow> alloc \<Rightarrow> printed" where
  "print_string_ptr str al =
     (case str of
        None \<Rightarrow> None
      | Some s \<Rightarrow>
          if \<not> list_ex needs_escape s then put_text (length s + 3) (DQUOTE # s @ [DQUOTE]) al
          else put_text (sum_list (map escape_len s) + 3) (DQUOTE # concat (map escape_char s) @ [DQUOTE]) al)"

definition tabs :: "nat \<Rightarrow> string" where
  "tabs n = replicate n TAB"

text \<open>
  \<^verbatim>\<open>print_array\<close> and \<^verbatim>\<open>print_object\<close> without a print buffer, given what the children print to.
  The array loop stops at the first child that cannot be printed, the object loop runs on.
\<close>

fun join_array :: "bool \<Rightarrow> string list \<Rightarrow> string" where
  "join_array fmt [] = []"
| "join_array fmt [e] = e"
| "join_array fmt (e # es) = e @ '','' @ (if fmt then '' '' else []) @ join_array fmt es"

fun join_object :: "bool \<Rightarrow> nat \<Rightarrow> (string \<times> string) list \<Rightarrow> string" where
  "join_object fmt depth [] = []"
| "join_object fmt depth ((k, v) # es) =
     (if fmt then tabs depth else []) @ k @ '':'' @ (if fmt then [TAB] else []) @ v @
     (if es = [] then [] else '','') @ (if fmt then [LF] else []) @ join_object fmt depth es"

definition array_size :: "bool \<Rightarrow> string list \<Rightarrow> nat" where
  "array_size fmt es = 5 + sum_list (map (\<lambda>e. length e + 2 + (if fmt then 1 else 0)) es)"

definition object_size :: "bool \<Rightarrow> nat \<Rightarrow> (string \<times> string) list \<Rightarrow> nat" where
  "object_size fmt depth es =
     7 + (if fmt then depth else 0) +
     sum_list (map (\<lambda>(k, v). length v + length k + 2 + (if fmt then 2 + depth else 0)) es)"

definition print_array :: "(alloc \<Rightarrow> (string list option \<times> alloc) option) \<Rightarrow> bool \<Rightarrow> bool \<Rightarrow> alloc \<Rightarrow> printed" where
  "print_array elems none fmt al =
     (if none then put_text 3 ''[]'' al
      else (let (ok, al1) = malloc al in
            if \<not> ok then Some (None, al1)
            else do { (r, al2) \<leftarrow> elems al1;
                      (case r of None \<Rightarrow> Some (None, al2)
                       | Some es \<Rightarrow> put_text (array_size fmt es) (''['' @ join_array fmt es @ '']'') al2) }))"

definition print_object ::
    "(alloc \<Rightarrow> ((string \<times> string) list option \<times> alloc) option) \<Rightarrow> bool \<Rightarrow> nat \<Rightarrow> bool \<Rightarrow> alloc \<Rightarrow> printed" where
  "print_object members none depth fmt al =
     (if none then
        put_text (if fmt then depth + 4 else 3) (''{'' @ (if fmt then [LF] @ tabs (depth - 1) else []) @ ''}'') al
      else (let (ok1, al1) = malloc al in
            if \<not> ok1 then Some (None, al1)
            else (let (ok2, al2) = malloc al1 in
                  if \<not> ok2 then Some (None, al2)
                  else do { (r, al3) \<leftarrow> members al2;
                            (case r of None \<Rightarrow> Some (None, al3)
                             | Some es \<Rightarrow>
                                 put_text (object_size fmt (depth + 1) es)
                                   (''{'' @ (if fmt then [LF] else []) @ join_object fmt (depth + 1) es @
                                    (if fmt then tabs depth else []) @ ''}'') al3) })))"

definition cons_elem :: "printed \<Rightarrow> (alloc \<Rightarrow> (string list option \<times> alloc) option) \<Rightarrow> (string list option \<times> alloc) option" where
  "cons_elem first rest =
     do { (r, al1) \<leftarrow> first;
          (case r of
             None \<Rightarrow> Some (None, al1)
           | Some e \<Rightarrow> do { (es, al2) \<leftarrow> rest al1; Some (map_option (\<lambda>l. e # l) es, al2) }) }"

definition cons_member :: "printed \<Rightarrow> (alloc \<Rightarrow> printed) \<Rightarrow>
    (alloc \<Rightarrow> ((string \<times> string) list option \<times> alloc) option) \<Rightarrow> ((string \<times> string) list option \<times> alloc) option" where
  "cons_member name value rest =
     do { (k, al1) \<leftarrow> name;
          (v, al2) \<leftarrow> value al1;
          (es, al3) \<leftarrow> rest al2;
          Some (case (k, v, es) of (Some k', Some v', Some l) \<Rightarrow> Some ((k', v') # l) | _ \<Rightarrow> None, al3) }"

fun print_value :: "'d dops \<Rightarrow> 'd cJSON \<Rightarrow> nat \<Rightarrow> bool \<Rightarrow> alloc \<Rightarrow> printed"
  and print_elems :: "'d dops \<Rightarrow> 'd cJSON list \<Rightarrow> nat \<Rightarrow> bool \<Rightarrow> alloc \<Rightarrow> (string list option \<times> alloc) option"
  and print_members :: "'d dops \<Rightarrow> 'd cJSON list \<Rightarrow> nat \<Rightarrow> bool \<Rightarrow> alloc \<Rightarrow> ((string \<times> string) list option \<times> alloc) option"
where
  "print_value ops (Item t vs vi vd nm cs) depth fmt al =
     (let t8 = t AND 255 in
      if t8 = cJSON_NULL then put_text 5 ''null'' al
      else if t8 = cJSON_False then put_text 6 ''false'' al
      else if t8 = cJSON_True then put_text 5 ''true'' al
      else if t8 = cJSON_Number then print_number ops (Item t vs vi vd nm cs) al
      else if t8 = cJSON_String then print_string_ptr vs al
      else if t8 = cJSON_Array then print_array (print_elems ops cs (depth + 1) fmt) (cs = []) fmt al
      else if t8 = cJSON_Object then print_object (print_members ops cs (depth + 1) fmt) (cs = []) depth fmt al
      else Some (None, al))"
| "print_elems ops [] depth fmt al = Some (Some [], al)"
| "print_elems ops (c # cs) depth fmt al =
     cons_elem (print_value ops c depth fmt al) (print_elems ops cs depth fmt)"
| "print_members ops [] depth fmt al = Some (Some [], al)"
| "print_members ops (c # cs) depth fmt al =
     cons_member (print_string_ptr (jname c) al) (print_value ops c depth fmt) (print_members ops cs depth fmt)"

definition cJSON_Print :: "'d dops \<Rightarrow> 'd cJSON \<Rightarrow> alloc \<Rightarrow> printed" where
  "cJSON_Print ops item al = print_value ops item 0 True al"

definition cJSON_PrintUnformatted :: "'d dops \<Rightarrow> 'd cJSON \<Rightarrow> alloc \<Rightarrow> printed" where
  "cJSON_PrintUnformatted ops item al = print_value ops item 0 False al"

section \<open>The parser returns\<close>

declare cJSON_New_Item.simps [simp del]

lemma skip_le: "length (skip v) \<le> length v"
  by (simp add: skip_def length_dropWhile_le)

lemma starts_tl: "starts P v \<Longrightarrow> length (tl v) < length v"
  by (cases v) auto

lemma tl_le: "length (tl v) \<le> length v"
  by simp

lemma drop_while_le: "length (dropWhile P v) \<le> length v"
  by (rule length_dropWhile_le)

lemma num_int_le: "num_int s = (ds, r) \<Longrightarrow> length r \<le> length s"
  using drop_while_le[of is_digit s] drop_while_le[of is_digit "tl s"]
  by (auto simp: num_int_def Let_def split: if_splits)

lemma num_frac_le: "num_frac s = (ds, r) \<Longrightarrow> length r \<le> length s"
  using drop_while_le[of is_digit "tl s"] by (auto simp: num_frac_def split: if_splits)

lemma num_exp_le: "num_exp s = (neg, ds, r) \<Longrightarrow> length r \<le> length s"
  using drop_while_le[of is_digit "tl s"] drop_while_le[of is_digit "tl (tl s)"]
  by (auto simp: num_exp_def Let_def split: if_splits)

lemma parse_number_le:
  assumes "parse_number ops item v = POk c rest"
  shows "length rest \<le> length v"
proof -
  let ?s = "if starts (\<lambda>c. c = CHR ''-'') v then tl v else v"
  obtain ds1 s1 where 1: "num_int ?s = (ds1, s1)" by (cases "num_int ?s")
  obtain ds2 s2 where 2: "num_frac s1 = (ds2, s2)" by (cases "num_frac s1")
  obtain ng ds3 s3 where 3: "num_exp s2 = (ng, ds3, s3)" by (cases "num_exp s2")
  have "rest = s3"
    using assms unfolding parse_number_def Let_def 1 2 3 prod.case by (auto split: option.splits)
  moreover have "length ?s \<le> length v" by simp
  ultimately show ?thesis
    using num_int_le[OF 1] num_frac_le[OF 2] num_exp_le[OF 3] by (simp del: length_tl split: if_splits)
qed

lemma parse_number_fuel: "parse_number ops item v \<noteq> PFuel"
  unfolding parse_number_def Let_def by (simp split: prod.split option.split)

lemma unescape_le: "unescape cs = Some (w, rest) \<Longrightarrow> length rest \<le> length cs"
proof (induction cs arbitrary: w rest rule: unescape.induct)
  case (2 c cs)
  consider "c = DQUOTE" | "c \<noteq> DQUOTE" "c \<noteq> BSLASH" | e es where "c = BSLASH" "cs = e # es"
    using "2.prems" by (cases cs) (auto split: if_splits)
  then show ?case
  proof cases
    case 1
    then show ?thesis using "2.prems" by simp
  next
    case 2
    then obtain w' where "unescape cs = Some (w', rest)"
      using "2.prems" by (auto simp: bind_eq_Some_conv)
    with 2 show ?thesis using "2.IH"(1) by fastforce
  next
    case (3 e es)
    then have "c \<noteq> DQUOTE" by (simp add: char_names)
    with 3 "2.prems" consider w' where "e \<noteq> CHR ''u''" "unescape es = Some (w', rest)"
      | u r w' where "e = CHR ''u''" "unicode_escape es = Some (u, r)" "unescape r = Some (w', rest)"
      by (auto simp: bind_eq_Some_conv split: option.splits prod.splits if_splits)
    then show ?thesis
    proof cases
      case 1
      then show ?thesis using "2.IH"(3)[OF \<open>c \<noteq> DQUOTE\<close> _ 3(2) 1(1)] 3 by simp
    next
      case (2 u r)
      then show ?thesis
        using "2.IH"(2)[OF \<open>c \<noteq> DQUOTE\<close> _ 3(2) 2(1) 2(2) refl] 3 unicode_escape_shorter[OF 2(2)] by simp
    qed
  qed
qed simp

lemma parse_string_le: "parse_string item v al = (POk c rest, al') \<Longrightarrow> length rest \<le> length v"
  by (auto simp: parse_string_def split: list.splits if_splits option.splits prod.splits dest!: unescape_le)

lemma parse_string_fuel: "fst (parse_string item v al) \<noteq> PFuel"
  by (auto simp: parse_string_def split: list.splits option.splits prod.splits)

lemma parse_next_le:
  assumes "parse_next ops call one loop item v al = (POk c rest, al')"
    and "\<And>f i w a x r a'. call f i w a = (POk x r, a') \<Longrightarrow> length r \<le> length w"
  shows "length rest \<le> length v"
proof -
  from assms(1) obtain new c1 r1 a1 a2 where
    1: "call one new (skip v) a1 = (POk c1 r1, a2)"
    and 2: "call loop (set_children (children item @ [c1]) item) (skip r1) a2 = (POk c rest, al')"
    by (auto simp: parse_next_def split: prod.splits option.splits presult.splits)
  from assms(2)[OF 1] assms(2)[OF 2] show ?thesis
    using skip_le[of v] skip_le[of r1] by linarith
qed

lemma parse_call_le: "parse_call ops n f item v al = (POk c rest, al') \<Longrightarrow> length rest \<le> length v"
proof (induction n arbitrary: f item v al c rest al')
  case (Suc n)
  note IH = Suc.IH
  note next_le = parse_next_le[where call = "parse_call ops n", OF _ IH]
  note facts = skip_le[of "tl v"] starts_tl[of _ v] skip_le[of "tl (skip (tl v))"]
  show ?case
  proof (cases f)
    case PValue
    with Suc.prems show ?thesis
      by (auto simp: parse_body_def parse_value_def split: if_splits list.splits
          dest: parse_string_le parse_number_le IH)
  next
    case PArray
    with Suc.prems facts show ?thesis
      by (auto simp: parse_body_def parse_array_def Let_def split: if_splits dest!: next_le) 
  next
    case PElems
    with Suc.prems show ?thesis
      by (auto simp: parse_body_def parse_elems_def Let_def split: if_splits dest!: next_le)
  next
    case PObject
    with Suc.prems facts show ?thesis
      by (auto simp: parse_body_def parse_object_def Let_def split: if_splits dest!: next_le)
  next
    case PMember
    with Suc.prems obtain c1 r1 a1 where
      "parse_string item v al = (POk c1 r1, a1)"
      "parse_call ops n PValue (value_to_name c1) (skip (tl (skip r1))) a1 = (POk c rest, al')"
      by (auto simp: parse_body_def parse_member_def Let_def split: prod.splits presult.splits if_splits)
    with IH parse_string_le show ?thesis
      using skip_le[of "tl (skip r1)"] skip_le[of r1] by fastforce
  next
    case PMembers
    with Suc.prems show ?thesis
      by (auto simp: parse_body_def parse_members_def Let_def split: if_splits dest!: next_le)
  qed
qed simp

primrec rank :: "pfun \<Rightarrow> nat" where
  "rank PValue = 2" | "rank PArray = 1" | "rank PElems = 1" | "rank PObject = 1"
| "rank PMember = 1" | "rank PMembers = 1"

lemma rank_le: "rank f \<le> 2"
  by (cases f) auto

lemma parse_next_fuel:
  assumes "\<And>f i w a. length w \<le> length v \<Longrightarrow> fst (call f i w a) \<noteq> PFuel"
    and "\<And>f i w a x r a'. call f i w a = (POk x r, a') \<Longrightarrow> length r \<le> length w"
  shows "fst (parse_next ops call one loop item v al) \<noteq> PFuel"
proof (cases "cJSON_New_Item ops al")
  case (Pair new al1)
  show ?thesis
  proof (cases new)
    case (Some i)
    have 1: "fst (call one i (skip v) al1) \<noteq> PFuel" by (rule assms(1)[OF skip_le])
    have 2: "fst (call loop j (skip r) a) \<noteq> PFuel" if "call one i (skip v) al1 = (POk c r, a')" for c r a a' j
      using assms(2)[OF that] skip_le[of v] skip_le[of r] by (intro assms(1)) linarith
    show ?thesis
      using Some Pair 1 2 by (auto simp: parse_next_def split: prod.splits presult.splits)
  qed (simp add: Pair parse_next_def)
qed

lemma parse_call_fuel: "3 * length v + rank f < n \<Longrightarrow> fst (parse_call ops n f item v al) \<noteq> PFuel"
proof (induction n arbitrary: f item v al)
  case (Suc n)
  have IH: "fst (parse_call ops n g i w a) \<noteq> PFuel" if "length w < length v" for g i w a
    using that rank_le[of g] Suc.prems by (intro Suc.IH) linarith
  have next_ok: "fst (parse_next ops (parse_call ops n) one loop i w a) \<noteq> PFuel"
    if "length w < length v" for one loop i w a
    using that by (intro parse_next_fuel IH) (auto dest: parse_call_le)
  have tl1: "length (tl v) < length v \<and> length (skip (tl v)) < length v" if "starts P v" for P
    using starts_tl[OF that] skip_le[of "tl v"] by linarith
  show ?case
  proof (cases f)
    case PValue
    have "fst (parse_call ops n g item v al) \<noteq> PFuel" if "rank g = 1" for g
      using that Suc.prems PValue by (intro Suc.IH) simp
    with PValue show ?thesis
      by (auto simp: parse_body_def parse_value_def parse_string_fuel parse_number_fuel split: list.splits)
  next
    case PMember
    have "fst (parse_call ops n PValue i (skip (tl (skip r))) a) \<noteq> PFuel"
      if "parse_string item v al = (POk c r, a')" "starts P (skip r)" for c r a a' i P
      using parse_string_le[OF that(1)] starts_tl[OF that(2)] skip_le[of r] skip_le[of "tl (skip r)"]
      by (intro IH) linarith
    with PMember show ?thesis
      using parse_string_fuel[of item v al]
      by (auto simp: parse_body_def parse_member_def Let_def split: prod.splits presult.splits)
  qed (auto simp: parse_body_def parse_array_def parse_elems_def parse_object_def parse_members_def Let_def
         intro!: next_ok dest: tl1)
qed simp

lemma parse_fuel_enough: "fst (parse_call ops (parse_fuel value) PValue item (skip value) al) \<noteq> PFuel"
  using skip_le[of "value"] by (intro parse_call_fuel) (simp add: parse_fuel_def)

subsection \<open>More fuel changes nothing\<close>

lemma parse_next_mono:
  assumes "\<And>f i w a. fst (call f i w a) \<noteq> PFuel \<Longrightarrow> call' f i w a = call f i w a"
    and "fst (parse_next ops call one loop item v al) \<noteq> PFuel"
  shows "parse_next ops call' one loop item v al = parse_next ops call one loop item v al"
proof -
  obtain new al1 where N: "cJSON_New_Item ops al = (new, al1)" by (cases "cJSON_New_Item ops al")
  show ?thesis
  proof (cases new)
    case (Some i)
    obtain r1 a2 where C: "call one i (skip v) al1 = (r1, a2)" by (cases "call one i (skip v) al1")
    with assms(2) N Some have ne: "r1 \<noteq> PFuel" by (auto simp: parse_next_def)
    with assms(1)[of one i "skip v" al1] C have C': "call' one i (skip v) al1 = (r1, a2)" by simp
    show ?thesis
    proof (cases r1)
      case (POk c rest)
      with assms(2) N Some C have "fst (call loop (set_children (children item @ [c]) item) (skip rest) a2) \<noteq> PFuel"
        by (simp add: parse_next_def)
      from assms(1)[OF this] N Some C C' POk show ?thesis by (simp add: parse_next_def)
    qed (use N Some C C' in \<open>auto simp: parse_next_def\<close>)
  qed (simp add: N parse_next_def)
qed

lemma parse_body_mono:
  assumes call: "\<And>f i w a. fst (call f i w a) \<noteq> PFuel \<Longrightarrow> call' f i w a = call f i w a"
    and prem: "fst (parse_body ops call f item v al) \<noteq> PFuel"
  shows "parse_body ops call' f item v al = parse_body ops call f item v al"
proof -
  note mono = parse_next_mono[where call = call and call' = call', OF call]
  note defs = parse_body_def parse_value_def parse_array_def parse_elems_def parse_object_def
    parse_member_def parse_members_def Let_def
  show ?thesis
  proof (cases f)
    case PMember
    with prem call show ?thesis
      by (auto simp: defs split: prod.splits presult.splits)
  qed (use prem call mono in \<open>auto simp: defs split: list.splits if_splits\<close>)
qed

lemma parse_call_Suc:
  "fst (parse_call ops n f item v al) \<noteq> PFuel \<Longrightarrow> parse_call ops (Suc n) f item v al = parse_call ops n f item v al"
proof (induction n arbitrary: f item v al)
  case (Suc n)
  show ?case
    unfolding parse_call.simps(2)[of ops "Suc n"] parse_call.simps(2)[of ops n]
    by (rule parse_body_mono) (use Suc in \<open>auto simp del: parse_call.simps(2) simp: parse_call.simps(2)[symmetric]\<close>)
qed simp

lemma parse_call_mono:
  assumes "fst (parse_call ops n f item v al) \<noteq> PFuel" and "n \<le> m"
  shows "parse_call ops m f item v al = parse_call ops n f item v al"
  using assms(2)
proof (induction m rule: dec_induct)
  case (step m)
  then show ?case using assms(1) parse_call_Suc[of ops m f item v al] by simp
qed simp

lemma parse_call_enough:
  assumes "parse_call ops n PValue item (skip v) al = (POk c rest, al')"
  shows "parse_call ops (parse_fuel v) PValue item (skip v) al = (POk c rest, al')"
proof -
  let ?m = "max n (parse_fuel v)"
  have "parse_call ops ?m PValue item (skip v) al = (POk c rest, al')"
    using assms by (subst parse_call_mono[of _ n]) auto
  moreover have "parse_call ops ?m PValue item (skip v) al = parse_call ops (parse_fuel v) PValue item (skip v) al"
    by (rule parse_call_mono[OF parse_fuel_enough]) simp
  ultimately show ?thesis by simp
qed

section \<open>What printing produces\<close>

definition quoted :: "string \<Rightarrow> string" where
  "quoted s = DQUOTE # concat (map escape_char s) @ [DQUOTE]"

definition num_text :: "'d dops \<Rightarrow> int \<Rightarrow> 'd \<Rightarrow> string" where
  "num_text ops vi d =
     (if deq ops d (dlit ops 0) then ''0''
      else if dle ops (dfabs ops (dsub ops (dlit ops vi) d)) (DBL_EPSILON ops) \<and>
              dle ops d (dlit ops INT_MAX) \<and> dle ops (dlit ops INT_MIN) d
      then int_dec vi
      else if dle ops (dfabs ops (dsub ops (dfloor ops d) d)) (DBL_EPSILON ops) \<and> dlt ops (dfabs ops d) (d1e60 ops)
      then fmt_0f ops d
      else if dlt ops (dfabs ops d) (d1em6 ops) \<or> dlt ops (d1e9 ops) (dfabs ops d) then fmt_e ops d
      else fmt_f ops d)"

text \<open>The text of an item: the specification of \<^verbatim>\<open>print_value\<close>.\<close>

fun json_text :: "'d dops \<Rightarrow> bool \<Rightarrow> nat \<Rightarrow> 'd cJSON \<Rightarrow> string" where
  "json_text ops fmt depth (Item t vs vi vd nm cs) =
     (let t8 = t AND 255 in
      if t8 = cJSON_NULL then ''null''
      else if t8 = cJSON_False then ''false''
      else if t8 = cJSON_True then ''true''
      else if t8 = cJSON_Number then num_text ops vi vd
      else if t8 = cJSON_String then quoted (the vs)
      else if t8 = cJSON_Array then ''['' @ join_array fmt (map (json_text ops fmt (depth + 1)) cs) @ '']''
      else if cs = [] then ''{'' @ (if fmt then [LF] @ tabs (depth - 1) else []) @ ''}''
      else ''{'' @ (if fmt then [LF] else []) @
           join_object fmt (depth + 1) (map (\<lambda>c. (quoted (the (jname c)), json_text ops fmt (depth + 1) c)) cs) @
           (if fmt then tabs depth else []) @ ''}'')"

text \<open>Items whose printing neither follows a NULL string nor meets an unknown type.\<close>

fun printable :: "'d cJSON \<Rightarrow> bool" where
  "printable (Item t vs vi vd nm cs) \<longleftrightarrow>
     0 \<le> t AND 255 \<and> t AND 255 \<le> 6 \<and>
     (t AND 255 = cJSON_String \<longrightarrow> vs \<noteq> None) \<and>
     (t AND 255 = cJSON_Object \<longrightarrow> (\<forall>c \<in> set cs. jname c \<noteq> None)) \<and>
     (\<forall>c \<in> set cs. printable c)"

text \<open>
  What the three \<^verbatim>\<open>sprintf\<close> formats promise for the values the code gives them: a number below
  \<^verbatim>\<open>1e60\<close> has at most 61 characters with \<^verbatim>\<open>%.0f\<close>, any number fits with \<^verbatim>\<open>%e\<close>, and a number
  of at most \<^verbatim>\<open>1e9\<close> fits with \<^verbatim>\<open>%f\<close>.
\<close>

definition fmt_bounded :: "'d dops \<Rightarrow> bool" where
  "fmt_bounded ops \<longleftrightarrow>
     (\<forall>d. (dlt ops (dfabs ops d) (d1e60 ops) \<longrightarrow> length (fmt_0f ops d) \<le> 63) \<and>
          length (fmt_e ops d) \<le> 63 \<and>
          (\<not> dlt ops (d1e9 ops) (dfabs ops d) \<longrightarrow> length (fmt_f ops d) \<le> 63))"

text \<open>Printing ends with this text, or with NULL where an allocation failed.\<close>

definition prints :: "alloc \<Rightarrow> ('a option \<times> alloc) option \<Rightarrow> 'a \<Rightarrow> bool" where
  "prints al r x \<longleftrightarrow> (\<exists>y al'. r = Some (y, al') \<and> (y = Some x \<or> y = None) \<and> (al = [] \<longrightarrow> y = Some x \<and> al' = []))"

lemma put_text_prints: "length w + 1 \<le> sz \<Longrightarrow> prints al (put_text sz w al) w"
  by (cases al) (auto simp: put_text_def prints_def)

lemma nat_dec_length: "n < 10 ^ Suc k \<Longrightarrow> length (nat_dec n) \<le> Suc k"
proof (induction k arbitrary: n)
  case (Suc k)
  then have "n div 10 < 10 ^ Suc k" by auto
  from Suc.IH[OF this] show ?case by (subst nat_dec.simps) simp
qed (simp add: nat_dec.simps)

lemma int_dec_length:
  assumes "INT_MIN \<le> i" "i \<le> INT_MAX"
  shows "length (int_dec i) \<le> 11"
proof -
  have "nat (- i) < 10 ^ Suc 9" "nat i < 10 ^ Suc 9"
    using assms by (auto simp: INT_MIN_def INT_MAX_def)
  then show ?thesis
    using nat_dec_length[of "nat (- i)" 9] nat_dec_length[of "nat i" 9] by (auto simp: int_dec_def)
qed

lemma print_number_prints:
  assumes "fmt_bounded ops" "INT_MIN \<le> valueint item" "valueint item \<le> INT_MAX"
  shows "prints al (print_number ops item al) (num_text ops (valueint item) (valuedouble item))"
  using int_dec_length[OF assms(2,3)] assms(1)
  by (auto simp: print_number_def num_text_def Let_def fmt_bounded_def intro!: put_text_prints)

lemma escape_char_length: "length (escape_char c) \<le> escape_len c"
  by (auto simp: escape_char_def escape_len_def needs_escape_def hex4_def char_names)

lemma no_escape: "\<not> list_ex needs_escape s \<Longrightarrow> concat (map escape_char s) = s"
  by (induction s) (auto simp: escape_char_def)

lemma concat_escape_length: "length (concat (map escape_char s)) \<le> sum_list (map escape_len s)"
  using escape_char_length by (induction s) (auto simp: add_mono)

lemma print_string_prints: "prints al (print_string_ptr (Some s) al) (quoted s)"
  using concat_escape_length[of s] no_escape[of s]
  by (auto simp: print_string_ptr_def quoted_def intro!: put_text_prints)

lemma join_array_length:
  "es \<noteq> [] \<Longrightarrow> length (join_array fmt es) \<le> sum_list (map (\<lambda>e. length e + 2 + (if fmt then 1 else 0)) es)"
  by (induction fmt es rule: join_array.induct) auto

lemma join_object_length:
  "length (join_object fmt depth es) \<le>
   sum_list (map (\<lambda>(k, v). length v + length k + 2 + (if fmt then 2 + depth else 0)) es)"
  by (induction es) (auto simp: tabs_def)

lemma print_array_prints:
  assumes "\<And>al. prints al (elems al) es" and "none \<longleftrightarrow> es = []"
  shows "prints al (print_array elems none fmt al) (''['' @ join_array fmt es @ '']'')"
proof (cases none)
  case True
  with assms(2) show ?thesis by (simp add: print_array_def put_text_prints)
next
  case False
  with assms(2) have ne: "es \<noteq> []" by simp
  have size: "length (''['' @ join_array fmt es @ '']'') + 1 \<le> array_size fmt es"
    using join_array_length[OF ne, of fmt] by (simp add: array_size_def)
  obtain ok al1 where m: "malloc al = (ok, al1)" by (cases "malloc al")
  obtain y al2 where e: "elems al1 = Some (y, al2)" "y = Some es \<or> y = None" "al1 = [] \<longrightarrow> y = Some es \<and> al2 = []"
    using assms(1)[of al1] by (auto simp: prints_def)
  have p: "prints al2 (put_text (array_size fmt es) (''['' @ join_array fmt es @ '']'') al2) (''['' @ join_array fmt es @ '']'')"
    by (rule put_text_prints[OF size])
  have nil: "al = [] \<Longrightarrow> ok \<and> al1 = []" using m by auto
  show ?thesis
    using False m e p nil unfolding print_array_def prints_def by (cases y) auto
qed

lemma print_object_prints:
  assumes "\<And>al. prints al (members al) es" and "\<not> none"
  shows "prints al (print_object members none depth fmt al)
    (''{'' @ (if fmt then [LF] else []) @ join_object fmt (depth + 1) es @ (if fmt then tabs depth else []) @ ''}'')"
    (is "prints al _ ?w")
proof -
  have size: "length ?w + 1 \<le> object_size fmt (depth + 1) es"
    using join_object_length[of fmt "depth + 1" es] by (cases fmt) (simp_all add: object_size_def tabs_def)
  obtain ok1 al1 where m1: "malloc al = (ok1, al1)" by (cases "malloc al")
  obtain ok2 al2 where m2: "malloc al1 = (ok2, al2)" by (cases "malloc al1")
  obtain y al3 where e: "members al2 = Some (y, al3)" "y = Some es \<or> y = None" "al2 = [] \<longrightarrow> y = Some es \<and> al3 = []"
    using assms(1)[of al2] by (auto simp: prints_def)
  have p: "prints al3 (put_text (object_size fmt (depth + 1) es) ?w al3) ?w"
    by (rule put_text_prints[OF size])
  have nil: "al = [] \<Longrightarrow> ok1 \<and> ok2 \<and> al2 = []" using m1 m2 by auto
  show ?thesis
    using assms(2) m1 m2 e p nil unfolding print_object_def prints_def by (cases y) auto
qed

lemma cons_elem_prints:
  assumes "prints al first e" and "\<And>al. prints al (rest al) es"
  shows "prints al (cons_elem first rest) (e # es)"
proof -
  obtain y al1 where "first = Some (y, al1)" "y = Some e \<or> y = None" "al = [] \<longrightarrow> y = Some e \<and> al1 = []"
    using assms(1) by (auto simp: prints_def)
  with assms(2)[of al1] show ?thesis by (cases y) (auto simp: cons_elem_def prints_def)
qed

lemma cons_member_prints:
  assumes "prints al name k" and "\<And>al. prints al (val al) v" and "\<And>al. prints al (rest al) es"
  shows "prints al (cons_member name val rest) ((k, v) # es)"
proof -
  obtain y1 al1 where 1: "name = Some (y1, al1)" "y1 = Some k \<or> y1 = None" "al = [] \<longrightarrow> y1 = Some k \<and> al1 = []"
    using assms(1) by (auto simp: prints_def)
  obtain y2 al2 where 2: "val al1 = Some (y2, al2)" "y2 = Some v \<or> y2 = None" "al1 = [] \<longrightarrow> y2 = Some v \<and> al2 = []"
    using assms(2)[of al1] by (auto simp: prints_def)
  obtain y3 al3 where 3: "rest al2 = Some (y3, al3)" "y3 = Some es \<or> y3 = None" "al2 = [] \<longrightarrow> y3 = Some es \<and> al3 = []"
    using assms(3)[of al2] by (auto simp: prints_def)
  from 1(2) 2(2) 3(2) show ?thesis
    by (elim disjE) (use 1 2 3 in \<open>auto simp: cons_member_def prints_def\<close>)
qed

lemma type_cases:
  assumes "0 \<le> k" "k \<le> 6"
  obtains (null) "k = cJSON_NULL" | (false) "k = cJSON_False" | (true) "k = cJSON_True" | (number) "k = cJSON_Number"
    | (string) "k = cJSON_String" | (array) "k = cJSON_Array" | (object) "k = cJSON_Object"
proof -
  have "k = 0 \<or> k = 1 \<or> k = 2 \<or> k = 3 \<or> k = 4 \<or> k = 5 \<or> k = 6" using assms by presburger
  with that show thesis unfolding cJSON_types by blast
qed

text \<open>All integer values of an item and the items below it are \<^verbatim>\<open>int\<close>s.\<close>

fun int_values :: "'d cJSON \<Rightarrow> bool" where
  "int_values (Item t vs vi vd nm cs) \<longleftrightarrow> INT_MIN \<le> vi \<and> vi \<le> INT_MAX \<and> (\<forall>c \<in> set cs. int_values c)"

lemma print_value_prints:
  fixes ops :: "'d dops"
  shows
  "fmt_bounded ops \<Longrightarrow> printable item \<Longrightarrow> int_values item \<Longrightarrow> prints al (print_value ops item depth fmt al) (json_text ops fmt depth item)"
  "fmt_bounded ops \<Longrightarrow> \<forall>c \<in> set cs. printable c \<and> int_values c \<Longrightarrow>
     prints al (print_elems ops cs depth fmt al) (map (json_text ops fmt depth) cs)"
  "fmt_bounded ops \<Longrightarrow> \<forall>c \<in> set cs. printable c \<and> int_values c \<and> jname c \<noteq> None \<Longrightarrow>
     prints al (print_members ops cs depth fmt al) (map (\<lambda>c. (quoted (the (jname c)), json_text ops fmt depth c)) cs)"
proof (induction ops item depth fmt al and ops cs depth fmt al and ops cs depth fmt al
       rule: print_value_print_elems_print_members.induct)
  case (1 ops t vs vi vd nm cs depth fmt al)
  let ?item = "Item t vs vi vd nm cs"
  note IH = "1.IH" and prems = "1.prems"
  have "0 \<le> t AND 255" "t AND 255 \<le> 6" using prems by auto
  then show ?case
  proof (cases rule: type_cases)
    case number
    then show ?thesis using print_number_prints[of ops ?item al] prems by (auto simp: cJSON_types)
  next
    case string
    then show ?thesis using prems print_string_prints by (auto simp: cJSON_types)
  next
    case array
    have "prints al (print_elems ops cs (depth + 1) fmt al) (map (json_text ops fmt (depth + 1)) cs)" for al
      using array prems by (intro IH) (auto simp: cJSON_types)
    from print_array_prints[OF this, of "cs = []"] array show ?thesis by (simp add: cJSON_types)
  next
    case object
    show ?thesis
    proof (cases "cs = []")
      case True
      with object show ?thesis
        by (auto simp: cJSON_types print_object_def tabs_def intro!: put_text_prints)
    next
      case False
      have "prints al (print_members ops cs (depth + 1) fmt al)
        (map (\<lambda>c. (quoted (the (jname c)), json_text ops fmt (depth + 1) c)) cs)" for al
        using object prems by (intro IH) (auto simp: cJSON_types)
      from print_object_prints[OF this, of False] object False show ?thesis by (simp add: cJSON_types)
    qed
  qed (auto simp: cJSON_types intro!: put_text_prints)
next
  case (2 ops depth fmt al)
  then show ?case by (simp add: prints_def)
next
  case (3 ops c cs depth fmt al)
  then show ?case by (auto intro!: cons_elem_prints)
next
  case (4 ops depth fmt al)
  then show ?case by (simp add: prints_def)
next
  case (5 ops c cs depth fmt al)
  then show ?case by (auto intro!: cons_member_prints print_string_prints)
qed

end
