(* ===== verification/CJsonRoundtrip.thy ===== *)
theory CJsonRoundtrip
  imports CJson
begin

text \<open>
  What \<^verbatim>\<open>cJSON_Parse\<close> makes of the texts of \<^verbatim>\<open>cJSON_Print\<close> and \<^verbatim>\<open>cJSON_PrintUnformatted\<close>:
  strings, numbers, arrays and objects are read back one by one, each as a rule of the
  relation \<^verbatim>\<open>parses\<close>, and then the whole text. The properties of the parser and of the
  printer follow.
\<close>

section \<open>Reading back what was printed\<close>

subsection \<open>Strings\<close>

lemma utf8_ascii: "uc < 0x80 \<Longrightarrow> utf8 uc = [chr_of uc]"
  by (simp add: utf8_def)

lemma of_char_digit16: "d < 16 \<Longrightarrow> (of_char (digit_char d) :: nat) = (if d < 10 then 48 + d else 87 + d)"
  by (simp add: digit_char_def)

lemma hex_val_digit: "d < 16 \<Longrightarrow> hex_val (digit_char d) = Some (of_nat d)"
  by (simp add: hex_val_def of_char_digit16)

lemma digit_char_plain: "d < 16 \<Longrightarrow> digit_char d \<noteq> DQUOTE \<and> digit_char d \<noteq> BSLASH"
  using of_char_digit16[of d] by (auto simp: char_names split: if_splits)

lemma of_char_pos: "c \<noteq> NUL \<Longrightarrow> (of_char c :: nat) \<noteq> 0"
proof
  assume c: "c \<noteq> NUL" and z: "(of_char c :: nat) = 0"
  have "c = char_of (of_char c :: nat)" by simp
  also have "\<dots> = NUL" unfolding z NUL_def by code_simp
  finally show False using c by simp
qed

lemma parse_hex4_hex4:
  "parse_hex4 (hex4 c) = of_nat (of_char c)"
proof -
  let ?n = "of_char c :: nat"
  have lt: "?n < 256" by (rule nat_of_char_less_256) 
  have z: "hex_val (CHR ''0'') = Some 0" by (simp add: hex_val_def)
  have "of_nat ?n = (of_nat (16 * (?n div 16) + ?n mod 16) :: u32)" by simp
  also have "\<dots> = push_bit 4 (of_nat (?n div 16)) + of_nat (?n mod 16)"
    by (simp only: of_nat_add of_nat_mult push_bit_eq_mult) simp
  finally show ?thesis
    using lt hex_val_digit[of "?n div 16"] by (simp add: hex4_def hex_val_digit z div_less_iff_less_mult)
qed

lemma hex4_length [simp]: "length (hex4 c) = 4"
  by (simp add: hex4_def)

lemma hex4_plain: "DQUOTE \<notin> set (hex4 c)" "BSLASH \<notin> set (hex4 c)"
proof -
  have "of_char c div 16 < (16 :: nat)" using nat_of_char_less_256[of c] by (simp add: div_less_iff_less_mult)
  then show "DQUOTE \<notin> set (hex4 c)" "BSLASH \<notin> set (hex4 c)"
    using digit_char_plain[of "of_char c div 16"] digit_char_plain[of "of_char c mod 16"]
    by (auto simp: hex4_def) (auto simp: char_names)
qed

lemma parse_hex4_append: "length h = 4 \<Longrightarrow> parse_hex4 (h @ r) = parse_hex4 h"
  by (auto simp: numeral_eq_Suc length_Suc_conv)

lemma unescape_control:
  assumes "(of_char c :: nat) < 32" "c \<noteq> NUL"
  shows "unicode_escape (hex4 c @ r) = Some ([c], r)"
proof -
  let ?n = "of_char c :: nat" and ?uc = "of_nat (of_char c) :: u32"
  have u: "unat ?uc = ?n" using assms(1) by (simp add: unat_of_nat)
  have "parse_hex4 (hex4 c @ r) = ?uc" by (simp add: parse_hex4_append parse_hex4_hex4)
  moreover have "?uc \<noteq> 0" using of_char_pos[OF assms(2)] u by (metis unat_0)
  moreover have "\<not> 0xDC00 \<le> ?uc" "\<not> 0xD800 \<le> ?uc" "?uc < 0x80"
    using assms(1) u by (simp_all add: word_less_nat_alt word_le_nat_alt)
  moreover have "chr_of ?uc = c"
    using assms(1) u by (simp add: chr_of_def char_of_byte_def ucast_eq unsigned_of_nat take_bit_eq_mod unat_of_nat)
  ultimately show ?thesis by (simp add: unicode_escape_def utf8_ascii)
qed

lemma simple_escape_simps [simp]:
  "simple_escape BSLASH = BSLASH" "simple_escape DQUOTE = DQUOTE"
  by (simp_all add: simple_escape_def char_names)

lemma unescape_char:
  assumes "c \<noteq> NUL"
  shows "unescape (escape_char c @ cs) = do { (w, r) \<leftarrow> unescape cs; Some (c # w, r) }"
proof (cases "(of_char c :: nat) < 32")
  case True
  then show ?thesis
    using assms unescape_control[OF True assms, of cs]
    by (auto simp: escape_char_def needs_escape_def simple_escape_def char_names)
next
  case False
  then show ?thesis
    by (auto simp: escape_char_def needs_escape_def simple_escape_def char_names)
qed

lemma unescape_escape:
  "NUL \<notin> set s \<Longrightarrow> unescape (concat (map escape_char s) @ DQUOTE # rest) = Some (s, rest)"
  by (induction s) (auto simp: unescape_char simp del: unescape.simps(2), simp)

lemma scan_len_plain: "DQUOTE \<notin> set w \<Longrightarrow> BSLASH \<notin> set w \<Longrightarrow> scan_len (w @ cs) n = scan_len cs (n + length w)"
  by (induction w arbitrary: n) auto

lemma scan_len_char: "\<exists>k \<ge> 1. \<forall>cs n. scan_len (escape_char c @ cs) n = scan_len cs (n + k)"
proof (cases "needs_escape c \<and> c \<notin> {BSLASH, DQUOTE, CHR 0x08, CHR 0x0C, CHR 0x0A, CHR 0x0D, CHR 0x09}")
  case True
  have "\<forall>cs n. scan_len (escape_char c @ cs) n = scan_len cs (n + 5)"
    using True scan_len_plain[OF hex4_plain] by (auto simp: escape_char_def char_names ac_simps)
  then show ?thesis by (intro exI[of _ 5]) simp
next
  case False
  then have "\<forall>cs n. scan_len (escape_char c @ cs) n = scan_len cs (n + 1)"
    by (auto simp: escape_char_def needs_escape_def char_names)
  then show ?thesis by (intro exI[of _ 1]) simp
qed

lemma scan_len_escape:
  "\<exists>m \<ge> n + length s. scan_len (concat (map escape_char s) @ DQUOTE # rest) n = Some m"
proof (induction s arbitrary: n)
  case (Cons c s)
  obtain k where k: "k \<ge> 1" "\<And>cs n. scan_len (escape_char c @ cs) n = scan_len cs (n + k)"
    using scan_len_char[of c] by auto
  with Cons.IH[of "n + k"] show ?case by (auto intro: le_trans)
qed simp

lemma parse_string_quoted:
  assumes "NUL \<notin> set s"
  shows "parse_string item (quoted s @ rest) [] =
    (POk (Item cJSON_String (Some s) (valueint item) (valuedouble item) (jname item) (children item)) rest, [])"
proof -
  obtain m where "length s \<le> m" "scan_len (concat (map escape_char s) @ DQUOTE # rest) 0 = Some m"
    using scan_len_escape[of 0 s rest] by auto
  then show ?thesis
    using unescape_escape[OF assms, of rest] by (simp add: parse_string_def quoted_def)
qed

subsection \<open>Numbers\<close>

text \<open>
  What the code relies on of \<^verbatim>\<open>double\<close> arithmetic: it is exact on the integers up to
  \<^verbatim>\<open>2^53\<close> (a zero product excepted when a factor is negative: it is the negative zero).
\<close>

definition exact_ints :: "'d dops \<Rightarrow> bool" where
  "exact_ints ops \<longleftrightarrow>
     (\<forall>a b. \<bar>a\<bar> \<le> 2 ^ 53 \<and> \<bar>b\<bar> \<le> 2 ^ 53 \<longrightarrow>
        (\<bar>a + b\<bar> \<le> 2 ^ 53 \<longrightarrow> dadd ops (dlit ops a) (dlit ops b) = dlit ops (a + b)) \<and>
        (\<bar>a * b\<bar> \<le> 2 ^ 53 \<and> (a * b = 0 \<longrightarrow> 0 \<le> a \<and> 0 \<le> b) \<longrightarrow> dmul ops (dlit ops a) (dlit ops b) = dlit ops (a * b)) \<and>
        deq ops (dlit ops a) (dlit ops b) = (a = b) \<and>
        dle ops (dlit ops a) (dlit ops b) = (a \<le> b) \<and>
        dle ops (dfabs ops (dsub ops (dlit ops a) (dlit ops a))) (DBL_EPSILON ops)) \<and>
     dpow10 ops (dlit ops 0) = dlit ops 1 \<and>
     (\<forall>i. INT_MIN \<le> i \<and> i \<le> INT_MAX \<longrightarrow> dint ops (dlit ops i) = i)"

lemma exact_intsD:
  assumes "exact_ints ops"
  shows exact_add: "\<bar>a\<bar> \<le> 2 ^ 53 \<Longrightarrow> \<bar>b\<bar> \<le> 2 ^ 53 \<Longrightarrow> \<bar>a + b\<bar> \<le> 2 ^ 53 \<Longrightarrow> dadd ops (dlit ops a) (dlit ops b) = dlit ops (a + b)"
    and exact_mul: "\<bar>a\<bar> \<le> 2 ^ 53 \<Longrightarrow> \<bar>b\<bar> \<le> 2 ^ 53 \<Longrightarrow> \<bar>a * b\<bar> \<le> 2 ^ 53 \<Longrightarrow> a * b = 0 \<longrightarrow> 0 \<le> a \<and> 0 \<le> b \<Longrightarrow>
      dmul ops (dlit ops a) (dlit ops b) = dlit ops (a * b)"
    and exact_eq: "\<bar>a\<bar> \<le> 2 ^ 53 \<Longrightarrow> \<bar>b\<bar> \<le> 2 ^ 53 \<Longrightarrow> deq ops (dlit ops a) (dlit ops b) = (a = b)"
    and exact_le: "\<bar>a\<bar> \<le> 2 ^ 53 \<Longrightarrow> \<bar>b\<bar> \<le> 2 ^ 53 \<Longrightarrow> dle ops (dlit ops a) (dlit ops b) = (a \<le> b)"
    and exact_sub: "\<bar>a\<bar> \<le> 2 ^ 53 \<Longrightarrow> dle ops (dfabs ops (dsub ops (dlit ops a) (dlit ops a))) (DBL_EPSILON ops)"
    and exact_pow: "dpow10 ops (dlit ops 0) = dlit ops 1"
    and exact_int: "INT_MIN \<le> i \<Longrightarrow> i \<le> INT_MAX \<Longrightarrow> dint ops (dlit ops i) = i"
  using assms unfolding exact_ints_def by blast+

lemma nat_dec_0 [simp]: "nat_dec 0 = ''0''"
  by code_simp

lemma num_text_int:
  assumes "exact_ints ops" "INT_MIN \<le> i" "i \<le> INT_MAX"
  shows "num_text ops i (dlit ops i) = int_dec i"
proof -
  have "\<bar>i\<bar> \<le> 2 ^ 53" "\<bar>INT_MAX\<bar> \<le> 2 ^ 53" "\<bar>INT_MIN\<bar> \<le> 2 ^ 53" "\<bar>0 :: int\<bar> \<le> 2 ^ 53"
    using assms(2,3) by (auto simp: INT_MIN_def INT_MAX_def)
  then show ?thesis
    using assms(2,3)
    by (simp add: num_text_def exact_eq[OF assms(1)] exact_le[OF assms(1)] exact_sub[OF assms(1)])
       (simp add: int_dec_def)
qed

lemma is_digit_digit_char: "d < 10 \<Longrightarrow> is_digit (digit_char d)"
  by (simp add: is_digit_def of_char_digit)

lemma nat_dec_is_digit: "c \<in> set (nat_dec n) \<Longrightarrow> is_digit c"
proof (induction n rule: nat_dec.induct)
  case (1 n)
  then show ?case
    by (subst (asm) (2) nat_dec.simps) (auto simp: is_digit_digit_char split: if_splits)
qed

lemma accum_digit:
  assumes "exact_ints ops" "d < 10" "int m * 10 + int d \<le> 2 ^ 53"
  shows "accum ops (dlit ops (int m)) (digit_char d) = dlit ops (int m * 10 + int d)"
  using assms(2,3) exact_mul[OF assms(1), of "int m" 10] exact_add[OF assms(1), of "int m * 10" "int d"]
  by (simp add: accum_def digit_of_def of_char_digit)

lemma fold_accum_nat_dec:
  assumes "exact_ints ops" "int n \<le> 2 ^ 53"
  shows "fold (\<lambda>c x. accum ops x c) (nat_dec n) (dlit ops 0) = dlit ops (int n)"
  using assms(2)
proof (induction n rule: nat_dec.induct)
  case (1 n)
  show ?case
  proof (cases "n < 10")
    case True
    then show ?thesis
      using accum_digit[OF assms(1) True, of 0] by (subst nat_dec.simps) simp
  next
    case False
    have "int (n div 10) * 10 + int (n mod 10) = int n" by presburger
    then show ?thesis
      using False 1 accum_digit[OF assms(1), of "n mod 10" "n div 10"] by (subst nat_dec.simps) simp
  qed
qed

text \<open>The characters that may follow a number without being taken into it.\<close>

definition ends_number :: "string \<Rightarrow> bool" where
  "ends_number r \<longleftrightarrow> \<not> starts (\<lambda>c. is_digit c \<or> c = CHR ''.'' \<or> c = CHR ''e'' \<or> c = CHR ''E'') r"

lemma ends_numberD:
  assumes "ends_number r"
  shows "takeWhile is_digit r = []" "dropWhile is_digit r = r" "num_frac r = ([], r)" "num_exp r = (False, [], r)"
  using assms by (cases r; auto simp: ends_number_def num_frac_def num_exp_def)+

lemma num_int_nat_dec:
  assumes "ends_number r"
  shows "num_int (nat_dec n @ r) = (if n = 0 then [] else nat_dec n, r)"
proof (cases "n = 0")
  case True
  then show ?thesis
    using assms by (cases r) (auto simp: num_int_def ends_number_def)
next
  case False
  then obtain d where d: "0 < d" "d < 10" "hd (nat_dec n) = digit_char d" using nat_dec_hd by blast
  then obtain ds where ds: "nat_dec n = digit_char d # ds" using nat_dec_nonempty by (cases "nat_dec n") auto
  have "digit_char d \<noteq> CHR ''0''" using d(1) of_char_digit[OF d(2)] by auto
  moreover have "takeWhile is_digit (nat_dec n @ r) = nat_dec n" "dropWhile is_digit (nat_dec n @ r) = r"
    using nat_dec_is_digit ends_numberD[OF assms] by (auto simp: takeWhile_append2 dropWhile_append2)
  ultimately show ?thesis
    using False d(2) by (simp add: num_int_def ds is_digit_digit_char Let_def)
qed

lemma parse_number_int:
  assumes "exact_ints ops" "INT_MIN \<le> i" "i \<le> INT_MAX" "ends_number r"
  shows "parse_number ops item (int_dec i @ r) =
    POk (Item cJSON_Number (valuestring item) i (dlit ops i) (jname item) (children item)) r"
proof -
  let ?m = "nat \<bar>i\<bar>" and ?s = "if i < 0 then -1 else 1 :: int"
  have m: "int ?m \<le> 2 ^ 53" using assms(2,3) by (auto simp: INT_MIN_def INT_MAX_def)
  have i: "i = ?s * int ?m" by simp
  have "?s * int ?m = 0 \<longrightarrow> 0 \<le> ?s \<and> 0 \<le> int ?m" by auto
  then have mul: "dmul ops (dlit ops ?s) (dlit ops (int ?m)) = dlit ops i"
    using m exact_mul[OF assms(1), of ?s "int ?m"] i by (auto simp: abs_mult)
  have one: "dmul ops (dlit ops i) (dlit ops 1) = dlit ops i"
    using m exact_mul[OF assms(1), of i 1] by auto
  have dec: "int_dec i = (if i < 0 then CHR ''-'' # nat_dec ?m else nat_dec ?m)"
    by (simp add: int_dec_def)
  obtain c cs where c: "nat_dec ?m = c # cs" "is_digit c"
    using nat_dec_nonempty nat_dec_is_digit by (metis list.exhaust list.set_intros(1))
  then have "c \<noteq> CHR ''-''" by (auto simp: is_digit_def)
  have fold: "fold (\<lambda>c x. accum ops x c) (if ?m = 0 then [] else nat_dec ?m) (dlit ops 0) = dlit ops (int ?m)"
    using fold_accum_nat_dec[OF assms(1) m] by auto
  have neg: "starts (\<lambda>c. c = CHR ''-'') (int_dec i @ r) \<longleftrightarrow> i < 0"
    "(if i < 0 then tl (int_dec i @ r) else int_dec i @ r) = nat_dec ?m @ r"
    using c(1) \<open>c \<noteq> CHR ''-''\<close> by (auto simp: dec)
  have pow: "dpow10 ops (dadd ops (dlit ops 0) (dlit ops 0)) = dlit ops 1"
    using exact_add[OF assms(1), of 0 0] exact_pow[OF assms(1)] by simp
  show ?thesis
    using fold mul one pow exact_int[OF assms(1-3)]
    by (simp add: parse_number_def neg num_int_nat_dec[OF assms(4)] ends_numberD[OF assms(4)])
qed

subsection \<open>Values\<close>

definition parses :: "'d dops \<Rightarrow> pfun \<Rightarrow> 'd cJSON \<Rightarrow> string \<Rightarrow> 'd cJSON \<Rightarrow> string \<Rightarrow> bool" where
  "parses ops f item v c rest \<longleftrightarrow> (\<exists>n. parse_call ops n f item v [] = (POk c rest, []))"

lemma parsesI: "parse_call ops n f item v [] = (POk c rest, []) \<Longrightarrow> parses ops f item v c rest"
  unfolding parses_def by blast

lemma parses_mono:
  assumes "parse_call ops n f item v [] = (POk c rest, [])" "n \<le> m"
  shows "parse_call ops m f item v [] = (POk c rest, [])"
  using assms parse_call_mono[of ops n f item v "[]" m] by simp

lemma parses_next:
  assumes "parses ops one (item0 ops) (skip v) c r"
    and "parses ops loop (set_children (children item @ [c]) item) (skip r) d rest"
  shows "\<exists>n. parse_next ops (parse_call ops n) one loop item v [] = (POk d rest, [])"
proof -
  obtain n m where "parse_call ops n one (item0 ops) (skip v) [] = (POk c r, [])"
    "parse_call ops m loop (set_children (children item @ [c]) item) (skip r) [] = (POk d rest, [])"
    using assms by (auto simp: parses_def)
  then have "parse_call ops (max n m) one (item0 ops) (skip v) [] = (POk c r, [])"
    "parse_call ops (max n m) loop (set_children (children item @ [c]) item) (skip r) [] = (POk d rest, [])"
    using parses_mono by (metis max.cobounded1, metis max.cobounded2)
  then have "parse_next ops (parse_call ops (max n m)) one loop item v [] = (POk d rest, [])"
    by (simp add: parse_next_def cJSON_New_Item.simps)
  then show ?thesis by blast
qed

lemma parses_elem:
  assumes "parses ops PValue (item0 ops) (skip v) c r"
    and "parses ops PElems (set_children (children item @ [c]) item) (skip r) d rest"
  shows "parses ops PElems item (CHR '','' # v) d rest"
proof -
  obtain n where "parse_next ops (parse_call ops n) PValue PElems item v [] = (POk d rest, [])"
    using parses_next[OF assms] by blast
  then show ?thesis by (intro parsesI[of _ "Suc n"]) (simp add: parse_body_def parse_elems_def)
qed

lemma parses_member:
  assumes "parses ops PMember (item0 ops) (skip v) c r"
    and "parses ops PMembers (set_children (children item @ [c]) item) (skip r) d rest"
  shows "parses ops PMembers item (CHR '','' # v) d rest"
proof -
  obtain n where "parse_next ops (parse_call ops n) PMember PMembers item v [] = (POk d rest, [])"
    using parses_next[OF assms] by blast
  then show ?thesis by (intro parsesI[of _ "Suc n"]) (simp add: parse_body_def parse_members_def)
qed

lemma parses_ends:
  "parses ops PElems item (CHR '']'' # r) item r"
  "parses ops PMembers item (CHR ''}'' # r) item r"
  by (rule parsesI[of _ 1], simp add: parse_body_def parse_elems_def parse_members_def)+

lemma value_array: "parse_value ops call item (CHR ''['' # v) al = call PArray item (CHR ''['' # v) al"
  by (simp add: parse_value_def is_digit_def char_names)

lemma value_object: "parse_value ops call item (CHR ''{'' # v) al = call PObject item (CHR ''{'' # v) al"
  by (simp add: parse_value_def is_digit_def char_names)

lemma parses_array:
  assumes "\<not> starts (\<lambda>c. c = CHR '']'') (skip v)"
    and "parses ops PValue (item0 ops) (skip (skip v)) c r"
    and "parses ops PElems (set_children (children item @ [c]) (set_type cJSON_Array item)) (skip r) d rest"
  shows "parses ops PValue item (CHR ''['' # v) d rest"
proof -
  obtain n where "parse_next ops (parse_call ops n) PValue PElems (set_type cJSON_Array item) (skip v) [] = (POk d rest, [])"
    using parses_next[OF assms(2), of PElems "set_type cJSON_Array item"] assms(3) by (auto simp: set_type_def)
  with assms(1) show ?thesis
    by (intro parsesI[of _ "Suc (Suc n)"])
       (simp add: parse_body_def[of ops "parse_call ops (Suc n)"] parse_body_def value_array parse_array_def Let_def)
qed

lemma parses_object:
  assumes "\<not> starts (\<lambda>c. c = CHR ''}'') (skip v)"
    and "parses ops PMember (item0 ops) (skip (skip v)) c r"
    and "parses ops PMembers (set_children (children item @ [c]) (set_type cJSON_Object item)) (skip r) d rest"
  shows "parses ops PValue item (CHR ''{'' # v) d rest"
proof -
  obtain n where "parse_next ops (parse_call ops n) PMember PMembers (set_type cJSON_Object item) (skip v) [] = (POk d rest, [])"
    using parses_next[OF assms(2), of PMembers "set_type cJSON_Object item"] assms(3) by (auto simp: set_type_def)
  with assms(1) show ?thesis
    by (intro parsesI[of _ "Suc (Suc n)"]) (simp add: parse_body_def value_object parse_object_def Let_def)
qed

lemma parses_empty:
  "skip v = CHR '']'' # r \<Longrightarrow> parses ops PValue item (CHR ''['' # v) (set_type cJSON_Array item) r"
  "skip v = CHR ''}'' # r \<Longrightarrow> parses ops PValue item (CHR ''{'' # v) (set_type cJSON_Object item) r"
  by (rule parsesI[of _ "Suc (Suc 0)"],
      simp add: parse_body_def value_array value_object parse_array_def parse_object_def)+

lemma parses_named:
  assumes "NUL \<notin> set k" and "skip v = CHR '':'' # v'"
    and "parses ops PValue (Item cJSON_String None 0 (dlit ops 0) (Some k) []) (skip v') c r"
  shows "parses ops PMember (item0 ops) (quoted k @ v) c r"
proof -
  obtain n where "parse_call ops n PValue (Item cJSON_String None 0 (dlit ops 0) (Some k) []) (skip v') [] = (POk c r, [])"
    using assms(3) by (auto simp: parses_def)
  then show ?thesis
    using assms(1,2)
    by (intro parsesI[of _ "Suc n"])
       (simp add: parse_body_def parse_member_def parse_string_quoted item0_def value_to_name_def)
qed

subsection \<open>Texts\<close>

text \<open>What the parser makes of the text of an item, for an item named \<^verbatim>\<open>nm\<close>.\<close>

fun reparsed :: "'d dops \<Rightarrow> cptr \<Rightarrow> 'd cJSON \<Rightarrow> 'd cJSON" where
  "reparsed ops k (Item t vs vi vd nm cs) =
     (let t8 = t AND 255 in
      Item t8
        (if t8 = cJSON_String then vs else None)
        (if t8 = cJSON_True then 1 else if t8 = cJSON_Number then vi else 0)
        (if t8 = cJSON_Number then vd else dlit ops 0)
        k
        (if t8 = cJSON_Array then map (reparsed ops None) cs
         else if t8 = cJSON_Object then map (\<lambda>c. reparsed ops (jname c) c) cs
         else []))"

fun storable :: "'d dops \<Rightarrow> 'd cJSON \<Rightarrow> bool" where
  "storable ops (Item t vs vi vd nm cs) \<longleftrightarrow>
     0 \<le> t AND 255 \<and> t AND 255 \<le> 6 \<and> INT_MIN \<le> vi \<and> vi \<le> INT_MAX \<and>
     (t AND 255 = cJSON_String \<longrightarrow> vs \<noteq> None \<and> NUL \<notin> set (the vs)) \<and>
     (t AND 255 = cJSON_Number \<longrightarrow> vd = dlit ops vi) \<and>
     (t AND 255 = cJSON_Object \<longrightarrow> (\<forall>c \<in> set cs. jname c \<noteq> None \<and> NUL \<notin> set (the (jname c)))) \<and>
     (\<forall>c \<in> set cs. storable ops c)"

lemma storable_printable: "storable ops item \<Longrightarrow> printable item \<and> int_values item"
  by (induction item) auto

lemma skip_simps [simp]:
  "32 < (of_char c :: nat) \<Longrightarrow> skip (c # w) = c # w"
  "skip (LF # w) = skip w" "skip (TAB # w) = skip w" "skip (CHR '' '' # w) = skip w"
  "skip (tabs n @ w) = skip w"
proof -
  show "skip (LF # w) = skip w" "skip (TAB # w) = skip w" "skip (CHR '' '' # w) = skip w"
    by (simp_all add: skip_def char_names)
  show "skip (tabs n @ w) = skip w"
    by (induction n) (simp_all add: skip_def tabs_def char_names)
qed (simp add: skip_def)

definition opens :: "string \<Rightarrow> bool" where
  "opens w \<longleftrightarrow> starts (\<lambda>c. 32 < (of_char c :: nat) \<and> c \<noteq> CHR '']'' \<and> c \<noteq> CHR ''}'') w"

lemma opensD: "opens w \<Longrightarrow> skip (w @ r) = w @ r"
  "opens w \<Longrightarrow> \<not> starts (\<lambda>c. c = CHR '']'') (w @ r)" "opens w \<Longrightarrow> \<not> starts (\<lambda>c. c = CHR ''}'') (w @ r)"
  by (cases w; simp add: opens_def)+

lemma opens_quoted: "opens (quoted k)"
  by (simp add: opens_def quoted_def char_names)

lemma opens_int_dec: "opens (int_dec i)"
proof -
  obtain c cs where "nat_dec (nat \<bar>i\<bar>) = c # cs" "is_digit c"
    using nat_dec_nonempty nat_dec_is_digit by (metis list.exhaust list.set_intros(1))
  then show ?thesis by (auto simp: int_dec_def opens_def is_digit_def)
qed

lemma opens_json_text: "exact_ints ops \<Longrightarrow> storable ops item \<Longrightarrow> opens (json_text ops fmt depth item)"
proof (cases item)
  case (Item t vs vi vd nm cs)
  assume "exact_ints ops" and s: "storable ops item"
  have "0 \<le> t AND 255" "t AND 255 \<le> 6" using s Item by auto
  then show ?thesis
    by (cases rule: type_cases)
       (use s Item \<open>exact_ints ops\<close> in \<open>auto simp: cJSON_types opens_quoted opens_int_dec num_text_int\<close>,
        auto simp: opens_def)
qed

definition value_parses :: "'d dops \<Rightarrow> 'd cJSON \<Rightarrow> bool" where
  "value_parses ops item \<longleftrightarrow>
     (\<forall>fmt depth t0 k r. ends_number r \<longrightarrow>
        parses ops PValue (Item t0 None 0 (dlit ops 0) k []) (json_text ops fmt depth item @ r) (reparsed ops k item) r)"

lemma join_array_tail:
  "join_array fmt (e # es) = e @ concat (map (\<lambda>e. CHR '','' # (if fmt then '' '' else []) @ e) es)"
  by (induction es arbitrary: e) auto

lemma elems_parse:
  assumes "\<forall>c \<in> set cs. value_parses ops c \<and> opens (json_text ops fmt depth c)"
  shows "parses ops PElems item
    (concat (map (\<lambda>c. CHR '','' # (if fmt then '' '' else []) @ json_text ops fmt depth c) cs) @ CHR '']'' # r)
    (set_children (children item @ map (reparsed ops None) cs) item) r"
  using assms
proof (induction cs arbitrary: item)
  case Nil
  then show ?case by (cases item) (simp add: set_children_def parses_ends)
next
  case (Cons c cs)
  let ?tail = "concat (map (\<lambda>c. CHR '','' # (if fmt then '' '' else []) @ json_text ops fmt depth c) cs) @ CHR '']'' # r"
  have tail: "ends_number ?tail" "skip ?tail = ?tail"
    by (cases cs; auto simp: ends_number_def is_digit_def)+
  have c: "value_parses ops c" "opens (json_text ops fmt depth c)" using Cons.prems by auto
  have 1: "parses ops PValue (item0 ops) (skip ((if fmt then '' '' else []) @ json_text ops fmt depth c @ ?tail)) (reparsed ops None c) ?tail"
    using c tail(1) by (auto simp: value_parses_def item0_def opensD)
  have 2: "parses ops PElems (set_children (children item @ [reparsed ops None c]) item) (skip ?tail)
    (set_children (children item @ map (reparsed ops None) (c # cs)) item) r"
    using Cons.IH[of "set_children (children item @ [reparsed ops None c]) item"] Cons.prems
    by (simp add: tail(2) set_children_def)
  from parses_elem[OF 1 2] show ?case by simp
qed

definition after :: "'d dops \<Rightarrow> bool \<Rightarrow> nat \<Rightarrow> 'd cJSON list \<Rightarrow> string \<Rightarrow> string" where
  "after ops fmt depth cs r =
     (if cs = [] then [] else '','') @ (if fmt then [LF] else []) @
     join_object fmt depth (map (\<lambda>c. (quoted (the (jname c)), json_text ops fmt depth c)) cs) @ r"

lemma member_parses:
  assumes "value_parses ops c" "opens (json_text ops fmt depth c)" "jname c = Some k" "NUL \<notin> set k" "ends_number r"
  shows "parses ops PMember (item0 ops)
    (skip ((if fmt then tabs depth else []) @ quoted k @ '':'' @ (if fmt then [TAB] else []) @ json_text ops fmt depth c @ r))
    (reparsed ops (jname c) c) r"
proof -
  let ?v = "(if fmt then [TAB] else []) @ json_text ops fmt depth c @ r"
  have "skip ?v = json_text ops fmt depth c @ r" using assms(2) by (cases fmt) (simp_all add: opensD)
  then have "parses ops PMember (item0 ops) (quoted k @ CHR '':'' # ?v) (reparsed ops (jname c) c) r"
    using assms(1,3,5) by (intro parses_named[OF assms(4), where v' = ?v]) (auto simp: value_parses_def)
  then show ?thesis by (cases fmt) (simp_all add: opensD[OF opens_quoted])
qed

lemma members_parse:
  assumes "\<forall>c \<in> set cs. value_parses ops c \<and> opens (json_text ops fmt depth c) \<and> jname c \<noteq> None \<and> NUL \<notin> set (the (jname c))"
    and r: "skip r = CHR ''}'' # r'" "ends_number r"
  shows "parses ops PMembers item (skip (after ops fmt depth cs r))
    (set_children (children item @ map (\<lambda>c. reparsed ops (jname c) c) cs) item) r'"
  using assms(1)
proof (induction cs arbitrary: item)
  case Nil
  then show ?case using r(1) by (cases item) (simp add: after_def set_children_def parses_ends)
next
  case (Cons c cs)
  obtain k where k: "jname c = Some k" "NUL \<notin> set k" using Cons.prems by auto
  have ends: "ends_number (after ops fmt depth cs r)"
    using r(2) by (auto simp: after_def ends_number_def is_digit_def char_names)
  have 1: "parses ops PMember (item0 ops)
    (skip ((if fmt then [LF] else []) @ (if fmt then tabs depth else []) @ quoted k @ '':'' @ (if fmt then [TAB] else []) @
       json_text ops fmt depth c @ after ops fmt depth cs r)) (reparsed ops (jname c) c) (after ops fmt depth cs r)"
    using member_parses[OF _ _ k ends, of ops fmt depth] Cons.prems by (cases fmt) simp_all
  have 2: "parses ops PMembers (set_children (children item @ [reparsed ops (jname c) c]) item) (skip (after ops fmt depth cs r))
    (set_children (children item @ map (\<lambda>c. reparsed ops (jname c) c) (c # cs)) item) r'"
    using Cons.IH[of "set_children (children item @ [reparsed ops (jname c) c]) item"] Cons.prems
    by (simp add: set_children_def)
  have "after ops fmt depth (c # cs) r =
    CHR '','' # (if fmt then [LF] else []) @ (if fmt then tabs depth else []) @ quoted k @ '':'' @ (if fmt then [TAB] else []) @
       json_text ops fmt depth c @ after ops fmt depth cs r"
    using k(1) by (simp add: after_def)
  with parses_member[OF 1 2] show ?case by simp
qed

lemma array_parses:
  assumes "\<forall>c \<in> set cs. value_parses ops c \<and> opens (json_text ops fmt depth c)"
  shows "parses ops PValue (Item t0 None 0 (dlit ops 0) k [])
    (''['' @ join_array fmt (map (json_text ops fmt depth) cs) @ '']'' @ r)
    (Item cJSON_Array None 0 (dlit ops 0) k (map (reparsed ops None) cs)) r"
proof (cases cs)
  case Nil
  have "parses ops PValue (Item t0 None 0 (dlit ops 0) k []) (CHR ''['' # CHR '']'' # r) (set_type cJSON_Array (Item t0 None 0 (dlit ops 0) k [])) r"
    by (rule parses_empty) simp
  with Nil show ?thesis by (simp add: set_type_def)
next
  case (Cons c cs')
  let ?tail = "concat (map (\<lambda>c. CHR '','' # (if fmt then '' '' else []) @ json_text ops fmt depth c) cs') @ CHR '']'' # r"
  let ?item = "Item t0 None 0 (dlit ops 0) k []"
  have tail: "ends_number ?tail" "skip ?tail = ?tail"
    by (cases cs'; auto simp: ends_number_def is_digit_def)+
  have o: "value_parses ops c" "opens (json_text ops fmt depth c)" using assms Cons by auto
  have "parses ops PValue ?item (CHR ''['' # json_text ops fmt depth c @ ?tail)
    (set_children (map (reparsed ops None) cs) (set_type cJSON_Array ?item)) r"
  proof (rule parses_array)
    show "\<not> starts (\<lambda>c. c = CHR '']'') (skip (json_text ops fmt depth c @ ?tail))"
      using o(2) by (simp add: opensD)
    show "parses ops PValue (item0 ops) (skip (skip (json_text ops fmt depth c @ ?tail))) (reparsed ops None c) ?tail"
      using o tail(1) by (simp add: opensD value_parses_def item0_def)
    show "parses ops PElems (set_children (children ?item @ [reparsed ops None c]) (set_type cJSON_Array ?item)) (skip ?tail)
      (set_children (map (reparsed ops None) cs) (set_type cJSON_Array ?item)) r"
      using elems_parse[of cs' ops fmt depth "set_children [reparsed ops None c] (set_type cJSON_Array ?item)" r] assms Cons
      by (simp add: tail(2) set_children_def)
  qed
  then show ?thesis using Cons by (simp add: join_array_tail set_type_def set_children_def comp_def)
qed

lemma object_parses:
  assumes ok: "\<forall>c \<in> set cs. value_parses ops c \<and> opens (json_text ops fmt depth c) \<and> jname c \<noteq> None \<and> NUL \<notin> set (the (jname c))"
    and "cs \<noteq> []" and r: "skip r = CHR ''}'' # r'" "ends_number r"
  shows "parses ops PValue (Item t0 None 0 (dlit ops 0) k [])
    (''{'' @ (if fmt then [LF] else []) @
     join_object fmt depth (map (\<lambda>c. (quoted (the (jname c)), json_text ops fmt depth c)) cs) @ r)
    (Item cJSON_Object None 0 (dlit ops 0) k (map (\<lambda>c. reparsed ops (jname c) c) cs)) r'"
proof -
  let ?item = "Item t0 None 0 (dlit ops 0) k []"
  obtain c cs' where cs: "cs = c # cs'" using assms(2) by (cases cs) auto
  then obtain n where n: "jname c = Some n" "NUL \<notin> set n" using ok by auto
  have ends: "ends_number (after ops fmt depth cs' r)"
    using r(2) by (auto simp: after_def ends_number_def is_digit_def char_names)
  let ?w = "quoted n @ '':'' @ (if fmt then [TAB] else []) @ json_text ops fmt depth c @ after ops fmt depth cs' r"
  let ?v = "(if fmt then [LF] else []) @ (if fmt then tabs depth else []) @ ?w"
  have v: "skip ?v = ?w" "skip ?w = ?w" by (auto simp: opensD[OF opens_quoted])
  have "parses ops PValue ?item (CHR ''{'' # ?v)
    (set_children (map (\<lambda>c. reparsed ops (jname c) c) cs) (set_type cJSON_Object ?item)) r'"
  proof (rule parses_object)
    show "\<not> starts (\<lambda>c. c = CHR ''}'') (skip ?v)"
      unfolding v by (rule opensD(3)[OF opens_quoted])
    show "parses ops PMember (item0 ops) (skip (skip ?v)) (reparsed ops (jname c) c) (after ops fmt depth cs' r)"
      using member_parses[OF _ _ n ends, of ops fmt depth] ok cs
      unfolding v by (cases fmt) (simp_all add: opensD[OF opens_quoted])
    show "parses ops PMembers (set_children (children ?item @ [reparsed ops (jname c) c]) (set_type cJSON_Object ?item))
      (skip (after ops fmt depth cs' r)) (set_children (map (\<lambda>c. reparsed ops (jname c) c) cs) (set_type cJSON_Object ?item)) r'"
      using members_parse[of cs' ops fmt depth r r' "set_children [reparsed ops (jname c) c] (set_type cJSON_Object ?item)"] ok cs r
      by (simp add: set_children_def)
  qed
  then show ?thesis using cs n by (simp add: set_type_def set_children_def after_def)
qed

lemma json_text_parses:
  assumes ex: "exact_ints ops"
  shows "storable ops item \<Longrightarrow> value_parses ops item"
proof (induction item)
  case (Item t vs vi vd nm cs)
  note st = Item.prems
  have ty: "0 \<le> t AND 255" "t AND 255 \<le> 6" using st by auto
  have kids: "\<forall>c \<in> set cs. value_parses ops c \<and> opens (json_text ops fmt depth c)" for fmt depth
    using Item opens_json_text[OF ex] by auto
  have scalar: "parses ops PValue i v c r" if "\<And>call. parse_value ops call i v [] = (POk c r, [])" for i v c r
    using that by (intro parsesI[of _ 1]) (simp add: parse_body_def)
  show ?case
    unfolding value_parses_def
  proof (intro allI impI)
    fix fmt depth t0 k r
    assume r: "ends_number r"
    let ?i = "Item t0 None 0 (dlit ops 0) k []"
    show "parses ops PValue ?i (json_text ops fmt depth (Item t vs vi vd nm cs) @ r) (reparsed ops k (Item t vs vi vd nm cs)) r"
      using ty
    proof (cases rule: type_cases)
      case number
      obtain c ds where c: "int_dec vi = c # ds" "c = CHR ''-'' \<or> is_digit c"
        using nat_dec_nonempty nat_dec_is_digit by (auto simp: int_dec_def) (metis list.exhaust list.set_intros(1))
      have num: "parse_number ops ?i (int_dec vi @ r) = POk (Item cJSON_Number None vi (dlit ops vi) k []) r"
        using parse_number_int[OF ex, of vi r ?i] st r by simp
      have "parse_value ops call ?i (int_dec vi @ r) [] = (POk (Item cJSON_Number None vi (dlit ops vi) k []) r, [])" for call
        using c num by (auto simp: parse_value_def is_digit_def char_names)
      with number st num_text_int[OF ex, of vi] show ?thesis by (intro scalar) (auto simp: cJSON_types)
    next
      case string
      then obtain s where s: "vs = Some s" "NUL \<notin> set s" using st by auto
      have "parse_value ops call ?i (quoted s @ r) [] = parse_string ?i (quoted s @ r) []" for call
        by (simp add: parse_value_def quoted_def char_names)
      with string s show ?thesis by (intro scalar) (simp add: cJSON_types parse_string_quoted)
    next
      case array
      with array_parses[OF kids[of fmt "depth + 1"], of t0 k r] show ?thesis by (simp add: cJSON_types)
    next
      case object
      let ?r = "(if fmt then tabs depth else []) @ CHR ''}'' # r"
      have R: "skip ?r = CHR ''}'' # r" "ends_number ?r"
        by (simp, cases depth) (simp_all add: ends_number_def is_digit_def tabs_def char_names)
      have ok: "\<forall>c \<in> set cs. value_parses ops c \<and> opens (json_text ops fmt (depth + 1) c) \<and> jname c \<noteq> None \<and> NUL \<notin> set (the (jname c))"
        using kids st object by auto
      show ?thesis
      proof (cases "cs = []")
        case True
        have "parses ops PValue ?i (CHR ''{'' # (if fmt then [LF] @ tabs (depth - 1) else []) @ CHR ''}'' # r)
          (set_type cJSON_Object ?i) r"
          by (rule parses_empty) simp
        with True object show ?thesis by (simp add: cJSON_types set_type_def)
      next
        case False
        from object_parses[OF ok False R, of t0 k] False object show ?thesis by (simp add: cJSON_types)
      qed
    qed (auto intro!: scalar simp: cJSON_types parse_value_def set_type_def)
  qed
qed

section \<open>Properties\<close>

lemma json_text_read:
  assumes "exact_ints ops" "storable ops item"
  shows "cJSON_Parse ops (json_text ops fmt 0 item) [] = (POk (reparsed ops None item) [], [])"
proof -
  let ?w = "json_text ops fmt 0 item"
  have "ends_number []" by (simp add: ends_number_def)
  then have "parses ops PValue (item0 ops) (?w @ []) (reparsed ops None item) []"
    using json_text_parses[OF assms] unfolding value_parses_def item0_def by blast
  then have "parses ops PValue (item0 ops) (skip ?w) (reparsed ops None item) []"
    using opensD(1)[OF opens_json_text[OF assms], of fmt 0 "[]"] by simp
  then have "parse_call ops (parse_fuel ?w) PValue (item0 ops) (skip ?w) [] = (POk (reparsed ops None item) [], [])"
    using parse_call_enough by (auto simp: parses_def)
  then show ?thesis
    by (simp add: cJSON_Parse_def cJSON_ParseWithOpts_def cJSON_New_Item.simps)
qed

text \<open>
  C2. Round trip. For an item whose strings and names have no NUL, whose numbers are
  integers and whose members are named, \<^verbatim>\<open>cJSON_Print\<close> and \<^verbatim>\<open>cJSON_PrintUnformatted\<close> return
  a text when no allocation fails, and \<^verbatim>\<open>cJSON_Parse\<close> reads either text to its end and
  rebuilds the item: its values, names, order and nesting (flags such as
  \<^verbatim>\<open>cJSON_IsReference\<close> are not part of the text). Doubles are assumed exact on integers.
\<close>

theorem cJSON_parse_print:
  assumes "exact_ints ops" "fmt_bounded ops" "storable ops item"
  shows "\<exists>w w'. cJSON_Print ops item [] = Some (Some w, []) \<and>
    cJSON_PrintUnformatted ops item [] = Some (Some w', []) \<and>
    cJSON_Parse ops w [] = (POk (reparsed ops None item) [], []) \<and>
    cJSON_Parse ops w' [] = (POk (reparsed ops None item) [], [])"
proof -
  have "prints [] (print_value ops item 0 fmt []) (json_text ops fmt 0 item)" for fmt
    using print_value_prints(1)[OF assms(2)] storable_printable[OF assms(3)] by blast
  then have "print_value ops item 0 fmt [] = Some (Some (json_text ops fmt 0 item), [])" for fmt
    by (auto simp: prints_def)
  then show ?thesis
    using json_text_read[OF assms(1,3)] by (auto simp: cJSON_Print_def cJSON_PrintUnformatted_def)
qed

text \<open>Integers as the doubles of a concrete run.\<close>

definition int_doubles :: "int dops" where
  "int_doubles =
     \<lparr> dlit = (\<lambda>i. i), dadd = (+), dsub = (-), dmul = (*), dpow10 = (\<lambda>e. 10 ^ nat e), dint = (\<lambda>i. i),
       deq = (=), dle = (\<le>), dlt = (<), dfabs = abs, dfloor = (\<lambda>i. i), DBL_EPSILON = 0,
       d1e60 = 10 ^ 60, d1em6 = 1, d1e9 = 10 ^ 9,
       fmt_0f = (\<lambda>d. if \<bar>d\<bar> < 10 ^ 60 then int_dec d else []), fmt_e = (\<lambda>d. ''1e+60''), fmt_f = (\<lambda>d. []) \<rparr>"

lemma exact_int_doubles: "exact_ints int_doubles"
  by (simp add: exact_ints_def int_doubles_def)

lemma fmt_bounded_int_doubles: "fmt_bounded int_doubles"
proof -
  have "length (int_dec d) \<le> 63" if "\<bar>d\<bar> < 10 ^ 60" for d
  proof -
    have "nat (- d) < 10 ^ Suc 59" "nat d < 10 ^ Suc 59" using that by (auto simp: nat_less_iff)
    then show ?thesis
      using nat_dec_length[of "nat (- d)" 59] nat_dec_length[of "nat d" 59] by (auto simp: int_dec_def)
  qed
  then show ?thesis by (simp add: fmt_bounded_def int_doubles_def)
qed

definition sample_json :: "int cJSON" where
  "sample_json =
     Item cJSON_Object None 0 0 None
       [Item cJSON_Array None 0 0 (Some ''a'') [Item cJSON_Number None (-12) (-12) None [], Item cJSON_True None 0 0 None []],
        Item cJSON_String (Some [DQUOTE, CHR 0x01, LF]) 0 0 (Some ''b'') []]"

theorem cJSON_parse_print_witness:
  "exact_ints int_doubles \<and> fmt_bounded int_doubles \<and> storable int_doubles sample_json \<and>
   (\<exists>w w'. cJSON_Print int_doubles sample_json [] = Some (Some w, []) \<and>
    cJSON_PrintUnformatted int_doubles sample_json [] = Some (Some w', []) \<and>
    cJSON_Parse int_doubles w [] = (POk (reparsed int_doubles None sample_json) [], []) \<and>
    cJSON_Parse int_doubles w' [] = (POk (reparsed int_doubles None sample_json) [], []))"
proof -
  have "storable int_doubles sample_json" by code_simp
  then show ?thesis
    using cJSON_parse_print[OF exact_int_doubles fmt_bounded_int_doubles] exact_int_doubles fmt_bounded_int_doubles
    by blast
qed




text \<open>
  Two inputs that take \<^verbatim>\<open>parse_string\<close> outside its buffers. After a \<^verbatim>\<open>\u\<close> the second
  loop skips four characters without looking at them, a closing quote included, so it
  goes on where the first loop stopped counting: every text \<^verbatim>\<open>w\<close> of two or more plain
  characters after such a quote is written past the end of a two-byte block. And a
  backslash at the end of the text makes the first loop read past the terminator.
\<close>

theorem parse_string_overruns:
  assumes "DQUOTE \<notin> set w" "BSLASH \<notin> set w"
  shows "(1 < length w \<longrightarrow>
      cJSON_Parse ops ([DQUOTE, BSLASH, CHR ''u'', DQUOTE, x, y, z] @ w @ [DQUOTE]) [] = (PUB, [])) \<and>
    cJSON_Parse ops (DQUOTE # w @ [BSLASH]) [] = (PUB, [])"
proof -
  let ?v = "[DQUOTE, BSLASH, CHR ''u'', DQUOTE, x, y, z] @ w @ [DQUOTE]" and ?v2 = "DQUOTE # w @ [BSLASH]"
  have sk: "skip ?v = ?v" "skip ?v2 = ?v2" by (simp_all add: skip_def DQUOTE_def)
  have top: "cJSON_Parse ops v [] = (PUB, [])"
    if "skip v = v" "starts (\<lambda>c. c = DQUOTE) v" "parse_string (item0 ops) v [] = (PUB, [])" for v
  proof -
    obtain n where n: "parse_fuel v = Suc n" by (simp add: parse_fuel_def)
    from that(2) obtain cs where v: "v = DQUOTE # cs" by (cases v) auto
    have "parse_call ops (parse_fuel v) PValue (item0 ops) v [] = parse_string (item0 ops) v []"
      unfolding n parse_call.simps(2) by (simp add: v parse_body_def parse_value_def) (simp add: char_names)
    with that show ?thesis
      by (simp add: cJSON_Parse_def cJSON_ParseWithOpts_def cJSON_New_Item.simps)
  qed
  have plain: "unescape (w @ DQUOTE # r) = Some (w, r)" for r
    using assms by (induction w) auto
  have "unicode_escape (DQUOTE # x # y # z # w @ [DQUOTE]) = Some ([], w @ [DQUOTE])"
    by (simp add: unicode_escape_def hex_val_def DQUOTE_def)
  then have "unescape (tl ?v) = Some (w, [])"
    using plain[of "[]"] by (simp add: char_names)
  then have "parse_string (item0 ops) ?v [] = (PUB, [])" if "1 < length w"
    using that by (simp add: parse_string_def) (simp add: char_names)
  moreover have "scan_len (w @ [BSLASH]) n = None" for n
    using assms by (induction w arbitrary: n) (auto simp: char_names)
  then have "parse_string (item0 ops) ?v2 [] = (PUB, [])"
    by (simp add: parse_string_def)
  ultimately show ?thesis using top[OF sk(1)] top[OF sk(2)] by simp
qed

theorem parse_string_overruns_witness:
  "cJSON_Parse int_doubles ([DQUOTE, BSLASH, CHR ''u'', DQUOTE, CHR ''0'', CHR ''0'', CHR ''0''] @ ''AAAAAAAA'' @ [DQUOTE]) [] = (PUB, [])"
proof -
  have "DQUOTE \<notin> set ''AAAAAAAA''" "BSLASH \<notin> set ''AAAAAAAA''" "1 < length ''AAAAAAAA''"
    by (simp_all add: char_names)
  then show ?thesis
    using parse_string_overruns[of "''AAAAAAAA''" int_doubles "CHR ''0''" "CHR ''0''" "CHR ''0''"] by blast
qed

end
