(* ===== verification/CJsonItems.thy ===== *)
theory CJsonItems
  imports CJsonRoundtrip
begin

text \<open>
  The functions of \<^verbatim>\<open>cJSON.c\<close> that create, query, extend and copy items, and
  \<^verbatim>\<open>cJSON_Minify\<close>. An item that is added belongs to its container from then on, so the
  items are values here; a pointer that may be NULL is an option. \<^const>\<open>None\<close> as a result
  is a dereference of NULL.
\<close>

section \<open>Creating items\<close>

definition create_item :: "'d dops \<Rightarrow> int \<Rightarrow> alloc \<Rightarrow> 'd cJSON option \<times> alloc" where
  "create_item ops t al = (let (item, al1) = cJSON_New_Item ops al in (map_option (set_type t) item, al1))"

definition cJSON_CreateNull :: "'d dops \<Rightarrow> alloc \<Rightarrow> 'd cJSON option \<times> alloc" where
  "cJSON_CreateNull ops al = create_item ops cJSON_NULL al"

definition cJSON_CreateTrue :: "'d dops \<Rightarrow> alloc \<Rightarrow> 'd cJSON option \<times> alloc" where
  "cJSON_CreateTrue ops al = create_item ops cJSON_True al"

definition cJSON_CreateFalse :: "'d dops \<Rightarrow> alloc \<Rightarrow> 'd cJSON option \<times> alloc" where
  "cJSON_CreateFalse ops al = create_item ops cJSON_False al"

definition cJSON_CreateBool :: "'d dops \<Rightarrow> int \<Rightarrow> alloc \<Rightarrow> 'd cJSON option \<times> alloc" where
  "cJSON_CreateBool ops b al = create_item ops (if b \<noteq> 0 then cJSON_True else cJSON_False) al"

definition cJSON_CreateNumber :: "'d dops \<Rightarrow> 'd \<Rightarrow> alloc \<Rightarrow> 'd cJSON option \<times> alloc" where
  "cJSON_CreateNumber ops num al =
     (let (item, al1) = cJSON_New_Item ops al
      in (map_option (\<lambda>i. Item cJSON_Number (valuestring i) (dint ops num) num (jname i) (children i)) item, al1))"

definition cJSON_CreateString :: "'d dops \<Rightarrow> string \<Rightarrow> alloc \<Rightarrow> 'd cJSON option \<times> alloc" where
  "cJSON_CreateString ops s al =
     (case cJSON_New_Item ops al of
        (None, al1) \<Rightarrow> (None, al1)
      | (Some i, al1) \<Rightarrow>
          (let (copy, al2) = cJSON_strdup s al1
           in (Some (Item cJSON_String copy (valueint i) (valuedouble i) (jname i) (children i)), al2)))"

definition cJSON_CreateArray :: "'d dops \<Rightarrow> alloc \<Rightarrow> 'd cJSON option \<times> alloc" where
  "cJSON_CreateArray ops al = create_item ops cJSON_Array al"

definition cJSON_CreateObject :: "'d dops \<Rightarrow> alloc \<Rightarrow> 'd cJSON option \<times> alloc" where
  "cJSON_CreateObject ops al = create_item ops cJSON_Object al"

text \<open>
  The loop of the array creators: after the first element every element is linked to the
  one before it, and \<^verbatim>\<open>suffix_object\<close> dereferences both.
\<close>

fun suffix_items :: "('a \<Rightarrow> alloc \<Rightarrow> 'd cJSON option \<times> alloc) \<Rightarrow> 'a list \<Rightarrow> alloc \<Rightarrow> ('d cJSON list \<times> alloc) option" where
  "suffix_items mk [] al = Some ([], al)"
| "suffix_items mk (x # xs) al =
     (case mk x al of
        (None, al1) \<Rightarrow> None
      | (Some n, al1) \<Rightarrow> do { (ns, al2) \<leftarrow> suffix_items mk xs al1; Some (n # ns, al2) })"

fun array_items :: "('a \<Rightarrow> alloc \<Rightarrow> 'd cJSON option \<times> alloc) \<Rightarrow> 'a list \<Rightarrow> alloc \<Rightarrow> ('d cJSON list \<times> alloc) option" where
  "array_items mk [] al = Some ([], al)"
| "array_items mk (x # xs) al =
     (case mk x al of
        (None, al1) \<Rightarrow> if xs = [] then Some ([], al1) else None
      | (Some n, al1) \<Rightarrow> do { (ns, al2) \<leftarrow> suffix_items mk xs al1; Some (n # ns, al2) })"

definition create_array :: "'d dops \<Rightarrow> ('a \<Rightarrow> alloc \<Rightarrow> 'd cJSON option \<times> alloc) \<Rightarrow> 'a list \<Rightarrow> alloc
    \<Rightarrow> ('d cJSON option \<times> alloc) option" where
  "create_array ops mk xs al =
     (case cJSON_CreateArray ops al of
        (None, al1) \<Rightarrow> Some (None, al1)
      | (Some a, al1) \<Rightarrow> do { (ns, al2) \<leftarrow> array_items mk xs al1; Some (Some (set_children ns a), al2) })"

definition cJSON_CreateIntArray :: "'d dops \<Rightarrow> int list \<Rightarrow> alloc \<Rightarrow> ('d cJSON option \<times> alloc) option" where
  "cJSON_CreateIntArray ops numbers al = create_array ops (\<lambda>i. cJSON_CreateNumber ops (dlit ops i)) numbers al"

definition cJSON_CreateDoubleArray :: "'d dops \<Rightarrow> 'd list \<Rightarrow> alloc \<Rightarrow> ('d cJSON option \<times> alloc) option" where
  "cJSON_CreateDoubleArray ops numbers al = create_array ops (cJSON_CreateNumber ops) numbers al"

definition cJSON_CreateStringArray :: "'d dops \<Rightarrow> string list \<Rightarrow> alloc \<Rightarrow> ('d cJSON option \<times> alloc) option" where
  "cJSON_CreateStringArray ops strings al = create_array ops (cJSON_CreateString ops) strings al"

section \<open>Queries\<close>

definition cJSON_GetArraySize :: "'d cJSON \<Rightarrow> int" where
  "cJSON_GetArraySize array = int (length (children array))"

definition cJSON_GetArrayItem :: "'d cJSON \<Rightarrow> int \<Rightarrow> 'd cJSON option" where
  "cJSON_GetArrayItem array item = aget (children array) (nat item)"

definition cJSON_GetObjectItem :: "'d cJSON \<Rightarrow> cptr \<Rightarrow> 'd cJSON option" where
  "cJSON_GetObjectItem object s = find (\<lambda>c. cJSON_strcasecmp (jname c) s = 0) (children object)"

section \<open>Adding items\<close>

definition cJSON_AddItemToArray :: "'d cJSON option \<Rightarrow> 'd cJSON option \<Rightarrow> 'd cJSON option option" where
  "cJSON_AddItemToArray array item =
     (case array of
        None \<Rightarrow> None
      | Some a \<Rightarrow> (case item of None \<Rightarrow> Some array | Some i \<Rightarrow> Some (Some (set_children (children a @ [i]) a))))"

definition set_name :: "cptr \<Rightarrow> 'd cJSON \<Rightarrow> 'd cJSON" where
  "set_name s item = Item (jtype item) (valuestring item) (valueint item) (valuedouble item) s (children item)"

definition cJSON_AddItemToObject ::
    "'d cJSON option \<Rightarrow> string \<Rightarrow> 'd cJSON option \<Rightarrow> alloc \<Rightarrow> ('d cJSON option \<times> alloc) option" where
  "cJSON_AddItemToObject object s item al =
     (case item of
        None \<Rightarrow> Some (object, al)
      | Some i \<Rightarrow>
          (let (copy, al1) = cJSON_strdup s al
           in do { obj \<leftarrow> cJSON_AddItemToArray object (Some (set_name copy i)); Some (obj, al1) }))"

definition cJSON_AddItemToObjectCS :: "'d cJSON option \<Rightarrow> string \<Rightarrow> 'd cJSON option \<Rightarrow> 'd cJSON option option" where
  "cJSON_AddItemToObjectCS object s item =
     (case item of
        None \<Rightarrow> Some object
      | Some i \<Rightarrow> cJSON_AddItemToArray object (Some (set_type (jtype i OR cJSON_StringIsConst) (set_name (Some s) i))))"

definition cJSON_AddNumberToObject ::
    "'d dops \<Rightarrow> 'd cJSON option \<Rightarrow> string \<Rightarrow> 'd \<Rightarrow> alloc \<Rightarrow> ('d cJSON option \<times> alloc) option" where
  "cJSON_AddNumberToObject ops object name n al =
     (let (item, al1) = cJSON_CreateNumber ops n al in cJSON_AddItemToObject object name item al1)"

definition cJSON_AddStringToObject ::
    "'d dops \<Rightarrow> 'd cJSON option \<Rightarrow> string \<Rightarrow> string \<Rightarrow> alloc \<Rightarrow> ('d cJSON option \<times> alloc) option" where
  "cJSON_AddStringToObject ops object name s al =
     (let (item, al1) = cJSON_CreateString ops s al in cJSON_AddItemToObject object name item al1)"

section \<open>Copies\<close>

text \<open>\<^verbatim>\<open>if (item->valuestring)\<close> copy it: the copy and whether the copy of a string failed.\<close>

definition dup_string :: "cptr \<Rightarrow> alloc \<Rightarrow> cptr \<times> bool \<times> alloc" where
  "dup_string s al = (case s of None \<Rightarrow> (None, False, al) | Some w \<Rightarrow> (let (c, al1) = cJSON_strdup w al in (c, c = None, al1)))"

fun cJSON_Duplicate :: "'d dops \<Rightarrow> 'd cJSON \<Rightarrow> bool \<Rightarrow> alloc \<Rightarrow> 'd cJSON option \<times> alloc"
  and dup_children :: "'d dops \<Rightarrow> 'd cJSON list \<Rightarrow> alloc \<Rightarrow> 'd cJSON list option \<times> alloc" where
  "cJSON_Duplicate ops (Item t vs vi vd nm cs) recurse al =
     (case cJSON_New_Item ops al of
        (None, al1) \<Rightarrow> (None, al1)
      | (Some i, al1) \<Rightarrow>
          (case dup_string vs al1 of (vs', fail1, al2) \<Rightarrow>
             if fail1 then (None, al2)
             else (case dup_string nm al2 of (nm', fail2, al3) \<Rightarrow>
                     if fail2 then (None, al3)
                     else if \<not> recurse then (Some (Item (t AND NOT cJSON_IsReference) vs' vi vd nm' []), al3)
                     else (case dup_children ops cs al3 of
                             (None, al4) \<Rightarrow> (None, al4)
                           | (Some cs', al4) \<Rightarrow> (Some (Item (t AND NOT cJSON_IsReference) vs' vi vd nm' cs'), al4)))))"
| "dup_children ops [] al = (Some [], al)"
| "dup_children ops (c # cs) al =
     (case cJSON_Duplicate ops c True al of
        (None, al1) \<Rightarrow> (None, al1)
      | (Some c', al1) \<Rightarrow>
          (case dup_children ops cs al1 of
             (None, al2) \<Rightarrow> (None, al2)
           | (Some cs', al2) \<Rightarrow> (Some (c' # cs'), al2)))"

section \<open>Minify\<close>

text \<open>
  The string literal branch from the character after the opening quote: what is copied and
  the rest. A literal without its closing quote has its NUL copied and the scan goes on
  behind it.
\<close>

fun minify_literal :: "string \<Rightarrow> (string \<times> string) option" where
  "minify_literal [] = None"
| "minify_literal (c # cs) =
     (if c = DQUOTE then Some ([c], cs)
      else if c = BSLASH then
        (case cs of
           [] \<Rightarrow> None
         | e # es \<Rightarrow> do { (w, r) \<leftarrow> minify_literal es; Some (c # e # w, r) })
      else do { (w, r) \<leftarrow> minify_literal cs; Some (c # w, r) })"

text \<open>A \<^verbatim>\<open>/*\<close> comment, from its first character on; without its end the pointer leaves the text.\<close>

fun minify_comment :: "string \<Rightarrow> string option" where
  "minify_comment (c # d # cs) = (if c = CHR ''*'' \<and> d = CHR ''/'' then Some cs else minify_comment (d # cs))"
| "minify_comment _ = None"

lemma minify_literal_le: "minify_literal cs = Some (w, r) \<Longrightarrow> length r < length cs"
proof (induction cs arbitrary: w r rule: minify_literal.induct)
  case (2 c cs)
  then show ?case by (cases cs) (fastforce simp: bind_eq_Some_conv split: if_splits)+
qed simp

lemma minify_comment_le: "minify_comment cs = Some r \<Longrightarrow> length r < length cs"
  by (induction cs rule: minify_comment.induct) (auto split: if_splits)

function cJSON_Minify :: "string \<Rightarrow> string option" where
  "cJSON_Minify [] = Some []"
| "cJSON_Minify (c # cs) =
     (if c = CHR '' '' \<or> c = TAB \<or> c = CHR 0x0D \<or> c = LF then cJSON_Minify cs
      else if c = CHR ''/'' \<and> starts (\<lambda>d. d = CHR ''/'') cs then cJSON_Minify (dropWhile (\<lambda>d. d \<noteq> LF) cs)
      else if c = CHR ''/'' \<and> starts (\<lambda>d. d = CHR ''*'') cs then
        (case minify_comment (c # cs) of None \<Rightarrow> None | Some r \<Rightarrow> cJSON_Minify r)
      else if c = DQUOTE then
        (case minify_literal cs of
           None \<Rightarrow> None
         | Some (w, r) \<Rightarrow> map_option (\<lambda>m. c # w @ m) (cJSON_Minify r))
      else map_option (\<lambda>m. c # m) (cJSON_Minify cs))"
  by pat_completeness auto
termination
  by (relation "measure length")
     (auto dest: minify_literal_le minify_comment_le simp: le_imp_less_Suc length_dropWhile_le)

section \<open>Properties\<close>

subsection \<open>Minified texts\<close>

definition minifies :: "string \<Rightarrow> string \<Rightarrow> bool" where
  "minifies w w' \<longleftrightarrow>
     (\<forall>r. cJSON_Minify (w @ r) = (case cJSON_Minify r of None \<Rightarrow> None | Some m \<Rightarrow> Some (w' @ m)))"

lemma minifies_Nil: "minifies [] []"
  by (simp add: minifies_def split: option.split)

lemma minifies_append: "minifies a a' \<Longrightarrow> minifies b b' \<Longrightarrow> minifies (a @ b) (a' @ b')"
  by (simp add: minifies_def split: option.split)

lemma minifies_space: "c = CHR '' '' \<or> c = TAB \<or> c = LF \<Longrightarrow> minifies (c # w) w' = minifies w w'"
  unfolding minifies_def append_Cons cJSON_Minify.simps(2) by (elim disjE) simp_all

lemma minifies_tabs: "minifies (tabs n) []"
  unfolding tabs_def by (induction n) (simp_all add: minifies_Nil minifies_space)

lemma minifies_plain:
  assumes "c \<notin> {CHR '' '', TAB, CHR 0x0D, LF, CHR ''/'', DQUOTE}" "minifies w w'"
  shows "minifies (c # w) (c # w')"
  using assms by (simp add: minifies_def split: option.split)

lemma minifies_all_plain:
  "set w \<inter> {CHR '' '', TAB, CHR 0x0D, LF, CHR ''/'', DQUOTE} = {} \<Longrightarrow> minifies w w"
  by (induction w) (auto simp: minifies_Nil intro!: minifies_plain)

lemma minify_literal_char:
  "minify_literal (escape_char c @ cs) = do { (w, r) \<leftarrow> minify_literal cs; Some (escape_char c @ w, r) }"
proof (cases "needs_escape c \<and> c \<notin> {BSLASH, DQUOTE, CHR 0x08, CHR 0x0C, CHR 0x0A, CHR 0x0D, CHR 0x09}")
  case True
  have h: "minify_literal (h @ cs) = do { (w, r) \<leftarrow> minify_literal cs; Some (h @ w, r) }"
    if "DQUOTE \<notin> set h" "BSLASH \<notin> set h" for h
    using that by (induction h) (auto simp: case_prod_beta')
  from True h[OF hex4_plain, of c] show ?thesis
    by (auto simp: escape_char_def char_names case_prod_beta' bind_assoc)
next
  case False
  then show ?thesis
    by (auto simp: escape_char_def needs_escape_def char_names case_prod_beta')
qed

lemma minify_literal_escape:
  "minify_literal (concat (map escape_char s) @ DQUOTE # r) = Some (concat (map escape_char s) @ [DQUOTE], r)"
  by (induction s) (simp_all add: minify_literal_char)

lemma minifies_quoted: "minifies (quoted s) (quoted s)"
  by (simp add: minifies_def quoted_def minify_literal_escape split: option.split) (simp add: char_names)

lemma minifies_int_dec: "minifies (int_dec i) (int_dec i)"
proof (rule minifies_all_plain)
  have "c = CHR ''-'' \<or> is_digit c" if "c \<in> set (int_dec i)" for c
    using that nat_dec_is_digit by (auto simp: int_dec_def split: if_splits)
  then have "c \<notin> {CHR '' '', TAB, CHR 0x0D, LF, CHR ''/'', DQUOTE}" if "c \<in> set (int_dec i)" for c
    using that by (force simp: is_digit_def char_names)
  then show "set (int_dec i) \<inter> {CHR '' '', TAB, CHR 0x0D, LF, CHR ''/'', DQUOTE} = {}" by blast
qed

lemma minifies_join_array:
  "list_all2 minifies es es' \<Longrightarrow> minifies (join_array True es) (join_array False es')"
proof (induction es es' rule: list_all2_induct)
  case (Cons e es e' es')
  show ?case
  proof (cases es)
    case (Cons a as)
    then obtain b bs where "es' = b # bs" using Cons.hyps(2) by (auto simp: list_all2_Cons1)
    with Cons Cons.hyps Cons.IH show ?thesis
      by (auto simp: char_names minifies_space intro!: minifies_append minifies_plain)
  qed (use Cons in \<open>simp add: minifies_Nil\<close>)
qed (simp add: minifies_Nil)

lemma minifies_join_object:
  "list_all2 (\<lambda>(k, v) (k', v'). minifies k k' \<and> minifies v v') es es' \<Longrightarrow>
   minifies (join_object True d es) (join_object False d' es')"
proof (induction es es' rule: list_all2_induct)
  case (Cons e es e' es')
  obtain k v k' v' where e: "e = (k, v)" "e' = (k', v')" by (cases e, cases e')
  have "es = [] \<longleftrightarrow> es' = []" using Cons.hyps(2) by auto
  then have sep: "minifies ((if es = [] then [] else '','') @ [LF]) (if es' = [] then [] else '','')"
    by (auto simp: minifies_Nil minifies_space char_names intro!: minifies_plain minifies_append)
  have "minifies ('':'' @ [TAB]) '':''"
    by (simp, rule minifies_plain) (auto simp: minifies_space minifies_Nil, simp_all add: char_names)
  then have "minifies (tabs d @ k @ ('':'' @ [TAB]) @ v @ ((if es = [] then [] else '','') @ [LF]) @ join_object True d es)
    ([] @ k' @ '':'' @ v' @ (if es' = [] then [] else '','') @ join_object False d' es')"
    using Cons e by (intro minifies_append minifies_tabs sep) auto
  then show ?case by (simp add: e)
qed (simp add: minifies_Nil)

lemma minifies_json_text:
  assumes ex: "exact_ints ops"
  shows "storable ops item \<Longrightarrow> minifies (json_text ops True d item) (json_text ops False d' item)"
proof (induction item arbitrary: d d')
  case (Item t vs vi vd nm cs)
  have ty: "0 \<le> t AND 255" "t AND 255 \<le> 6" using Item.prems by auto
  have kids: "minifies (json_text ops True d c) (json_text ops False d' c)" if "c \<in> set cs" for c d d'
    using Item that by auto
  from ty show ?case
  proof (cases rule: type_cases)
    case number
    then show ?thesis using Item.prems num_text_int[OF ex, of vi] by (simp add: cJSON_types minifies_int_dec)
  next
    case string
    then show ?thesis by (simp add: cJSON_types minifies_quoted)
  next
    case array
    have "minifies (join_array True (map (json_text ops True (d + 1)) cs)) (join_array False (map (json_text ops False (d' + 1)) cs))"
      by (rule minifies_join_array) (simp add: list.rel_map list.rel_refl_strong kids)
    with array show ?thesis
      by (auto simp: cJSON_types char_names minifies_Nil intro!: minifies_plain minifies_append)
  next
    case object
    have "minifies (join_object True (d + 1) (map (\<lambda>c. (quoted (the (jname c)), json_text ops True (d + 1) c)) cs))
      (join_object False (d' + 1) (map (\<lambda>c. (quoted (the (jname c)), json_text ops False (d' + 1) c)) cs))"
      by (rule minifies_join_object) (simp add: list.rel_map list.rel_refl_strong kids minifies_quoted)
    note join = this
    have "minifies (c # []) (c # [])" if "c \<in> {CHR ''{'', CHR ''}''}" for c
      using that by (intro minifies_all_plain) (auto simp: char_names)
    then have br: "minifies ''{'' ''{''" "minifies ''}'' ''}''" "minifies [LF] []"
      by (auto simp: minifies_space minifies_Nil)
    show ?thesis
    proof (cases "cs = []")
      case True
      have "minifies (''{'' @ [LF] @ tabs (d - 1) @ ''}'') (''{'' @ [] @ [] @ ''}'')"
        by (intro minifies_append br minifies_tabs)
      with True object show ?thesis by (simp add: cJSON_types)
    next
      case False
      have "minifies (''{'' @ [LF] @ join_object True (d + 1) (map (\<lambda>c. (quoted (the (jname c)), json_text ops True (d + 1) c)) cs) @ tabs d @ ''}'')
        (''{'' @ [] @ join_object False (d' + 1) (map (\<lambda>c. (quoted (the (jname c)), json_text ops False (d' + 1) c)) cs) @ [] @ ''}'')"
        by (intro minifies_append br minifies_tabs join)
      with False object show ?thesis by (simp add: cJSON_types)
    qed
  qed (auto simp: cJSON_types char_names intro!: minifies_all_plain)
qed



subsection \<open>Copies\<close>

text \<open>The copy of an item: the references become items of their own.\<close>

fun owned :: "'d cJSON \<Rightarrow> 'd cJSON" where
  "owned (Item t vs vi vd nm cs) = Item (t AND NOT cJSON_IsReference) vs vi vd nm (map owned cs)"

lemma dup_string_ok: "dup_string s [] = (s, False, [])"
  by (cases s) (simp_all add: dup_string_def)

lemma dup_children_ok:
  "\<forall>c \<in> set cs. cJSON_Duplicate ops c True [] = (Some (owned c), []) \<Longrightarrow> dup_children ops cs [] = (Some (map owned cs), [])"
  by (induction cs) auto

lemma cJSON_Duplicate_ok: "cJSON_Duplicate ops item True [] = (Some (owned item), [])"
  by (induction item) (simp add: cJSON_New_Item.simps dup_string_ok dup_children_ok)

lemma owned_type: "(t AND NOT cJSON_IsReference) AND 255 = t AND 255"
proof -
  have "NOT cJSON_IsReference AND (255 :: int) = 255" by (simp add: cJSON_IsReference_def)
  then show ?thesis by (simp add: and.assoc)
qed

lemma jname_owned [simp]: "jname (owned item) = jname item"
  by (cases item) simp

lemma print_owned_children:
  assumes "\<forall>c \<in> set cs. print_value ops (owned c) = print_value ops c"
  shows "print_elems ops (map owned cs) = print_elems ops cs" "print_members ops (map owned cs) = print_members ops cs"
  using assms by (induction cs) (auto intro!: ext)

lemma print_owned: "print_value ops (owned item) = print_value ops item"
proof (induction item)
  case (Item t vs vi vd nm cs)
  then have "\<forall>c \<in> set cs. print_value ops (owned c) = print_value ops c" by blast
  from print_owned_children[OF this] show ?case
    by (intro ext) (simp add: Let_def owned_type print_number_def)
qed

text \<open>
  Without a failed allocation \<^verbatim>\<open>cJSON_Duplicate\<close> with \<^verbatim>\<open>recurse\<close> returns a copy of the
  whole tree, references resolved into items of their own, and the copy prints to the
  same text as the original, under any allocator and in both formats.
\<close>

theorem cJSON_Duplicate_same_text:
  "\<exists>copy. cJSON_Duplicate ops item True [] = (Some copy, []) \<and> copy = owned item \<and>
     (\<forall>al. cJSON_Print ops copy al = cJSON_Print ops item al \<and>
           cJSON_PrintUnformatted ops copy al = cJSON_PrintUnformatted ops item al)"
  by (simp add: cJSON_Duplicate_ok cJSON_Print_def cJSON_PrintUnformatted_def print_owned)

subsection \<open>Members\<close>

text \<open>
  After \<^verbatim>\<open>cJSON_AddItemToObject\<close> the object has one more member, at the end, and
  \<^verbatim>\<open>cJSON_GetObjectItem\<close> finds under a name what it found before, or else the new item if
  the name is that of the new item up to case: an older member hides a newer one.
\<close>

theorem cJSON_Add_then_Get:
  "\<exists>obj'. cJSON_AddItemToObject (Some obj) s (Some item) [] = Some (Some obj', []) \<and>
     cJSON_GetArraySize obj' = cJSON_GetArraySize obj + 1 \<and>
     cJSON_GetArrayItem obj' (cJSON_GetArraySize obj) = Some (set_name (Some s) item) \<and>
     (\<forall>k. cJSON_GetObjectItem obj' k =
        (case cJSON_GetObjectItem obj k of
           Some c \<Rightarrow> Some c
         | None \<Rightarrow> if cJSON_strcasecmp (Some s) k = 0 then Some (set_name (Some s) item) else None))"
proof -
  let ?i = "set_name (Some s) item"
  have "find P (xs @ [x]) = (case find P xs of Some c \<Rightarrow> Some c | None \<Rightarrow> if P x then Some x else None)" for P and xs :: "'a cJSON list" and x
    by (induction xs) auto
  then have "cJSON_GetObjectItem (set_children (children obj @ [?i]) obj) k =
     (case cJSON_GetObjectItem obj k of Some c \<Rightarrow> Some c | None \<Rightarrow> if cJSON_strcasecmp (Some s) k = 0 then Some ?i else None)" for k
    by (simp add: cJSON_GetObjectItem_def set_children_def) (simp add: set_name_def)
  then show ?thesis
    by (simp add: cJSON_AddItemToObject_def cJSON_AddItemToArray_def cJSON_GetArraySize_def cJSON_GetArrayItem_def
        aget_def set_children_def)
qed

end
