(* ===== verification/BuildJson.thy ===== *)
theory BuildJson
  imports CJsonItems
begin

text \<open>
  The message builders of \<^verbatim>\<open>build_json.c\<close>, clients of \<^verbatim>\<open>cJSON.c\<close>: each creates an object, adds
  its members, prints it and copies the text, without its NUL, to the caller's buffer. A
  buffer is the list of its bytes; \<^const>\<open>None\<close> is a dereference of NULL or a copy past the
  end of the buffer.
\<close>

type_synonym built = "(int \<times> string \<times> alloc) option"

definition memcpy_text :: "string \<Rightarrow> string \<Rightarrow> string option" where
  "memcpy_text buf w = (if length w \<le> length buf then Some (w @ drop (length w) buf) else None)"

text \<open>The last three statements of every builder; \<^verbatim>\<open>strlen\<close> of a NULL text is undefined.\<close>

definition print_into :: "'d dops \<Rightarrow> string \<Rightarrow> 'd cJSON option \<Rightarrow> alloc \<Rightarrow> built" where
  "print_into ops buf root al =
     (case root of
        None \<Rightarrow> None
      | Some r \<Rightarrow>
          do { (str, al) \<leftarrow> cJSON_Print ops r al;
               (case str of
                  None \<Rightarrow> None
                | Some w \<Rightarrow> do { buf' \<leftarrow> memcpy_text buf w; Some (0, buf', al) }) })"

definition bulid_json_app_nitify_host ::
    "'d dops \<Rightarrow> string \<Rightarrow> string \<Rightarrow> string \<Rightarrow> string \<Rightarrow> string \<Rightarrow> string \<Rightarrow> string \<Rightarrow> string \<Rightarrow> alloc \<Rightarrow> built" where
  "bulid_json_app_nitify_host ops buf token timestamp serviceid dir filename filetype compress al =
     (let (root, al) = cJSON_CreateObject ops al in do {
       (root, al) \<leftarrow> cJSON_AddStringToObject ops root ''token'' token al;
       (root, al) \<leftarrow> cJSON_AddStringToObject ops root ''timestamp'' timestamp al;
       let (body, al) = cJSON_CreateObject ops al;
       (body, al) \<leftarrow> cJSON_AddStringToObject ops body ''serviceid'' serviceid al;
       let (serviceProperties, al) = cJSON_CreateObject ops al;
       (serviceProperties, al) \<leftarrow> cJSON_AddStringToObject ops serviceProperties ''Dir'' dir al;
       (serviceProperties, al) \<leftarrow> cJSON_AddStringToObject ops serviceProperties ''filename'' filename al;
       (serviceProperties, al) \<leftarrow> cJSON_AddStringToObject ops serviceProperties ''fileType'' filetype al;
       (serviceProperties, al) \<leftarrow> cJSON_AddStringToObject ops serviceProperties ''compress'' compress al;
       (body, al) \<leftarrow> cJSON_AddItemToObject body ''serviceProperties'' serviceProperties al;
       (root, al) \<leftarrow> cJSON_AddItemToObject root ''body'' body al;
       print_into ops buf root al })"

definition build_json_IOT_notifi_host ::
    "'d dops \<Rightarrow> string \<Rightarrow> string \<Rightarrow> string \<Rightarrow> string \<Rightarrow> int \<Rightarrow> string \<Rightarrow> string \<Rightarrow> int \<Rightarrow> string \<Rightarrow> string \<Rightarrow> string \<Rightarrow> alloc \<Rightarrow> built" where
  "build_json_IOT_notifi_host ops buf deviceid serviceid eventTime expire name addr fsize md5 fileType compress al =
     (let (root, al) = cJSON_CreateObject ops al in do {
       (root, al) \<leftarrow> cJSON_AddStringToObject ops root ''deviceId'' deviceid al;
       (root, al) \<leftarrow> cJSON_AddStringToObject ops root ''serviceId'' serviceid al;
       (root, al) \<leftarrow> cJSON_AddStringToObject ops root ''eventTime'' eventTime al;
       (root, al) \<leftarrow> cJSON_AddNumberToObject ops root ''expire'' (dlit ops expire) al;
       let (data, al) = cJSON_CreateObject ops al;
       (data, al) \<leftarrow> cJSON_AddStringToObject ops data ''name'' name al;
       (data, al) \<leftarrow> cJSON_AddStringToObject ops data ''addr'' addr al;
       (data, al) \<leftarrow> cJSON_AddNumberToObject ops data ''size'' (dlit ops fsize) al;
       (data, al) \<leftarrow> cJSON_AddStringToObject ops data ''md5'' md5 al;
       (data, al) \<leftarrow> cJSON_AddStringToObject ops data ''fileType'' fileType al;
       (data, al) \<leftarrow> cJSON_AddStringToObject ops data ''compress'' compress al;
       (root, al) \<leftarrow> cJSON_AddItemToObject root ''data'' data al;
       print_into ops buf root al })"

definition build_json_host_to_IOT ::
    "'d dops \<Rightarrow> string \<Rightarrow> string \<Rightarrow> int \<Rightarrow> string \<Rightarrow> string \<Rightarrow> string \<Rightarrow> string \<Rightarrow> alloc \<Rightarrow> built" where
  "build_json_host_to_IOT ops buf msg_type mid cmd param serviceid deviceid al =
     (let (root, al) = cJSON_CreateObject ops al in do {
       (root, al) \<leftarrow> cJSON_AddStringToObject ops root ''msgType'' msg_type al;
       (root, al) \<leftarrow> cJSON_AddNumberToObject ops root ''mid'' (dlit ops mid) al;
       (root, al) \<leftarrow> cJSON_AddStringToObject ops root ''cmd'' cmd al;
       let (paras, al) = cJSON_CreateObject ops al;
       (paras, al) \<leftarrow> cJSON_AddStringToObject ops paras ''A_phsC'' param al;
       (root, al) \<leftarrow> cJSON_AddItemToObject root ''paras'' paras al;
       (root, al) \<leftarrow> cJSON_AddStringToObject ops root ''deviceId'' deviceid al;
       (root, al) \<leftarrow> cJSON_AddStringToObject ops root ''serviceId'' serviceid al;
       print_into ops buf root al })"

definition build_json_IOT_to_app ::
    "'d dops \<Rightarrow> string \<Rightarrow> string \<Rightarrow> string \<Rightarrow> string \<Rightarrow> string \<Rightarrow> string \<Rightarrow> string \<Rightarrow> alloc \<Rightarrow> built" where
  "build_json_IOT_to_app ops buf requestId serviceId method pic_id token timestamp al =
     (let (root, al) = cJSON_CreateObject ops al in do {
       let (body, al) = cJSON_CreateObject ops al;
       (body, al) \<leftarrow> cJSON_AddStringToObject ops body ''requestId'' requestId al;
       (body, al) \<leftarrow> cJSON_AddStringToObject ops body ''serviceId'' serviceId al;
       (body, al) \<leftarrow> cJSON_AddStringToObject ops body ''method'' method al;
       let (cmdContent, al) = cJSON_CreateObject ops al;
       (cmdContent, al) \<leftarrow> cJSON_AddStringToObject ops cmdContent ''pic_id'' pic_id al;
       (body, al) \<leftarrow> cJSON_AddItemToObject body ''cmdContent'' cmdContent al;
       (root, al) \<leftarrow> cJSON_AddItemToObject root ''body'' body al;
       (root, al) \<leftarrow> cJSON_AddStringToObject ops root ''token'' token al;
       (root, al) \<leftarrow> cJSON_AddStringToObject ops root ''timestamp'' timestamp al;
       print_into ops buf root al })"

definition build_json_app_to_IOT ::
    "'d dops \<Rightarrow> string \<Rightarrow> string \<Rightarrow> string \<Rightarrow> string \<Rightarrow> string \<Rightarrow> string \<Rightarrow> alloc \<Rightarrow> built" where
  "build_json_app_to_IOT ops buf requestId serviceId pic_id token timestamp al =
     (let (root, al) = cJSON_CreateObject ops al in do {
       let (body, al) = cJSON_CreateObject ops al;
       (body, al) \<leftarrow> cJSON_AddStringToObject ops body ''requestId'' requestId al;
       (body, al) \<leftarrow> cJSON_AddStringToObject ops body ''serviceId'' serviceId al;
       let (serviceProperties, al) = cJSON_CreateObject ops al;
       (serviceProperties, al) \<leftarrow> cJSON_AddStringToObject ops serviceProperties ''pic_id'' pic_id al;
       (body, al) \<leftarrow> cJSON_AddItemToObject body ''serviceProperties'' serviceProperties al;
       (root, al) \<leftarrow> cJSON_AddItemToObject root ''body'' body al;
       (root, al) \<leftarrow> cJSON_AddStringToObject ops root ''token'' token al;
       (root, al) \<leftarrow> cJSON_AddStringToObject ops root ''timestamp'' timestamp al;
       print_into ops buf root al })"

definition cloud_edge_platform_to_terminal ::
    "'d dops \<Rightarrow> string \<Rightarrow> string \<Rightarrow> int \<Rightarrow> string \<Rightarrow> int \<Rightarrow> string \<Rightarrow> string \<Rightarrow> alloc \<Rightarrow> built" where
  "cloud_edge_platform_to_terminal ops buf msg_type mid cmd remote_permit serviceid deviceid al =
     (let (root, al) = cJSON_CreateObject ops al in do {
       (root, al) \<leftarrow> cJSON_AddStringToObject ops root ''msgType'' msg_type al;
       (root, al) \<leftarrow> cJSON_AddNumberToObject ops root ''mid'' (dlit ops mid) al;
       (root, al) \<leftarrow> cJSON_AddStringToObject ops root ''cmd'' cmd al;
       let (paras, al) = cJSON_CreateObject ops al;
       (paras, al) \<leftarrow> cJSON_AddNumberToObject ops paras ''remote_permit'' (dlit ops remote_permit) al;
       (root, al) \<leftarrow> cJSON_AddItemToObject root ''paras'' paras al;
       (root, al) \<leftarrow> cJSON_AddStringToObject ops root ''deviceId'' deviceid al;
       (root, al) \<leftarrow> cJSON_AddStringToObject ops root ''serviceId'' serviceid al;
       print_into ops buf root al })"

definition cloud_edge_terminal_to_platform ::
    "'d dops \<Rightarrow> string \<Rightarrow> string \<Rightarrow> int \<Rightarrow> int \<Rightarrow> int \<Rightarrow> alloc \<Rightarrow> built" where
  "cloud_edge_terminal_to_platform ops buf msg_type mid errcode remote_permit al =
     (let (root, al) = cJSON_CreateObject ops al in do {
       (root, al) \<leftarrow> cJSON_AddStringToObject ops root ''msgType'' msg_type al;
       (root, al) \<leftarrow> cJSON_AddNumberToObject ops root ''mid'' (dlit ops mid) al;
       (root, al) \<leftarrow> cJSON_AddNumberToObject ops root ''errcode'' (dlit ops errcode) al;
       let (body, al) = cJSON_CreateObject ops al;
       (body, al) \<leftarrow> cJSON_AddNumberToObject ops body ''remote_permit'' (dlit ops remote_permit) al;
       (root, al) \<leftarrow> cJSON_AddItemToObject root ''body'' body al;
       print_into ops buf root al })"

definition build_json_edge_interaction ::
    "'d dops \<Rightarrow> string \<Rightarrow> string \<Rightarrow> string \<Rightarrow> string \<Rightarrow> int \<Rightarrow> string \<Rightarrow> string \<Rightarrow> alloc \<Rightarrow> built" where
  "build_json_edge_interaction ops buf requestid serviceid method remote_permit token timestamp al =
     (let (root, al) = cJSON_CreateObject ops al in do {
       let (body, al) = cJSON_CreateObject ops al;
       (body, al) \<leftarrow> cJSON_AddStringToObject ops body ''requestId'' requestid al;
       (body, al) \<leftarrow> cJSON_AddStringToObject ops body ''serviceId'' serviceid al;
       (body, al) \<leftarrow> cJSON_AddStringToObject ops body ''method'' method al;
       let (cmdContent, al) = cJSON_CreateObject ops al;
       (cmdContent, al) \<leftarrow> cJSON_AddNumberToObject ops cmdContent ''remote_permit'' (dlit ops remote_permit) al;
       (body, al) \<leftarrow> cJSON_AddItemToObject body ''cmdContent'' cmdContent al;
       (root, al) \<leftarrow> cJSON_AddItemToObject root ''body'' body al;
       (root, al) \<leftarrow> cJSON_AddStringToObject ops root ''token'' token al;
       (root, al) \<leftarrow> cJSON_AddStringToObject ops root ''timestamp'' timestamp al;
       print_into ops buf root al })"

text \<open>The loop over the settings, given the array built so far.\<close>

function setting_loop :: "'d dops \<Rightarrow> string list \<Rightarrow> string list \<Rightarrow> string list \<Rightarrow> int \<Rightarrow> int \<Rightarrow> 'd cJSON option \<Rightarrow> alloc
    \<Rightarrow> ('d cJSON option \<times> alloc) option" where
  "setting_loop ops name val dataType len i body_inner al =
     (if i < len then
        (let (body_inner_item, al) = cJSON_CreateObject ops al in do {
           n \<leftarrow> aget name (nat i);
           (body_inner_item, al) \<leftarrow> cJSON_AddStringToObject ops body_inner_item ''name'' n al;
           v \<leftarrow> aget val (nat i);
           (body_inner_item, al) \<leftarrow> cJSON_AddStringToObject ops body_inner_item ''val'' v al;
           t \<leftarrow> aget dataType (nat i);
           (body_inner_item, al) \<leftarrow> cJSON_AddStringToObject ops body_inner_item ''dataType'' t al;
           body_inner \<leftarrow> cJSON_AddItemToArray body_inner body_inner_item;
           setting_loop ops name val dataType len (i + 1) body_inner al })
      else Some (body_inner, al))"
  by pat_completeness auto
termination
  by (relation "measure (\<lambda>(ops, name, val, dataType, len, i, b, al). nat (len - i))") auto

declare setting_loop.simps [simp del]

definition build_json_set_constant_value ::
    "'d dops \<Rightarrow> string \<Rightarrow> string \<Rightarrow> string \<Rightarrow> string \<Rightarrow> string list \<Rightarrow> string list \<Rightarrow> string list \<Rightarrow> int \<Rightarrow> alloc \<Rightarrow> built" where
  "build_json_set_constant_value ops buf token timestamp device name val dataType len al =
     (let (root, al) = cJSON_CreateObject ops al in do {
       (root, al) \<leftarrow> cJSON_AddStringToObject ops root ''token'' token al;
       (root, al) \<leftarrow> cJSON_AddStringToObject ops root ''timestamp'' timestamp al;
       let (body_outer, al) = cJSON_CreateArray ops al;
       let (body_outer_item, al) = cJSON_CreateObject ops al;
       (body_outer_item, al) \<leftarrow> cJSON_AddStringToObject ops body_outer_item ''dev'' device al;
       let (body_inner, al) = cJSON_CreateArray ops al;
       (body_inner, al) \<leftarrow> setting_loop ops name val dataType len 0 body_inner al;
       (body_outer_item, al) \<leftarrow> cJSON_AddItemToObject body_outer_item ''body'' body_inner al;
       body_outer \<leftarrow> cJSON_AddItemToArray body_outer body_outer_item;
       (root, al) \<leftarrow> cJSON_AddItemToObject root ''body'' body_outer al;
       print_into ops buf root al })"

section \<open>The objects the builders make\<close>

definition jobj :: "'d dops \<Rightarrow> cptr \<Rightarrow> 'd cJSON list \<Rightarrow> 'd cJSON" where
  "jobj ops k cs = Item cJSON_Object None 0 (dlit ops 0) k cs"

definition jarr :: "'d dops \<Rightarrow> cptr \<Rightarrow> 'd cJSON list \<Rightarrow> 'd cJSON" where
  "jarr ops k cs = Item cJSON_Array None 0 (dlit ops 0) k cs"

definition jstr :: "'d dops \<Rightarrow> string \<Rightarrow> string \<Rightarrow> 'd cJSON" where
  "jstr ops k s = Item cJSON_String (Some s) 0 (dlit ops 0) (Some k) []"

definition jnum :: "'d dops \<Rightarrow> string \<Rightarrow> int \<Rightarrow> 'd cJSON" where
  "jnum ops k n = Item cJSON_Number None (dint ops (dlit ops n)) (dlit ops n) (Some k) []"

named_theorems build_simps \<open>the calls of a builder when no allocation fails\<close>

lemma create_simps [build_simps]:
  "cJSON_CreateObject ops [] = (Some (jobj ops None []), [])"
  "cJSON_CreateArray ops [] = (Some (jarr ops None []), [])"
  by (simp_all add: cJSON_CreateObject_def cJSON_CreateArray_def create_item_def cJSON_New_Item.simps
      item0_def set_type_def jobj_def jarr_def)

lemma add_simps [build_simps]:
  "cJSON_AddStringToObject ops (Some (jobj ops k cs)) n s [] = Some (Some (jobj ops k (cs @ [jstr ops n s])), [])"
  "cJSON_AddNumberToObject ops (Some (jobj ops k cs)) n (dlit ops i) [] = Some (Some (jobj ops k (cs @ [jnum ops n i])), [])"
  "cJSON_AddItemToObject (Some (jobj ops k cs)) n (Some (jobj ops None ds)) [] =
     Some (Some (jobj ops k (cs @ [jobj ops (Some n) ds])), [])"
  "cJSON_AddItemToObject (Some (jobj ops k cs)) n (Some (jarr ops None ds)) [] =
     Some (Some (jobj ops k (cs @ [jarr ops (Some n) ds])), [])"
  "cJSON_AddItemToArray (Some (jarr ops k cs)) (Some c) = Some (Some (jarr ops k (cs @ [c])))"
  by (simp_all add: cJSON_AddStringToObject_def cJSON_AddNumberToObject_def cJSON_AddItemToObject_def
      cJSON_AddItemToArray_def cJSON_CreateString_def cJSON_CreateNumber_def cJSON_New_Item.simps item0_def
      set_name_def set_children_def jobj_def jarr_def jstr_def jnum_def)

definition settings :: "'d dops \<Rightarrow> string list \<Rightarrow> string list \<Rightarrow> string list \<Rightarrow> 'd cJSON list" where
  "settings ops ns vs ts =
     map (\<lambda>(n, v, t). jobj ops None [jstr ops ''name'' n, jstr ops ''val'' v, jstr ops ''dataType'' t]) (zip ns (zip vs ts))"

lemma setting_loop_ok:
  assumes "length vs = length ns" "length ts = length ns"
  shows "0 \<le> i \<Longrightarrow> i \<le> int (length ns) \<Longrightarrow>
    setting_loop ops ns vs ts (int (length ns)) i (Some (jarr ops k cs)) [] =
    Some (Some (jarr ops k (cs @ settings ops (drop (nat i) ns) (drop (nat i) vs) (drop (nat i) ts))), [])"
proof (induction "nat (int (length ns) - i)" arbitrary: i cs)
  case 0
  then show ?case by (subst setting_loop.simps) (simp add: settings_def)
next
  case (Suc n)
  then have i: "i < int (length ns)" "nat i < length ns" by auto
  have d: "drop (nat i) xs = xs ! nat i # drop (Suc (nat i)) xs" if "length xs = length ns" for xs :: "string list"
    using i(2) that by (simp add: Cons_nth_drop_Suc)
  have s: "settings ops (drop (nat i) ns) (drop (nat i) vs) (drop (nat i) ts) =
      jobj ops None [jstr ops ''name'' (ns ! nat i), jstr ops ''val'' (vs ! nat i), jstr ops ''dataType'' (ts ! nat i)] #
      settings ops (drop (Suc (nat i)) ns) (drop (Suc (nat i)) vs) (drop (Suc (nat i)) ts)"
    by (simp add: settings_def d assms)
  have "nat (i + 1) = Suc (nat i)" using Suc.prems by simp
  moreover have "n = nat (int (length ns) - (i + 1))" using Suc.hyps(2) by simp
  ultimately show ?case
    using i Suc.prems Suc.hyps(1)[of "i + 1"] s assms by (subst setting_loop.simps) (simp add: build_simps array_simps)
qed

text \<open>A root item is printed and its text copied over the start of the buffer.\<close>

lemma print_into_ok:
  assumes "fmt_bounded ops" "printable root" "int_values root"
  shows "print_into ops buf (Some root) [] =
    map_option (\<lambda>b. (0, b, [])) (memcpy_text buf (json_text ops True 0 root))"
  using print_value_prints(1)[OF assms, of "[]" 0 True]
  by (auto simp: print_into_def cJSON_Print_def prints_def memcpy_text_def)

lemma and_255 [simp]:
  "cJSON_Object AND 255 = cJSON_Object" "cJSON_Array AND 255 = cJSON_Array"
  "cJSON_String AND 255 = cJSON_String" "cJSON_Number AND 255 = cJSON_Number"
  by (simp_all add: cJSON_types)

lemma storable_simps:
  "storable ops (jobj ops k cs) \<longleftrightarrow> (\<forall>c \<in> set cs. jname c \<noteq> None \<and> NUL \<notin> set (the (jname c)) \<and> storable ops c)"
  "storable ops (jarr ops k cs) \<longleftrightarrow> (\<forall>c \<in> set cs. storable ops c)"
  "storable ops (jstr ops n s) \<longleftrightarrow> NUL \<notin> set s"
  "exact_ints ops \<Longrightarrow> INT_MIN \<le> i \<Longrightarrow> i \<le> INT_MAX \<Longrightarrow> storable ops (jnum ops n i)"
  "jname (jobj ops k cs) = k" "jname (jarr ops k cs) = k" "jname (jstr ops n s) = Some n" "jname (jnum ops n i) = Some n"
  by (auto simp: jobj_def jarr_def jstr_def jnum_def exact_int) (auto simp: cJSON_types INT_MIN_def INT_MAX_def)

lemma print_into_storable:
  assumes "fmt_bounded ops" "storable ops root"
  shows "print_into ops buf (Some root) [] = map_option (\<lambda>b. (0, b, [])) (memcpy_text buf (json_text ops True 0 root))"
  using print_into_ok[OF assms(1)] storable_printable[OF assms(2)] by blast

lemma printable_simps:
  "printable (jobj ops k cs) \<longleftrightarrow> (\<forall>c \<in> set cs. jname c \<noteq> None \<and> printable c)"
  "printable (jarr ops k cs) \<longleftrightarrow> (\<forall>c \<in> set cs. printable c)"
  "printable (jstr ops n s)" "printable (jnum ops n i)"
  "int_values (jobj ops k cs) \<longleftrightarrow> (\<forall>c \<in> set cs. int_values c)"
  "int_values (jarr ops k cs) \<longleftrightarrow> (\<forall>c \<in> set cs. int_values c)"
  "int_values (jstr ops n s)"
  "exact_ints ops \<Longrightarrow> INT_MIN \<le> i \<Longrightarrow> i \<le> INT_MAX \<Longrightarrow> int_values (jnum ops n i)"
  by (auto simp: jobj_def jarr_def jstr_def jnum_def exact_int) (auto simp: cJSON_types INT_MIN_def INT_MAX_def)

lemma settings_printable: "c \<in> set (settings ops ns vs ts) \<Longrightarrow> printable c \<and> int_values c"
  by (auto simp: settings_def printable_simps storable_simps)

text \<open>What a builder leaves: 0 and the buffer with the text at its start, if it fits.\<close>

definition sent :: "'d dops \<Rightarrow> string \<Rightarrow> 'd cJSON \<Rightarrow> built" where
  "sent ops buf root = map_option (\<lambda>b. (0, b, [])) (memcpy_text buf (json_text ops True 0 root))"

lemma print_into_sent:
  "fmt_bounded ops \<Longrightarrow> printable root \<Longrightarrow> int_values root \<Longrightarrow> print_into ops buf (Some root) [] = sent ops buf root"
  by (simp add: print_into_ok sent_def)

text \<open>
  Without a failed allocation every builder returns 0 and copies to its buffer the
  formatted text of the object its protocol comment describes, with each argument under
  its key, in order (undefined when the buffer is shorter than the text).
\<close>

theorem builders_send:
  assumes "exact_ints ops" "fmt_bounded ops" "INT_MIN \<le> m" "m \<le> INT_MAX" "INT_MIN \<le> n" "n \<le> INT_MAX"
    "INT_MIN \<le> p" "p \<le> INT_MAX" "length vs = length ns" "length ts = length ns"
  shows
   "bulid_json_app_nitify_host ops buf a b c d e f g [] = sent ops buf (jobj ops None
      [jstr ops ''token'' a, jstr ops ''timestamp'' b, jobj ops (Some ''body'')
        [jstr ops ''serviceid'' c, jobj ops (Some ''serviceProperties'')
          [jstr ops ''Dir'' d, jstr ops ''filename'' e, jstr ops ''fileType'' f, jstr ops ''compress'' g]]]) \<and>
    build_json_IOT_notifi_host ops buf a b c m d e n f g h [] = sent ops buf (jobj ops None
      [jstr ops ''deviceId'' a, jstr ops ''serviceId'' b, jstr ops ''eventTime'' c, jnum ops ''expire'' m,
       jobj ops (Some ''data'') [jstr ops ''name'' d, jstr ops ''addr'' e, jnum ops ''size'' n, jstr ops ''md5'' f,
         jstr ops ''fileType'' g, jstr ops ''compress'' h]]) \<and>
    build_json_host_to_IOT ops buf a m b c d e [] = sent ops buf (jobj ops None
      [jstr ops ''msgType'' a, jnum ops ''mid'' m, jstr ops ''cmd'' b, jobj ops (Some ''paras'') [jstr ops ''A_phsC'' c],
       jstr ops ''deviceId'' e, jstr ops ''serviceId'' d]) \<and>
    build_json_IOT_to_app ops buf a b c d e f [] = sent ops buf (jobj ops None
      [jobj ops (Some ''body'') [jstr ops ''requestId'' a, jstr ops ''serviceId'' b, jstr ops ''method'' c,
         jobj ops (Some ''cmdContent'') [jstr ops ''pic_id'' d]],
       jstr ops ''token'' e, jstr ops ''timestamp'' f]) \<and>
    build_json_app_to_IOT ops buf a b c d e [] = sent ops buf (jobj ops None
      [jobj ops (Some ''body'') [jstr ops ''requestId'' a, jstr ops ''serviceId'' b,
         jobj ops (Some ''serviceProperties'') [jstr ops ''pic_id'' c]],
       jstr ops ''token'' d, jstr ops ''timestamp'' e]) \<and>
    cloud_edge_platform_to_terminal ops buf a m b n c d [] = sent ops buf (jobj ops None
      [jstr ops ''msgType'' a, jnum ops ''mid'' m, jstr ops ''cmd'' b, jobj ops (Some ''paras'') [jnum ops ''remote_permit'' n],
       jstr ops ''deviceId'' d, jstr ops ''serviceId'' c]) \<and>
    cloud_edge_terminal_to_platform ops buf a m n p [] = sent ops buf (jobj ops None
      [jstr ops ''msgType'' a, jnum ops ''mid'' m, jnum ops ''errcode'' n, jobj ops (Some ''body'') [jnum ops ''remote_permit'' p]]) \<and>
    build_json_edge_interaction ops buf a b c m d e [] = sent ops buf (jobj ops None
      [jobj ops (Some ''body'') [jstr ops ''requestId'' a, jstr ops ''serviceId'' b, jstr ops ''method'' c,
         jobj ops (Some ''cmdContent'') [jnum ops ''remote_permit'' m]],
       jstr ops ''token'' d, jstr ops ''timestamp'' e]) \<and>
    build_json_set_constant_value ops buf a b c ns vs ts (int (length ns)) [] = sent ops buf (jobj ops None
      [jstr ops ''token'' a, jstr ops ''timestamp'' b, jarr ops (Some ''body'')
        [jobj ops None [jstr ops ''dev'' c, jarr ops (Some ''body'') (settings ops ns vs ts)]]])"
proof -
  note defs = bulid_json_app_nitify_host_def build_json_IOT_notifi_host_def build_json_host_to_IOT_def
    build_json_IOT_to_app_def build_json_app_to_IOT_def cloud_edge_platform_to_terminal_def
    cloud_edge_terminal_to_platform_def build_json_edge_interaction_def build_json_set_constant_value_def
  note ints = printable_simps(8)[OF assms(1,3,4)] printable_simps(8)[OF assms(1,5,6)] printable_simps(8)[OF assms(1,7,8)]
  note loop = setting_loop_ok[OF assms(9,10), of 0]
  show ?thesis
    by (intro conjI; simp add: defs build_simps loop; rule print_into_sent[OF assms(2)])
       (auto simp: printable_simps storable_simps ints settings_printable)
qed

theorem builders_send_witness:
  "cloud_edge_terminal_to_platform int_doubles (replicate 99 NUL) ''rsp'' 7 0 1 [] =
     sent int_doubles (replicate 99 NUL) (jobj int_doubles None [jstr int_doubles ''msgType'' ''rsp'', jnum int_doubles ''mid'' 7,
        jnum int_doubles ''errcode'' 0, jobj int_doubles (Some ''body'') [jnum int_doubles ''remote_permit'' 1]])"
  using builders_send[OF exact_int_doubles fmt_bounded_int_doubles, of 7 0 1 "[]" "[]" "[]" "replicate 99 NUL" "''rsp''"]
  by (simp add: INT_MIN_def INT_MAX_def)

subsection \<open>Reading a message back\<close>

lemma escape_char_no_NUL: "c \<noteq> NUL \<Longrightarrow> NUL \<notin> set (escape_char c)"
proof -
  have digit: "digit_char d \<noteq> NUL" if "d < 16" for d
    using of_char_digit16[OF that] by (auto simp: NUL_def split: if_splits)
  have "of_char c div 16 < (16 :: nat)" using nat_of_char_less_256[of c] by (simp add: div_less_iff_less_mult)
  from digit[OF this] digit[of "of_char c mod 16"] have "NUL \<notin> set (hex4 c)"
    by (auto simp: hex4_def) (auto simp: NUL_def)
  moreover assume "c \<noteq> NUL"
  ultimately show ?thesis by (auto simp: escape_char_def char_names)
qed

lemma quoted_no_NUL:
  assumes "NUL \<notin> set s"
  shows "NUL \<notin> set (quoted s)"
proof -
  have "NUL \<notin> set (concat (map escape_char s))" using assms escape_char_no_NUL by auto metis
  moreover have "DQUOTE \<noteq> NUL" by (simp add: char_names)
  ultimately show ?thesis by (auto simp: quoted_def)
qed

lemma int_dec_no_NUL: "NUL \<notin> set (int_dec i)"
proof
  assume "NUL \<in> set (int_dec i)"
  then have "is_digit NUL" using nat_dec_is_digit by (auto simp: int_dec_def char_names split: if_splits)
  then show False by (simp add: is_digit_def NUL_def)
qed

lemma join_no_NUL:
  "\<forall>e \<in> set es. NUL \<notin> set e \<Longrightarrow> NUL \<notin> set (join_array fmt es)"
  "\<forall>(k, v) \<in> set ms. NUL \<notin> set k \<and> NUL \<notin> set v \<Longrightarrow> NUL \<notin> set (join_object fmt d ms)"
proof -
  show "\<forall>e \<in> set es. NUL \<notin> set e \<Longrightarrow> NUL \<notin> set (join_array fmt es)"
    by (induction fmt es rule: join_array.induct) (auto simp: char_names)
  show "\<forall>(k, v) \<in> set ms. NUL \<notin> set k \<and> NUL \<notin> set v \<Longrightarrow> NUL \<notin> set (join_object fmt d ms)"
    by (induction ms) (auto simp: tabs_def char_names split: if_splits)
qed

lemma json_text_no_NUL: "exact_ints ops \<Longrightarrow> storable ops item \<Longrightarrow> NUL \<notin> set (json_text ops fmt d item)"
proof (induction item arbitrary: d)
  case (Item t vs vi vd nm cs)
  have ty: "0 \<le> t AND 255" "t AND 255 \<le> 6" using Item.prems by auto
  have kids: "\<forall>c \<in> set cs. NUL \<notin> set (json_text ops fmt (d + 1) c)" using Item by auto
  from ty show ?case
  proof (cases rule: type_cases)
    case object
    then have "\<forall>(k, v) \<in> set (map (\<lambda>c. (quoted (the (jname c)), json_text ops fmt (d + 1) c)) cs). NUL \<notin> set k \<and> NUL \<notin> set v"
      using kids Item.prems quoted_no_NUL by auto
    from join_no_NUL(2)[OF this, of fmt "d + 1"] object show ?thesis
      by (auto simp: cJSON_types tabs_def) (auto simp: char_names)
  next
    case array
    with join_no_NUL(1)[of "map (json_text ops fmt (d + 1)) cs" fmt] kids show ?thesis
      by (auto simp: cJSON_types) (auto simp: char_names)
  qed (use Item.prems quoted_no_NUL int_dec_no_NUL num_text_int[of ops vi] in \<open>auto simp: cJSON_types\<close>, auto simp: char_names)
qed

lemma cstr_zeroed: "NUL \<notin> set w \<Longrightarrow> length w < n \<Longrightarrow> cstr (w @ drop (length w) (replicate n NUL)) = w"
proof -
  assume "NUL \<notin> set w" "length w < n"
  moreover have "takeWhile (\<lambda>c. c \<noteq> NUL) (replicate k NUL) = []" for k by (cases k) auto
  ultimately show ?thesis by (auto simp: cstr_def takeWhile_append)
qed

lemma sent_read:
  assumes "exact_ints ops" "storable ops root" "length (json_text ops True 0 root) < n"
  shows "\<exists>buf'. sent ops (replicate n NUL) root = Some (0, buf', []) \<and>
     cJSON_Parse ops (cstr buf') [] = (POk (reparsed ops None root) [], [])"
  using assms(3) json_text_read[OF assms(1,2)] cstr_zeroed[OF json_text_no_NUL[OF assms(1,2)] assms(3)]
  by (simp add: sent_def memcpy_text_def)

lemma reparsed_simps:
  "reparsed ops k (jobj ops k' cs) = jobj ops k (map (\<lambda>c. reparsed ops (jname c) c) cs)"
  "reparsed ops k (jarr ops k' cs) = jarr ops k (map (reparsed ops None) cs)"
  "reparsed ops (Some n) (jstr ops n s) = jstr ops n s"
  "reparsed ops (Some n) (jnum ops n i) = jnum ops n i"
  by (simp_all add: jobj_def jarr_def jstr_def jnum_def) (simp_all add: cJSON_types)

text \<open>A key is looked up among the names of the members, without regard to case.\<close>

lemma get_jobj:
  "cJSON_GetObjectItem (jobj ops k (c # cs)) (Some n) =
     (if cJSON_strcasecmp (jname c) (Some n) = 0 then Some c else cJSON_GetObjectItem (jobj ops k cs) (Some n))"
  by (simp add: cJSON_GetObjectItem_def jobj_def)

definition string_field :: "'d cJSON \<Rightarrow> string \<Rightarrow> cptr option" where
  "string_field obj k = map_option valuestring (cJSON_GetObjectItem obj (Some k))"

lemma fields:
  "valuestring (jstr ops k s) = Some s" "valueint (jnum ops k i) = dint ops (dlit ops i)"
  by (simp_all add: jstr_def jnum_def)

lemma command_keys:
  "list_all (\<lambda>(a, b). cJSON_strcasecmp (Some a) (Some b) \<noteq> 0)
     [(''msgType'', ''mid''), (''msgType'', ''cmd''), (''msgType'', ''paras''), (''msgType'', ''deviceId''), (''msgType'', ''serviceId''),
      (''mid'', ''cmd''), (''mid'', ''paras''), (''mid'', ''deviceId''), (''mid'', ''serviceId''),
      (''cmd'', ''paras''), (''cmd'', ''deviceId''), (''cmd'', ''serviceId''),
      (''paras'', ''deviceId''), (''paras'', ''serviceId''), (''deviceId'', ''serviceId'')]"
  by code_simp

lemma strcasecmp_refl: "cJSON_strcasecmp (Some a) (Some a) = 0"
  unfolding cJSON_strcasecmp_def by (induction a) simp_all

lemma command_fields:
  fixes ops t m c p d s
  defines "root \<equiv> jobj ops None [jstr ops ''msgType'' t, jnum ops ''mid'' m, jstr ops ''cmd'' c,
    jobj ops (Some ''paras'') [jstr ops ''A_phsC'' p], jstr ops ''deviceId'' d, jstr ops ''serviceId'' s]"
  shows "cJSON_GetObjectItem root (Some ''msgType'') = Some (jstr ops ''msgType'' t)"
    "cJSON_GetObjectItem root (Some ''mid'') = Some (jnum ops ''mid'' m)"
    "cJSON_GetObjectItem root (Some ''cmd'') = Some (jstr ops ''cmd'' c)"
    "cJSON_GetObjectItem root (Some ''paras'') = Some (jobj ops (Some ''paras'') [jstr ops ''A_phsC'' p])"
    "cJSON_GetObjectItem root (Some ''deviceId'') = Some (jstr ops ''deviceId'' d)"
    "cJSON_GetObjectItem root (Some ''serviceId'') = Some (jstr ops ''serviceId'' s)"
  using command_keys unfolding root_def get_jobj storable_simps(5-8) by (simp_all add: strcasecmp_refl)

text \<open>
  C30. A command message arrives as it was sent. \<^verbatim>\<open>build_json_host_to_IOT\<close> on a zeroed
  buffer longer than the text returns 0, and \<^verbatim>\<open>cJSON_Parse\<close> on the buffer yields an object
  in which \<^verbatim>\<open>cJSON_GetObjectItem\<close> finds every argument under its key.
\<close>

theorem build_json_roundtrip:
  assumes ops: "exact_ints ops" "fmt_bounded ops" and mid: "INT_MIN \<le> mid" "mid \<le> INT_MAX"
    and strs: "NUL \<notin> set msg_type" "NUL \<notin> set cmd" "NUL \<notin> set param" "NUL \<notin> set serviceid" "NUL \<notin> set deviceid"
    and room: "length (json_text ops True 0 (jobj ops None
      [jstr ops ''msgType'' msg_type, jnum ops ''mid'' mid, jstr ops ''cmd'' cmd, jobj ops (Some ''paras'') [jstr ops ''A_phsC'' param],
       jstr ops ''deviceId'' deviceid, jstr ops ''serviceId'' serviceid])) < n"
  shows "\<exists>buf' msg paras.
    build_json_host_to_IOT ops (replicate n NUL) msg_type mid cmd param serviceid deviceid [] = Some (0, buf', []) \<and>
    cJSON_Parse ops (cstr buf') [] = (POk msg [], []) \<and>
    string_field msg ''msgType'' = Some (Some msg_type) \<and>
    map_option valueint (cJSON_GetObjectItem msg (Some ''mid'')) = Some mid \<and>
    string_field msg ''cmd'' = Some (Some cmd) \<and>
    cJSON_GetObjectItem msg (Some ''paras'') = Some paras \<and> string_field paras ''A_phsC'' = Some (Some param) \<and>
    string_field msg ''deviceId'' = Some (Some deviceid) \<and> string_field msg ''serviceId'' = Some (Some serviceid)"
proof -
  let ?root = "jobj ops None
      [jstr ops ''msgType'' msg_type, jnum ops ''mid'' mid, jstr ops ''cmd'' cmd, jobj ops (Some ''paras'') [jstr ops ''A_phsC'' param],
       jstr ops ''deviceId'' deviceid, jstr ops ''serviceId'' serviceid]"
  have st: "storable ops ?root"
    using strs storable_simps(4)[OF ops(1) mid] by (auto simp: storable_simps char_names)
  have built: "build_json_host_to_IOT ops (replicate n NUL) msg_type mid cmd param serviceid deviceid [] =
      sent ops (replicate n NUL) ?root"
    using print_into_storable[OF ops(2) st, of "replicate n NUL"]
    by (simp add: build_json_host_to_IOT_def build_simps sent_def)
  obtain buf' where b: "sent ops (replicate n NUL) ?root = Some (0, buf', [])"
    "cJSON_Parse ops (cstr buf') [] = (POk (reparsed ops None ?root) [], [])"
    using sent_read[OF ops(1) st room] by blast
  have "reparsed ops None ?root = ?root" by (simp add: reparsed_simps storable_simps)
  moreover have "cJSON_GetObjectItem (jobj ops (Some ''paras'') [jstr ops ''A_phsC'' param]) (Some ''A_phsC'') = Some (jstr ops ''A_phsC'' param)"
    by (simp add: get_jobj storable_simps strcasecmp_refl)
  ultimately show ?thesis
    using b built exact_int[OF ops(1) mid]
    by (intro exI[of _ buf'] exI[of _ ?root] exI[of _ "jobj ops (Some ''paras'') [jstr ops ''A_phsC'' param]"] conjI)
       (simp_all add: string_field_def command_fields fields)
qed

theorem build_json_roundtrip_witness:
  "\<exists>buf' msg. build_json_host_to_IOT int_doubles (replicate 300 NUL) ''t'' 5 ''c'' ''p'' ''s'' ''d'' [] = Some (0, buf', []) \<and>
    cJSON_Parse int_doubles (cstr buf') [] = (POk msg [], []) \<and>
    map_option valueint (cJSON_GetObjectItem msg (Some ''mid'')) = Some 5"
proof -
  have "INT_MIN \<le> 5" "5 \<le> INT_MAX" by (simp_all add: INT_MIN_def INT_MAX_def)
  moreover have "NUL \<notin> set ''t''" "NUL \<notin> set ''c''" "NUL \<notin> set ''p''" "NUL \<notin> set ''s''" "NUL \<notin> set ''d''"
    by (simp_all add: NUL_def)
  moreover have "length (json_text int_doubles True 0 (jobj int_doubles None
      [jstr int_doubles ''msgType'' ''t'', jnum int_doubles ''mid'' 5, jstr int_doubles ''cmd'' ''c'',
       jobj int_doubles (Some ''paras'') [jstr int_doubles ''A_phsC'' ''p''],
       jstr int_doubles ''deviceId'' ''d'', jstr int_doubles ''serviceId'' ''s''])) < 300"
    by code_simp
  ultimately show ?thesis
    using build_json_roundtrip[OF exact_int_doubles fmt_bounded_int_doubles, of 5 "''t''" "''c''" "''p''" "''s''" "''d''" 300] by blast
qed

text \<open>
  The builders do not terminate the text they copy and do not check their
  allocations. In a buffer of other bytes the message runs on into them: read as a
  string it is the text followed by the rest of the old contents. And when the object
  itself cannot be allocated the first member is added to a NULL object.
\<close>

theorem build_json_faults:
  assumes "exact_ints ops" "fmt_bounded ops" "INT_MIN \<le> mid" "mid \<le> INT_MAX" "INT_MIN \<le> e" "e \<le> INT_MAX"
    "INT_MIN \<le> p" "p \<le> INT_MAX" "NUL \<notin> set t" "NUL \<notin> set buf"
  defines "w \<equiv> json_text ops True 0 (jobj ops None [jstr ops ''msgType'' t, jnum ops ''mid'' mid, jnum ops ''errcode'' e,
      jobj ops (Some ''body'') [jnum ops ''remote_permit'' p]])"
  shows "(length w \<le> length buf \<longrightarrow>
     (\<exists>buf'. cloud_edge_terminal_to_platform ops buf t mid e p [] = Some (0, buf', []) \<and>
        cstr buf' = w @ drop (length w) buf)) \<and>
    cloud_edge_terminal_to_platform ops buf t mid e p [False] = None"
proof -
  let ?root = "jobj ops None [jstr ops ''msgType'' t, jnum ops ''mid'' mid, jnum ops ''errcode'' e,
      jobj ops (Some ''body'') [jnum ops ''remote_permit'' p]]"
  have st: "storable ops ?root"
    using assms(9) storable_simps(4)[OF assms(1,3,4)] storable_simps(4)[OF assms(1,5,6)] storable_simps(4)[OF assms(1,7,8)]
    by (auto simp: storable_simps char_names)
  have "cloud_edge_terminal_to_platform ops buf t mid e p [] = sent ops buf ?root"
    using print_into_storable[OF assms(2) st, of buf]
    by (simp add: cloud_edge_terminal_to_platform_def build_simps sent_def)
  moreover have "cstr (w @ drop (length w) buf) = w @ drop (length w) buf"
    unfolding cstr_def using json_text_no_NUL[OF assms(1) st, of True 0] assms(10) unfolding w_def[symmetric]
    by (intro takeWhile_eq_all_conv[THEN iffD2]) (auto dest: in_set_dropD)
  moreover have "cloud_edge_terminal_to_platform ops buf t mid e p [False] = None"
    by (simp add: cloud_edge_terminal_to_platform_def cJSON_CreateObject_def create_item_def cJSON_New_Item.simps
        cJSON_AddStringToObject_def cJSON_CreateString_def cJSON_AddItemToObject_def cJSON_AddItemToArray_def)
  ultimately show ?thesis by (simp add: sent_def memcpy_text_def w_def)
qed

theorem build_json_faults_witness:
  "cloud_edge_terminal_to_platform int_doubles ''x'' ''t'' 1 2 3 [False] = None"
  using build_json_faults[OF exact_int_doubles fmt_bounded_int_doubles, of 1 2 3 "''t''" "''x''"]
  by (simp add: INT_MIN_def INT_MAX_def NUL_def)

end
