(* ===== verification/CJsonBuffer.thy ===== *)
theory CJsonBuffer
  imports CJsonRoundtrip
begin

text \<open>
  Printing into one growing buffer: \<^verbatim>\<open>cJSON_PrintBuffered\<close> and the branches of the print
  functions that are given a \<^verbatim>\<open>printbuffer\<close>. The buffer is a list of bytes, none where a byte
  was never written; a position in it stands for a pointer. \<^const>\<open>None\<close> as a result is
  undefined behaviour: a write outside the buffer, an overflow of \<^verbatim>\<open>int\<close>, or \<^verbatim>\<open>strlen\<close> of
  bytes that were never written.
\<close>

section \<open>The buffer\<close>

record printbuffer =
  pbuf :: "char option list option"
  plen :: int
  poff :: int

type_synonym 'a printer = "printbuffer \<Rightarrow> alloc \<Rightarrow> ('a \<times> printbuffer \<times> alloc) option"

definition pow2gt :: "int \<Rightarrow> int option" where
  "pow2gt n =
     (let x0 = n - 1; x1 = x0 OR drop_bit 1 x0; x2 = x1 OR drop_bit 2 x1; x3 = x2 OR drop_bit 4 x2;
          x4 = x3 OR drop_bit 8 x3; x5 = x4 OR drop_bit 16 x4
      in if x5 + 1 \<le> INT_MAX then Some (x5 + 1) else None)"

definition ensure :: "int \<Rightarrow> nat option printer" where
  "ensure needed p al =
     (case pbuf p of
        None \<Rightarrow> Some (None, p, al)
      | Some b \<Rightarrow>
          (let n = needed + poff p in
           if n > INT_MAX then None
           else if n \<le> plen p then Some (Some (nat (poff p)), p, al)
           else do { newsize \<leftarrow> pow2gt n;
                     (let (ok, al') = malloc al in
                      if \<not> ok then Some (None, p\<lparr>plen := 0, pbuf := None\<rparr>, al')
                      else if 0 \<le> plen p \<and> plen p \<le> int (length b) \<and> plen p \<le> newsize
                      then Some (Some (nat (poff p)),
                             p\<lparr>plen := newsize, pbuf := Some (take (nat (plen p)) b @ replicate (nat (newsize - plen p)) None)\<rparr>, al')
                      else None) }))"

fun strlen_bytes :: "char option list \<Rightarrow> nat option" where
  "strlen_bytes [] = None"
| "strlen_bytes (None # bs) = None"
| "strlen_bytes (Some c # bs) = (if c = NUL then Some 0 else map_option Suc (strlen_bytes bs))"

definition update_offset :: "printbuffer \<Rightarrow> int option" where
  "update_offset p =
     (case pbuf p of
        None \<Rightarrow> Some 0
      | Some b \<Rightarrow> map_option (\<lambda>n. poff p + int n) (strlen_bytes (drop (nat (poff p)) b)))"

text \<open>Writing characters from a position on, and writing them where \<^verbatim>\<open>ensure\<close> made room.\<close>

definition poke :: "nat \<Rightarrow> string \<Rightarrow> printbuffer \<Rightarrow> printbuffer option" where
  "poke i w p =
     (case pbuf p of
        None \<Rightarrow> None
      | Some b \<Rightarrow> if i + length w \<le> length b then Some (p\<lparr>pbuf := Some (take i b @ map Some w @ drop (i + length w) b)\<rparr>) else None)"

definition put_buf :: "int \<Rightarrow> string \<Rightarrow> nat option printer" where
  "put_buf n w p al =
     do { (r, p1, al1) \<leftarrow> ensure n p al;
          (case r of None \<Rightarrow> Some (None, p1, al1)
           | Some i \<Rightarrow> do { p2 \<leftarrow> poke i w p1; Some (Some i, p2, al1) }) }"

definition advance :: "nat \<Rightarrow> printbuffer \<Rightarrow> printbuffer" where
  "advance n p = p\<lparr>poff := poff p + int n\<rparr>"

definition set_offset :: "printbuffer \<Rightarrow> printbuffer option" where
  "set_offset p = map_option (\<lambda>i. p\<lparr>poff := i\<rparr>) (update_offset p)"

text \<open>Writing a piece and moving the offset past it; False if there was no room.\<close>

definition append_buf :: "int \<Rightarrow> string \<Rightarrow> nat \<Rightarrow> bool printer" where
  "append_buf n w k p al =
     do { (r, p1, al1) \<leftarrow> put_buf n w p al;
          Some (if r = None then (False, p1, al1) else (True, advance k p1, al1)) }"

section \<open>Printing into it\<close>

definition print_number_buf :: "'d dops \<Rightarrow> 'd cJSON \<Rightarrow> nat option printer" where
  "print_number_buf ops item p al =
     (let d = valuedouble item in
      if deq ops d (dlit ops 0) then put_buf 2 (''0'' @ [NUL]) p al
      else if dle ops (dfabs ops (dsub ops (dlit ops (valueint item)) d)) (DBL_EPSILON ops) \<and>
              dle ops d (dlit ops INT_MAX) \<and> dle ops (dlit ops INT_MIN) d
      then put_buf 21 (int_dec (valueint item) @ [NUL]) p al
      else put_buf 64
             ((if dle ops (dfabs ops (dsub ops (dfloor ops d) d)) (DBL_EPSILON ops) \<and> dlt ops (dfabs ops d) (d1e60 ops)
               then fmt_0f ops d
               else if dlt ops (dfabs ops d) (d1em6 ops) \<or> dlt ops (d1e9 ops) (dfabs ops d) then fmt_e ops d
               else fmt_f ops d) @ [NUL]) p al)"

definition print_string_buf :: "cptr \<Rightarrow> nat option printer" where
  "print_string_buf str p al =
     (case str of
        None \<Rightarrow> None
      | Some s \<Rightarrow>
          if \<not> list_ex needs_escape s then put_buf (int (length s) + 3) (DQUOTE # s @ [DQUOTE, NUL]) p al
          else put_buf (int (sum_list (map escape_len s)) + 3) (DQUOTE # concat (map escape_char s) @ [DQUOTE, NUL]) p al)"

definition print_array_buf :: "bool printer \<Rightarrow> bool \<Rightarrow> nat option printer" where
  "print_array_buf elems none p al =
     (if none then put_buf 3 (''[]'' @ [NUL]) p al
      else do { (ok1, p1, al1) \<leftarrow> append_buf 1 ''['' 1 p al;
                if \<not> ok1 then Some (None, p1, al1)
                else do { (ok2, p2, al2) \<leftarrow> elems p1 al1;
                          if \<not> ok2 then Some (None, p2, al2)
                          else do { (r, p3, al3) \<leftarrow> put_buf 2 ('']'' @ [NUL]) p2 al2;
                                    Some (if r = None then None else Some (nat (poff p)), p3, al3) } } })"

definition elem_buf :: "nat option printer \<Rightarrow> bool printer \<Rightarrow> bool \<Rightarrow> bool \<Rightarrow> bool printer" where
  "elem_buf first rest is_last fmt p al =
     do { (r, p1, al1) \<leftarrow> first p al;
          p2 \<leftarrow> set_offset p1;
          if is_last then rest p2 al1
          else do { (ok, p3, al3) \<leftarrow> append_buf (if fmt then 3 else 2) ('','' @ (if fmt then '' '' else []) @ [NUL]) (if fmt then 2 else 1) p2 al1;
                    if ok then rest p3 al3 else Some (False, p3, al3) } }"

text \<open>
  Of an object the value returned is the buffer plus \<^verbatim>\<open>i\<close>, which the loop over the closing
  tabs has used as its counter when the output is formatted.
\<close>

definition print_object_buf :: "bool printer \<Rightarrow> bool \<Rightarrow> nat \<Rightarrow> bool \<Rightarrow> nat option printer" where
  "print_object_buf members none depth fmt p al =
     (if none then
        put_buf (if fmt then int depth + 4 else 3) (''{'' @ (if fmt then [LF] @ tabs (depth - 1) else []) @ ''}'' @ [NUL]) p al
      else do { (ok1, p1, al1) \<leftarrow> append_buf (if fmt then 3 else 2) (''{'' @ (if fmt then [LF] else []) @ [NUL]) (if fmt then 2 else 1) p al;
                if \<not> ok1 then Some (None, p1, al1)
                else do { (ok2, p2, al2) \<leftarrow> members p1 al1;
                          if \<not> ok2 then Some (None, p2, al2)
                          else do { (r, p3, al3) \<leftarrow> put_buf (if fmt then int depth + 2 else 2)
                                      ((if fmt then tabs depth else []) @ ''}'' @ [NUL]) p2 al2;
                                    Some (if r = None then None else Some (if fmt then depth else nat (poff p)), p3, al3) } } })"

definition member_buf :: "nat option printer \<Rightarrow> nat option printer \<Rightarrow> bool printer \<Rightarrow> bool \<Rightarrow> nat \<Rightarrow> bool \<Rightarrow> bool printer" where
  "member_buf name val rest is_last depth fmt p al =
     do { (ok1, p1, al1) \<leftarrow> (if fmt then append_buf (int depth) (tabs depth) depth p al else Some (True, p, al));
          if \<not> ok1 then Some (False, p1, al1)
          else do { (r2, p2, al2) \<leftarrow> name p1 al1;
                    p2' \<leftarrow> set_offset p2;
                    (ok3, p3, al3) \<leftarrow> append_buf (if fmt then 2 else 1) ('':'' @ (if fmt then [TAB] else [])) (if fmt then 2 else 1) p2' al2;
                    if \<not> ok3 then Some (False, p3, al3)
                    else do { (r4, p4, al4) \<leftarrow> val p3 al3;
                              p4' \<leftarrow> set_offset p4;
                              (let k = (if fmt then 1 else 0) + (if is_last then 0 else 1)
                               in do { (ok5, p5, al5) \<leftarrow> append_buf (int k + 1)
                                         ((if is_last then [] else '','') @ (if fmt then [LF, NUL] else [])) k p4' al4;
                                       if ok5 then rest p5 al5 else Some (False, p5, al5) }) } } }"

fun print_value_buf :: "'d dops \<Rightarrow> 'd cJSON \<Rightarrow> nat \<Rightarrow> bool \<Rightarrow> nat option printer"
  and print_elems_buf :: "'d dops \<Rightarrow> 'd cJSON list \<Rightarrow> nat \<Rightarrow> bool \<Rightarrow> bool printer"
  and print_members_buf :: "'d dops \<Rightarrow> 'd cJSON list \<Rightarrow> nat \<Rightarrow> bool \<Rightarrow> bool printer"
where
  "print_value_buf ops (Item t vs vi vd nm cs) depth fmt =
     (let t8 = t AND 255 in
      if t8 = cJSON_NULL then put_buf 5 (''null'' @ [NUL])
      else if t8 = cJSON_False then put_buf 6 (''false'' @ [NUL])
      else if t8 = cJSON_True then put_buf 5 (''true'' @ [NUL])
      else if t8 = cJSON_Number then print_number_buf ops (Item t vs vi vd nm cs)
      else if t8 = cJSON_String then print_string_buf vs
      else if t8 = cJSON_Array then print_array_buf (print_elems_buf ops cs (depth + 1) fmt) (cs = [])
      else if t8 = cJSON_Object then print_object_buf (print_members_buf ops cs (depth + 1) fmt) (cs = []) depth fmt
      else (\<lambda>p al. Some (None, p, al)))"
| "print_elems_buf ops [] depth fmt = (\<lambda>p al. Some (True, p, al))"
| "print_elems_buf ops (c # cs) depth fmt =
     elem_buf (print_value_buf ops c depth fmt) (print_elems_buf ops cs depth fmt) (cs = []) fmt"
| "print_members_buf ops [] depth fmt = (\<lambda>p al. Some (True, p, al))"
| "print_members_buf ops (c # cs) depth fmt =
     member_buf (print_string_buf (jname c)) (print_value_buf ops c depth fmt) (print_members_buf ops cs depth fmt) (cs = []) depth fmt"

text \<open>The text at the address returned.\<close>

definition text_at :: "printbuffer \<Rightarrow> nat \<Rightarrow> string option" where
  "text_at p i =
     do { b \<leftarrow> pbuf p; n \<leftarrow> strlen_bytes (drop i b); Some (map the (take n (drop i b))) }"

definition cJSON_PrintBuffered :: "'d dops \<Rightarrow> 'd cJSON \<Rightarrow> int \<Rightarrow> bool \<Rightarrow> alloc \<Rightarrow> printed" where
  "cJSON_PrintBuffered ops item prebuffer fmt al =
     (let (ok, al1) = malloc al;
          p = \<lparr>pbuf = (if ok then Some (replicate (nat (prebuffer mod 2 ^ 64)) None) else None), plen = prebuffer, poff = 0\<rparr>
      in do { (r, p1, al2) \<leftarrow> print_value_buf ops item 0 fmt p al1;
              (case r of None \<Rightarrow> Some (None, al2)
               | Some i \<Rightarrow> do { t \<leftarrow> text_at p1 i; Some (Some t, al2) }) })"

section \<open>The buffer holds what was printed\<close>

definition LIMIT :: nat where "LIMIT = 2 ^ 30"

text \<open>The buffer exists, its recorded size is its size, it starts with \<^verbatim>\<open>t\<close> and its offset is at \<^verbatim>\<open>k\<close>.\<close>

definition buf_holds :: "printbuffer \<Rightarrow> string \<Rightarrow> nat \<Rightarrow> bool" where
  "buf_holds p t k \<longleftrightarrow>
     (\<exists>b. pbuf p = Some b \<and> plen p = int (length b) \<and> poff p = int k \<and> length t \<le> length b \<and> take (length t) b = map Some t)"

text \<open>A step ends as \<^verbatim>\<open>Q\<close> says, or, if an allocation failed, without a buffer and with a result in \<^verbatim>\<open>F\<close>.\<close>

definition prints_buf :: "alloc \<Rightarrow> ('a \<times> printbuffer \<times> alloc) option \<Rightarrow> ('a \<Rightarrow> bool) \<Rightarrow> ('a \<Rightarrow> printbuffer \<Rightarrow> bool) \<Rightarrow> bool" where
  "prints_buf al r F Q \<longleftrightarrow>
     (\<exists>x p' al'. r = Some (x, p', al') \<and> (pbuf p' = None \<and> F x \<and> al \<noteq> [] \<or> Q x p' \<and> (al = [] \<longrightarrow> al' = [])))"

abbreviation "prints_ptr al r Q \<equiv> prints_buf al r (\<lambda>x. x = None) Q"
abbreviation "prints_ok al r Q \<equiv> prints_buf al r (\<lambda>ok. \<not> ok) Q"

lemma prints_bufI: "r = Some (x, p', al') \<Longrightarrow> Q x p' \<Longrightarrow> al = [] \<longrightarrow> al' = [] \<Longrightarrow> prints_buf al r F Q"
  by (auto simp: prints_buf_def)

lemma prints_bufE:
  assumes "prints_buf al r F Q"
  obtains (null) x q al' where "r = Some (x, q, al')" "pbuf q = None" "F x" "al \<noteq> []"
  | (okay) x q al' where "r = Some (x, q, al')" "Q x q" "al = [] \<longrightarrow> al' = []"
  using assms by (auto simp: prints_buf_def)

lemma smear:
  assumes "0 \<le> x" "x < 2 ^ n"
  shows "x \<le> x OR drop_bit k x" "0 \<le> x OR drop_bit k x" "x OR drop_bit k (x :: int) < 2 ^ n"
proof -
  have "0 \<le> drop_bit k x" using assms(1) by simp
  moreover have "drop_bit k x \<le> x" using assms(1) zdiv_mono2[of x 1 "2 ^ k"] by (simp add: drop_bit_eq_div)
  ultimately show "x \<le> x OR drop_bit k x" "0 \<le> x OR drop_bit k x" "x OR drop_bit k x < 2 ^ n"
    using assms by (auto intro: or_greater_eq OR_upper)
qed

lemma pow2gt_ge:
  assumes "1 \<le> n" "n \<le> 2 ^ 30"
  shows "\<exists>m. pow2gt n = Some m \<and> n \<le> m \<and> m \<le> 2 ^ 30"
proof -
  define x0 where "x0 = n - 1"
  define x1 where "x1 = x0 OR drop_bit 1 x0"
  define x2 where "x2 = x1 OR drop_bit 2 x1"
  define x3 where "x3 = x2 OR drop_bit 4 x2"
  define x4 where "x4 = x3 OR drop_bit 8 x3"
  define x5 where "x5 = x4 OR drop_bit 16 x4"
  have 0: "0 \<le> x0" "x0 < 2 ^ 30" using assms by (auto simp: x0_def)
  note 1 = smear[OF 0, of 1, folded x1_def]
  note 2 = smear[OF 1(2,3), of 2, folded x2_def]
  note 3 = smear[OF 2(2,3), of 4, folded x3_def]
  note 4 = smear[OF 3(2,3), of 8, folded x4_def]
  note 5 = smear[OF 4(2,3), of 16, folded x5_def]
  have "pow2gt n = (if x5 + 1 \<le> INT_MAX then Some (x5 + 1) else None)"
    by (simp add: pow2gt_def Let_def x0_def x1_def x2_def x3_def x4_def x5_def)
  moreover have "n \<le> x5 + 1" "x5 + 1 \<le> 2 ^ 30" using 1 2 3 4 5 x0_def by linarith+
  ultimately show ?thesis by (auto simp: INT_MAX_def)
qed

lemma buf_holds_prefix: "buf_holds p (t @ w) k \<Longrightarrow> buf_holds p t k"
proof -
  assume "buf_holds p (t @ w) k"
  then obtain b where b: "pbuf p = Some b" "plen p = int (length b)" "poff p = int k" "length (t @ w) \<le> length b"
    "take (length (t @ w)) b = map Some (t @ w)" by (auto simp: buf_holds_def)
  from arg_cong[OF b(5), of "take (length t)"] have "take (length t) b = map Some t" by simp
  with b show ?thesis by (auto simp: buf_holds_def)
qed

lemma ensure_room:
  assumes "buf_holds p t k" "1 \<le> n" "length t \<le> k + n" "k + n \<le> LIMIT"
  shows "prints_ptr al (ensure (int n) p al) (\<lambda>r q. r = Some k \<and> buf_holds q t k \<and> (\<exists>b. pbuf q = Some b \<and> k + n \<le> length b))"
proof -
  obtain b where b: "pbuf p = Some b" "plen p = int (length b)" "poff p = int k" "length t \<le> length b" "take (length t) b = map Some t"
    using assms(1) by (auto simp: buf_holds_def)
  have lim: "\<not> int n + int k > INT_MAX" using assms(4) by (auto simp: LIMIT_def INT_MAX_def)
  show ?thesis
  proof (cases "n + k \<le> length b")
    case True
    then have "ensure (int n) p al = Some (Some k, p, al)" using b lim by (simp add: ensure_def)
    then show ?thesis using True assms(1) b(1) by (intro prints_bufI) (auto simp: add.commute)
  next
    case False
    have "1 \<le> int n + int k" "int n + int k \<le> 2 ^ 30" using assms(2,4) by (auto simp: LIMIT_def)
    from pow2gt_ge[OF this] obtain m where m: "pow2gt (int n + int k) = Some m" "int n + int k \<le> m" by blast
    obtain ok al' where al: "malloc al = (ok, al')" by (cases "malloc al")
    let ?b = "take (length b) b @ replicate (nat (m - int (length b))) None"
    have e: "ensure (int n) p al = (if ok then Some (Some k, p\<lparr>plen := m, pbuf := Some ?b\<rparr>, al')
        else Some (None, p\<lparr>plen := 0, pbuf := None\<rparr>, al'))"
      using False b lim m al by (simp add: ensure_def)
    have "length ?b = nat m" using False m by simp
    then have q: "buf_holds (p\<lparr>plen := m, pbuf := Some ?b\<rparr>) t k" "k + n \<le> length ?b"
      using b m False by (auto simp: buf_holds_def)
    have "al = [] \<longrightarrow> ok \<and> al' = []" using al by auto
    then show ?thesis using e q unfolding prints_buf_def by (cases ok) auto
  qed
qed


lemma put_buf_writes:
  assumes "buf_holds p t k" "1 \<le> n" "length t = k" "length w \<le> n" "k + n \<le> LIMIT"
  shows "prints_ptr al (put_buf (int n) w p al) (\<lambda>r q. r = Some k \<and> buf_holds q (t @ w) k)"
proof -
  have "length t \<le> k + n" using assms(3) by simp
  from ensure_room[OF assms(1,2) this assms(5), of al] show ?thesis
  proof (cases rule: prints_bufE)
    case null
    then show ?thesis by (auto simp: put_buf_def prints_buf_def)
  next
    case (okay x q al')
    then obtain b where b: "x = Some k" "buf_holds q t k" "pbuf q = Some b" "k + n \<le> length b" by auto
    let ?b = "take k b @ map Some w @ drop (k + length w) b"
    have "take k b = map Some t" using b(2,3) assms(3) by (auto simp: buf_holds_def)
    then have "buf_holds (q\<lparr>pbuf := Some ?b\<rparr>) (t @ w) k" using b assms(3,4) by (auto simp: buf_holds_def)
    moreover have "put_buf (int n) w p al = Some (Some k, q\<lparr>pbuf := Some ?b\<rparr>, al')"
      using okay(1) b assms(4) by (simp add: put_buf_def poke_def)
    ultimately show ?thesis using okay(3) by (auto intro: prints_bufI)
  qed
qed

lemma append_buf_writes:
  assumes "buf_holds p t (length t)" "1 \<le> n" "length (w @ z) \<le> n" "length t + n \<le> LIMIT"
  shows "prints_ok al (append_buf (int n) (w @ z) (length w) p al) (\<lambda>ok q. ok \<and> buf_holds q (t @ w) (length (t @ w)))"
  using put_buf_writes[OF assms(1,2) refl assms(3,4), of al]
proof (cases rule: prints_bufE)
  case null
  then show ?thesis by (auto simp: append_buf_def prints_buf_def)
next
  case (okay x q al')
  have "buf_holds (advance (length w) q) (t @ w) (length (t @ w))"
    using buf_holds_prefix[of q "t @ w" z "length t"] okay(2) by (auto simp: buf_holds_def advance_def)
  then show ?thesis using okay by (auto simp: append_buf_def prints_buf_def)
qed

lemma strlen_bytes_text: "NUL \<notin> set w \<Longrightarrow> strlen_bytes (map Some w @ Some NUL # bs) = Some (length w)"
  by (induction w) auto

text \<open>After a text \<^verbatim>\<open>w\<close> with its NUL, at any offset into it, the offset is set to its end.\<close>

lemma set_offset_end:
  assumes "buf_holds p (t @ u @ v @ [NUL]) (length (t @ u))" "NUL \<notin> set v"
  shows "\<exists>q. set_offset p = Some q \<and> buf_holds q (t @ u @ v) (length (t @ u @ v))"
proof -
  let ?s = "t @ u @ v @ [NUL]"
  obtain b where b: "pbuf p = Some b" "plen p = int (length b)" "poff p = int (length (t @ u))" "length ?s \<le> length b"
    "take (length ?s) b = map Some ?s" using assms(1) by (auto simp: buf_holds_def)
  obtain c where c: "b = map Some ?s @ c" using b(5) by (metis append_take_drop_id)
  have "drop (length (t @ u)) b = map Some v @ Some NUL # c" unfolding c by simp
  then have "strlen_bytes (drop (nat (poff p)) b) = Some (length v)"
    using strlen_bytes_text[OF assms(2)] by (simp only: b(3) nat_int)
  then have "set_offset p = Some (p\<lparr>poff := int (length (t @ u @ v))\<rparr>)"
    using b(1,3) by (simp add: set_offset_def update_offset_def)
  moreover have "buf_holds p (t @ u @ v) (length (t @ u))"
    using buf_holds_prefix[of p "t @ u @ v" "[NUL]"] assms(1) by simp
  ultimately show ?thesis by (auto simp: buf_holds_def)
qed

text \<open>The buffer after a value \<^verbatim>\<open>w\<close> was printed behind \<^verbatim>\<open>t\<close>.\<close>

definition value_in :: "string \<Rightarrow> string \<Rightarrow> printbuffer \<Rightarrow> bool" where
  "value_in t w q \<longleftrightarrow> NUL \<notin> set w \<and> (\<exists>u v. w = u @ v \<and> buf_holds q (t @ w @ [NUL]) (length (t @ u)))"

lemma value_in_set_offset:
  "value_in t w p \<Longrightarrow> \<exists>q. set_offset p = Some q \<and> buf_holds q (t @ w) (length (t @ w))"
  using set_offset_end by (fastforce simp: value_in_def)

lemma put_buf_value:
  assumes "buf_holds p t (length t)" "NUL \<notin> set w" "length w + 1 \<le> n" "length t + n \<le> LIMIT"
  shows "prints_ptr al (put_buf (int n) (w @ [NUL]) p al) (\<lambda>r q. r = Some (length t) \<and> value_in t w q)"
proof -
  have "prints_ptr al (put_buf (int n) (w @ [NUL]) p al) (\<lambda>r q. r = Some (length t) \<and> buf_holds q (t @ w @ [NUL]) (length t))"
    using assms by (intro put_buf_writes) auto
  then show ?thesis using assms(2) by (fastforce simp: prints_buf_def value_in_def)
qed

text \<open>A step that goes on from where another ended, or gives up without a buffer.\<close>

lemma prints_buf_bind:
  assumes "prints_buf al r F Q" "\<And>x q al'. Q x q \<Longrightarrow> prints_buf al' (f (x, q, al')) G R"
    "\<And>x q al'. pbuf q = None \<Longrightarrow> F x \<Longrightarrow> \<exists>y q' al''. f (x, q, al') = Some (y, q', al'') \<and> pbuf q' = None \<and> G y"
  shows "prints_buf al (Option.bind r f) G R"
  using assms(1)
proof (cases rule: prints_bufE)
  case (null x q al')
  then show ?thesis using assms(3)[of q x al'] by (auto simp: prints_buf_def)
next
  case (okay x q al')
  from assms(2)[OF okay(2), of al'] show ?thesis using okay(1,3) by (auto simp: prints_buf_def)
qed

lemma prints_buf_mono:
  "prints_buf al r F Q \<Longrightarrow> (\<And>x q. Q x q \<Longrightarrow> R x q) \<Longrightarrow> (\<And>x. F x \<Longrightarrow> G x) \<Longrightarrow> prints_buf al r G R"
  by (auto simp: prints_buf_def)

lemma put_buf_null: "pbuf q = None \<Longrightarrow> put_buf n w q al = Some (None, q, al)"
  by (simp add: put_buf_def ensure_def)

lemma append_buf_null: "pbuf q = None \<Longrightarrow> append_buf n w k q al = Some (False, q, al)"
  by (simp add: append_buf_def put_buf_null)

lemma set_offset_null: "pbuf q = None \<Longrightarrow> set_offset q = Some (q\<lparr>poff := 0\<rparr>)"
  by (simp add: set_offset_def update_offset_def)

lemmas null_simps = put_buf_null append_buf_null set_offset_null

section \<open>Buffered printing gives the text of the item\<close>

text \<open>The formats of \<^verbatim>\<open>sprintf\<close> produce no NUL.\<close>

definition fmt_clean :: "'d dops \<Rightarrow> bool" where
  "fmt_clean ops \<longleftrightarrow> (\<forall>d. NUL \<notin> set (fmt_0f ops d) \<and> NUL \<notin> set (fmt_e ops d) \<and> NUL \<notin> set (fmt_f ops d))"

lemma digit_char_not_NUL: "d < 16 \<Longrightarrow> digit_char d \<noteq> NUL"
  by (auto simp: digit_char_def NUL_def char_of_eq_iff take_bit_eq_mod)

lemma nat_dec_clean: "NUL \<notin> set (nat_dec n)"
proof (induction n rule: nat_dec.induct)
  case (1 n)
  have "n mod 10 < 10" by simp
  then have "digit_char (n mod 10) \<noteq> NUL" by (intro digit_char_not_NUL) linarith
  then show ?case using 1 digit_char_not_NUL[of n] by (subst nat_dec.simps) auto
qed

lemma num_text_clean: "fmt_clean ops \<Longrightarrow> NUL \<notin> set (num_text ops vi d)"
  using nat_dec_clean by (auto simp: num_text_def fmt_clean_def int_dec_def NUL_def)

lemma escape_char_clean: "NUL \<notin> set (escape_char c)"
proof -
  have "(of_char c :: nat) div 16 < 16" by (simp add: less_mult_imp_div_less)
  then show ?thesis
    using digit_char_not_NUL[of "of_char c div 16"] digit_char_not_NUL[of "of_char c mod 16"]
    by (auto simp: escape_char_def hex4_def char_names needs_escape_def)
qed

lemma quoted_clean: "NUL \<notin> set (quoted s)"
  using escape_char_clean by (auto simp: quoted_def char_names)

lemma join_array_clean: "\<forall>e \<in> set es. NUL \<notin> set e \<Longrightarrow> NUL \<notin> set (join_array fmt es)"
  by (induction fmt es rule: join_array.induct) (auto simp: char_names)

lemma join_object_clean: "\<forall>(k, v) \<in> set es. NUL \<notin> set k \<and> NUL \<notin> set v \<Longrightarrow> NUL \<notin> set (join_object fmt depth es)"
  by (induction fmt depth es rule: join_object.induct) (auto simp: char_names tabs_def)

lemma json_text_clean: "fmt_clean ops \<Longrightarrow> NUL \<notin> set (json_text ops fmt depth item)"
proof (induction ops fmt depth item rule: json_text.induct)
  case (1 ops fmt depth t vs vi vd nm cs)
  have "NUL \<notin> set (join_array fmt (map (json_text ops fmt (depth + 1)) cs))" if "t AND 255 = cJSON_Array"
    using 1 that by (intro join_array_clean) (auto simp: cJSON_types)
  moreover have "NUL \<notin> set (join_object fmt (depth + 1) (map (\<lambda>c. (quoted (the (jname c)), json_text ops fmt (depth + 1) c)) cs))"
    if "t AND 255 \<notin> {cJSON_NULL, cJSON_False, cJSON_True, cJSON_Number, cJSON_String, cJSON_Array}" "cs \<noteq> []"
    using 1 that quoted_clean by (intro join_object_clean) auto
  ultimately show ?case using num_text_clean[OF 1(3)] quoted_clean by (auto simp: char_names tabs_def Let_def)
qed

lemma escape_len_eq: "sum_list (map escape_len s) = length (concat (map escape_char s))"
  by (induction s) (auto simp: escape_char_def escape_len_def needs_escape_def hex4_def char_names)

lemma print_number_buf_value:
  assumes "fmt_bounded ops" "fmt_clean ops" "INT_MIN \<le> valueint item" "valueint item \<le> INT_MAX"
    "buf_holds p t (length t)" "length t + 64 \<le> LIMIT"
  shows "prints_ptr al (print_number_buf ops item p al)
    (\<lambda>r q. r = Some (length t) \<and> value_in t (num_text ops (valueint item) (valuedouble item)) q)"
proof -
  let ?w = "num_text ops (valueint item) (valuedouble item)"
  have put: "prints_ptr al (put_buf (int n) (?w @ [NUL]) p al) (\<lambda>r q. r = Some (length t) \<and> value_in t ?w q)"
    if "length ?w + 1 \<le> n" "n \<le> 64" for n
    using that assms(6) by (intro put_buf_value assms(5) num_text_clean[OF assms(2)]) auto
  show ?thesis
    using put[of 2] put[of 21] put[of 64] int_dec_length[OF assms(3,4)] assms(1)
    by (auto simp: print_number_buf_def num_text_def Let_def fmt_bounded_def split: if_splits)
qed

lemma print_string_buf_value:
  assumes "buf_holds p t (length t)" "length t + length (quoted s) + 1 \<le> LIMIT"
  shows "prints_ptr al (print_string_buf (Some s) p al) (\<lambda>r q. r = Some (length t) \<and> value_in t (quoted s) q)"
proof -
  have "prints_ptr al (put_buf (int (length (quoted s) + 1)) (quoted s @ [NUL]) p al) (\<lambda>r q. r = Some (length t) \<and> value_in t (quoted s) q)"
    using assms by (intro put_buf_value quoted_clean) auto
  then show ?thesis
    using no_escape[of s] by (auto simp: print_string_buf_def quoted_def escape_len_eq add.commute)
qed


text \<open>What is known of a printed value, of the elements of an array and of the members of an object.\<close>

definition value_ok :: "string \<Rightarrow> nat \<Rightarrow> string \<Rightarrow> nat option \<Rightarrow> printbuffer \<Rightarrow> bool" where
  "value_ok t depth w r q \<longleftrightarrow> r \<noteq> None \<and> (t = [] \<and> depth = 0 \<longrightarrow> r = Some 0) \<and> value_in t w q"

definition piece_ok :: "string \<Rightarrow> string \<Rightarrow> bool \<Rightarrow> printbuffer \<Rightarrow> bool" where
  "piece_ok t w ok q \<longleftrightarrow> ok \<and> buf_holds q (t @ w) (length (t @ w))"

lemma append_piece:
  assumes "piece_ok t w ok p" "1 \<le> n" "length v + length z \<le> n" "length t + length w + n \<le> LIMIT" "vz = v @ z" "k = length v"
    "n' = int n"
  shows "prints_ok al (append_buf n' vz k p al) (piece_ok t (w @ v))"
  using append_buf_writes[of p "t @ w" n v z al] assms by (simp add: piece_ok_def prints_buf_def)

lemma offset_piece: "value_in (t @ w) v p \<Longrightarrow> \<exists>q. set_offset p = Some q \<and> piece_ok t (w @ v) True q"
  using value_in_set_offset[of "t @ w" v p] by (simp add: piece_ok_def)

text \<open>The end of an array or object.\<close>

lemma close_piece:
  assumes "piece_ok t w ok p" "NUL \<notin> set w" "NUL \<notin> set v" "length v + 1 \<le> n" "length t + length w + n \<le> LIMIT" "n' = int n" "v' = v @ [NUL]"
  shows "prints_ptr al (put_buf n' v' p al) (\<lambda>r q. r \<noteq> None \<and> value_in t (w @ v) q)"
proof -
  have "prints_ptr al (put_buf (int n) (v @ [NUL]) p al) (\<lambda>r q. r = Some (length (t @ w)) \<and> buf_holds q ((t @ w) @ v @ [NUL]) (length (t @ w)))"
    using assms(1,4,5) by (intro put_buf_writes) (auto simp: piece_ok_def)
  then show ?thesis
    unfolding assms(6,7) by (rule prints_buf_mono) (use assms(2,3) in \<open>auto simp: value_in_def\<close>)
qed

lemma print_array_buf_value:
  assumes "buf_holds p t (length t)" "none \<longleftrightarrow> es = []" "\<forall>e \<in> set es. NUL \<notin> set e" "length t + length (join_array fmt es) + 66 \<le> LIMIT"
    and elems: "\<And>p al. buf_holds p (t @ ''['') (length (t @ ''['')) \<Longrightarrow>
      prints_buf al (elems p al) (\<lambda>_. True) (piece_ok (t @ ''['') (join_array fmt es))"
  shows "prints_ptr al (print_array_buf elems none p al) (value_ok t depth (''['' @ join_array fmt es @ '']''))"
proof (cases none)
  case True
  have "prints_ptr al (put_buf (int 3) (''[]'' @ [NUL]) p al) (\<lambda>r q. r = Some (length t) \<and> value_in t ''[]'' q)"
    using assms(1,4) by (intro put_buf_value) (auto simp: NUL_def)
  then have "prints_ptr al (put_buf (int 3) (''[]'' @ [NUL]) p al) (value_ok t depth ''[]'')"
    by (rule prints_buf_mono) (auto simp: value_ok_def)
  then show ?thesis using True assms(2) by (simp add: print_array_buf_def)
next
  case False
  let ?J = "join_array fmt es"
  have nul: "NUL \<notin> set (''['' @ ?J)" using join_array_clean[OF assms(3)] by (auto simp: NUL_def)
  have opened: "prints_ok al (append_buf 1 ''['' 1 p al) (piece_ok t ''['')" 
    using append_piece[of t "[]" True p 1 "''[''" "[]" "''[''" 1 1 al] assms(1,4) by (simp add: piece_ok_def)
  have cl: "prints_ptr al2 (put_buf 2 ('']'' @ [NUL]) q al2) (\<lambda>r q. r \<noteq> None \<and> value_in t (''['' @ ?J @ '']'') q)"
    if "piece_ok t (''['' @ ?J) True q" for q al2
    using close_piece[of t "''['' @ ?J" True q "'']''" 2 2 "'']'' @ [NUL]" al2] that nul assms(4) by (simp add: NUL_def)
  have p0: "poff p = int (length t)" using assms(1) by (auto simp: buf_holds_def)
  show ?thesis unfolding print_array_buf_def if_not_P[OF False]
  proof (rule prints_buf_bind[OF opened], goal_cases)
    case (1 x q al1)
    then have q: "buf_holds q (t @ ''['') (length (t @ ''[''))" "x = True" by (auto simp: piece_ok_def)
    show ?case
      unfolding prod.case q(2) not_True_eq_False if_False
    proof (rule prints_buf_bind[OF elems[OF q(1)]], goal_cases)
      case (1 y q2 al2)
      then have y: "y = True" "piece_ok t (''['' @ ?J) True q2" by (auto simp: piece_ok_def)
      show ?case unfolding prod.case y(1) not_True_eq_False if_False
        by (rule prints_buf_bind[OF cl[OF y(2)]]) (use p0 in \<open>auto simp: value_ok_def intro!: prints_bufI\<close>)
    qed (auto simp: null_simps)
  next
    case (2 x q al1)
    then show ?case by auto
  qed
qed

lemma elem_buf_piece:
  assumes first: "prints_ptr al (first p al) (value_ok t depth e)"
    and rest: "\<And>p al. piece_ok t (e @ sep) True p \<Longrightarrow> prints_buf al (rest p al) (\<lambda>_. True) (piece_ok t (e @ sep @ J))"
    and at_end: "is_last \<Longrightarrow> rest = (\<lambda>p al. Some (True, p, al))"
    and sep: "sep = (if is_last then [] else '','' @ (if fmt then '' '' else []))"
    and lim: "length t + length e + 3 \<le> LIMIT"
  shows "prints_buf al (elem_buf first rest is_last fmt p al) (\<lambda>_. True) (piece_ok t (e @ sep @ J))"
  unfolding elem_buf_def
proof (rule prints_buf_bind[OF first], goal_cases)
  case (1 x q al1)
  then have "value_in (t @ []) e q" by (simp add: value_ok_def)
  from offset_piece[OF this] obtain q2 where q2: "set_offset q = Some q2" "piece_ok t e True q2" by auto
  show ?case
  proof (cases is_last)
    case True
    then show ?thesis using q2 rest[of q2 al1] sep by simp
  next
    case False
    have ap: "prints_ok al1 (append_buf (if fmt then 3 else 2) ('','' @ (if fmt then '' '' else []) @ [NUL]) (if fmt then 2 else 1) q2 al1) (piece_ok t (e @ sep))"
      by (rule append_piece[OF q2(2), where n = "if fmt then 3 else 2" and v = sep and z = "[NUL]"]) (use lim sep False in auto)
    have eq: "(if is_last then rest q2 al1 else do { (ok, p3, al3) \<leftarrow> append_buf (if fmt then 3 else 2) ('','' @ (if fmt then '' '' else []) @ [NUL]) (if fmt then 2 else 1) q2 al1;
        if ok then rest p3 al3 else Some (False, p3, al3) }) = do { (ok, p3, al3) \<leftarrow> append_buf (if fmt then 3 else 2) ('','' @ (if fmt then '' '' else []) @ [NUL]) (if fmt then 2 else 1) q2 al1;
        if ok then rest p3 al3 else Some (False, p3, al3) }" using False by simp
    show ?thesis
      unfolding prod.case q2(1) Option.bind.bind_lunit eq
    proof (rule prints_buf_bind[OF ap], goal_cases)
      case (1 y q3 al3)
      then have "y" "piece_ok t (e @ sep) True q3" by (auto simp: piece_ok_def)
      then show ?case using rest[of q3 al3] by simp
    qed auto
  qed
next
  case (2 x q al1)
  then show ?case using at_end by (auto simp: null_simps)
qed

lemma member_buf_piece:
  assumes p: "buf_holds p t (length t)"
    and name: "\<And>p al. buf_holds p (t @ ind) (length (t @ ind)) \<Longrightarrow> prints_ptr al (name p al) (\<lambda>r. value_in (t @ ind) k)"
    and val: "\<And>p al. buf_holds p (t @ ind @ k @ col) (length (t @ ind @ k @ col)) \<Longrightarrow>
      prints_ptr al (val p al) (value_ok (t @ ind @ k @ col) depth v)"
    and rest: "\<And>p al. piece_ok t (ind @ k @ col @ v @ sep) True p \<Longrightarrow> prints_ok al (rest p al) (piece_ok t (ind @ k @ col @ v @ sep @ J))"
    and defs: "ind = (if fmt then tabs depth else [])" "col = '':'' @ (if fmt then [TAB] else [])"
      "sep = (if is_last then [] else '','') @ (if fmt then [LF] else [])"
    and lim: "1 \<le> depth" "length t + length (ind @ k @ col @ v) + 3 \<le> LIMIT"
  shows "prints_ok al (member_buf name val rest is_last depth fmt p al) (piece_ok t (ind @ k @ col @ v @ sep @ J))"
proof -
  have a1: "prints_ok al (if fmt then append_buf (int depth) (tabs depth) depth p al else Some (True, p, al)) (piece_ok t ind)"
  proof (cases fmt)
    case True
    have "piece_ok t [] True p" using p by (simp add: piece_ok_def)
    from append_piece[OF this, where v = "tabs depth" and z = "[]" and n = depth and n' = "int depth" and k = depth and vz = "tabs depth" and al = al]
    show ?thesis using True defs(1) lim by (simp add: tabs_def)
  next
    case False
    then show ?thesis using p defs(1) by (auto simp: piece_ok_def intro!: prints_bufI)
  qed
  have a3: "prints_ok al (append_buf (if fmt then 2 else 1) ('':'' @ (if fmt then [TAB] else [])) (if fmt then 2 else 1) q al) (piece_ok t (ind @ k @ col))"
    if "piece_ok t (ind @ k) True q" for q al
    by (rule append_piece[OF that, where n = "if fmt then 2 else 1" and v = col and z = "[]", unfolded append_assoc])
       (use lim(2) defs(2) in auto)
  let ?k = "(if fmt then 1 else 0) + (if is_last then 0 else 1) :: nat"
  have a5: "prints_ok al (append_buf (int ?k + 1) ((if is_last then [] else '','') @ (if fmt then [LF, NUL] else [])) ?k q al)
      (piece_ok t (ind @ k @ col @ v @ sep))"
    if "piece_ok t (ind @ k @ col @ v) True q" for q al
    by (rule append_piece[OF that, where n = "?k + 1" and v = sep and z = "if fmt then [NUL] else []", unfolded append_assoc])
       (use lim(2) defs(3) in auto)
  show ?thesis
    unfolding member_buf_def
  proof (rule prints_buf_bind[OF a1], goal_cases)
    case (1 x q al1)
    then have q: "x = True" "buf_holds q (t @ ind) (length (t @ ind))" by (auto simp: piece_ok_def)
    show ?case unfolding prod.case q(1) not_True_eq_False if_False
    proof (rule prints_buf_bind[OF name[OF q(2)]], goal_cases)
      case (1 y q2 al2)
      from offset_piece[OF 1] obtain q3 where q3: "set_offset q2 = Some q3" "piece_ok t (ind @ k) True q3" by auto
      show ?case unfolding prod.case q3(1) Option.bind.bind_lunit
      proof (rule prints_buf_bind[OF a3[OF q3(2)]], goal_cases)
        case (1 z q4 al4)
        then have q4: "z = True" "buf_holds q4 (t @ ind @ k @ col) (length (t @ ind @ k @ col))" by (auto simp: piece_ok_def)
        show ?case unfolding prod.case q4(1) not_True_eq_False if_False
        proof (rule prints_buf_bind[OF val[OF q4(2)]], goal_cases)
          case (1 w q5 al5)
          then have "value_in (t @ (ind @ k @ col)) v q5" by (simp add: value_ok_def)
          from offset_piece[OF this] obtain q6 where q6: "set_offset q5 = Some q6" "piece_ok t (ind @ k @ col @ v) True q6" by auto
          show ?case unfolding prod.case q6(1) Option.bind.bind_lunit Let_def
          proof (rule prints_buf_bind[OF a5[OF q6(2)]], goal_cases)
            case (1 o' q7 al7)
            then have "o'" "piece_ok t (ind @ k @ col @ v @ sep) True q7" by (auto simp: piece_ok_def)
            then show ?case using rest[of q7 al7] by simp
          qed auto
        qed (auto simp: null_simps)
      qed auto
    qed (auto simp: null_simps)
  qed auto
qed

lemma print_object_buf_value:
  assumes p: "buf_holds p t (length t)" and es: "\<forall>(k, v) \<in> set es. NUL \<notin> set k \<and> NUL \<notin> set v"
    and lim: "length t + length (join_object fmt (depth + 1) es) + depth + 64 \<le> LIMIT"
    and op: "op = ''{'' @ (if fmt then [LF] else [])"
    and members: "\<And>p al. piece_ok t op True p \<Longrightarrow> prints_ok al (members p al) (piece_ok t (op @ join_object fmt (depth + 1) es))"
  shows "prints_ptr al (print_object_buf members False depth fmt p al)
    (value_ok t depth (op @ join_object fmt (depth + 1) es @ (if fmt then tabs depth else []) @ ''}''))"
proof -
  let ?J = "join_object fmt (depth + 1) es" and ?cl = "(if fmt then tabs depth else []) @ ''}''"
  have nul: "NUL \<notin> set (op @ ?J)" "NUL \<notin> set ?cl" using join_object_clean[OF es] op by (auto simp: char_names tabs_def)
  have t0: "piece_ok t [] True p" using p by (simp add: piece_ok_def)
  have opened: "prints_ok al (append_buf (if fmt then 3 else 2) (''{'' @ (if fmt then [LF] else []) @ [NUL]) (if fmt then 2 else 1) p al) (piece_ok t op)"
    by (rule append_piece[OF t0, where n = "if fmt then 3 else 2" and v = op and z = "[NUL]", unfolded append_Nil])
       (use lim op in auto)
  have cl: "prints_ptr al (put_buf (if fmt then int depth + 2 else 2) ((if fmt then tabs depth else []) @ ''}'' @ [NUL]) q al)
      (\<lambda>r q. r \<noteq> None \<and> value_in t ((op @ ?J) @ ?cl) q)"
    if "piece_ok t (op @ ?J) True q" for q al
    by (rule close_piece[OF that nul, where n = "if fmt then depth + 2 else 2"]) (use lim op in \<open>auto simp: tabs_def\<close>)
  have p0: "poff p = int (length t)" using p by (auto simp: buf_holds_def)
  show ?thesis
    unfolding print_object_buf_def if_False
  proof (rule prints_buf_bind[OF opened], goal_cases)
    case (1 x q al1)
    then have q: "x = True" "piece_ok t op True q" by (auto simp: piece_ok_def)
    show ?case unfolding prod.case q(1) not_True_eq_False if_False
    proof (rule prints_buf_bind[OF members[OF q(2)]], goal_cases)
      case (1 y q2 al2)
      then have y: "y = True" "piece_ok t (op @ ?J) True q2" by (auto simp: piece_ok_def)
      show ?case unfolding prod.case y(1) not_True_eq_False if_False
        by (rule prints_buf_bind[OF cl[OF y(2)]]) (use p0 in \<open>auto simp: value_ok_def intro!: prints_bufI\<close>)
    qed auto
  qed auto
qed

lemma empty_object_value:
  assumes "buf_holds p t (length t)" "length t + depth + 4 \<le> LIMIT"
  shows "prints_ptr al (print_object_buf members True depth fmt p al)
    (value_ok t depth (''{'' @ (if fmt then [LF] @ tabs (depth - 1) else []) @ ''}''))"
proof -
  let ?w = "''{'' @ (if fmt then [LF] @ tabs (depth - 1) else []) @ ''}''"
  have "prints_ptr al (put_buf (int (if fmt then depth + 4 else 3)) (?w @ [NUL]) p al) (\<lambda>r q. r = Some (length t) \<and> value_in t ?w q)"
    using assms by (intro put_buf_value) (auto simp: char_names tabs_def)
  then have "prints_ptr al (put_buf (int (if fmt then depth + 4 else 3)) (?w @ [NUL]) p al) (value_ok t depth ?w)"
    by (rule prints_buf_mono) (auto simp: value_ok_def)
  then show ?thesis by (auto simp: print_object_buf_def algebra_simps split: if_splits)
qed

lemma put_buf_word:
  assumes "buf_holds p t (length t)" "NUL \<notin> set w" "length w + 1 \<le> n" "length t + n \<le> LIMIT" "n' = int n"
  shows "prints_ptr al (put_buf n' (w @ [NUL]) p al) (value_ok t depth w)"
  using put_buf_value[OF assms(1-4), of al] assms(5) by (auto simp: value_ok_def elim!: prints_buf_mono)

lemma join_object_bound: "es \<noteq> [] \<Longrightarrow> fmt \<Longrightarrow> depth \<le> length (join_object fmt depth es)"
  by (cases es) (auto simp: tabs_def)

lemma join_array_bound: "e \<in> set es \<Longrightarrow> length e \<le> length (join_array fmt es)"
  by (induction fmt es rule: join_array.induct) auto

lemma piece_shift: "piece_ok (t @ w) v = piece_ok t (w @ v)"
  by (simp add: piece_ok_def fun_eq_iff)

lemma piece_start: "piece_ok t w True q \<longleftrightarrow> buf_holds q (t @ w) (length (t @ w))"
  by (simp add: piece_ok_def)

definition value_prints :: "'d dops \<Rightarrow> bool \<Rightarrow> nat \<Rightarrow> 'd cJSON \<Rightarrow> bool" where
  "value_prints ops fmt depth item \<longleftrightarrow>
     (\<forall>p t al. buf_holds p t (length t) \<longrightarrow> length t + length (json_text ops fmt depth item) + depth + 64 \<le> LIMIT \<longrightarrow>
        prints_ptr al (print_value_buf ops item depth fmt p al) (value_ok t depth (json_text ops fmt depth item)))"

definition elems_text :: "'d dops \<Rightarrow> bool \<Rightarrow> nat \<Rightarrow> 'd cJSON list \<Rightarrow> string" where
  "elems_text ops fmt depth cs = join_array fmt (map (json_text ops fmt depth) cs)"

definition members_text :: "'d dops \<Rightarrow> bool \<Rightarrow> nat \<Rightarrow> 'd cJSON list \<Rightarrow> string" where
  "members_text ops fmt depth cs = join_object fmt depth (map (\<lambda>c. (quoted (the (jname c)), json_text ops fmt depth c)) cs)"

lemma elems_print:
  assumes "\<forall>c \<in> set cs. value_prints ops fmt depth c" "buf_holds p t (length t)" "length t + length (elems_text ops fmt depth cs) + depth + 64 \<le> LIMIT"
  shows "prints_buf al (print_elems_buf ops cs depth fmt p al) (\<lambda>_. True) (piece_ok t (elems_text ops fmt depth cs))"
  using assms
proof (induction cs arbitrary: p t al)
  case Nil
  then show ?case by (auto simp: elems_text_def piece_ok_def intro!: prints_bufI)
next
  case (Cons c cs)
  let ?e = "json_text ops fmt depth c" and ?J = "elems_text ops fmt depth cs"
  let ?sep = "if cs = [] then [] else '','' @ (if fmt then '' '' else [])"
  have join: "elems_text ops fmt depth (c # cs) = ?e @ ?sep @ ?J" by (cases cs) (auto simp: elems_text_def)
  have lim: "length t + length (?e @ ?sep @ ?J) + depth + 64 \<le> LIMIT" using Cons.prems(3) unfolding join .
  show ?case
    unfolding join print_elems_buf.simps
  proof (rule elem_buf_piece[where depth = depth])
    show "prints_ptr al (print_value_buf ops c depth fmt p al) (value_ok t depth ?e)"
      using Cons.prems(1,2) lim by (auto simp: value_prints_def)
    show "prints_buf al (print_elems_buf ops cs depth fmt p al) (\<lambda>_. True) (piece_ok t (?e @ ?sep @ ?J))"
      if "piece_ok t (?e @ ?sep) True p" for p al
      using Cons.IH[of p "t @ ?e @ ?sep" al] that Cons.prems(1) lim by (simp add: piece_shift piece_start)
    show "print_elems_buf ops cs depth fmt = (\<lambda>p al. Some (True, p, al))" if "cs = []" using that by (auto simp: fun_eq_iff)
    show "length t + length ?e + 3 \<le> LIMIT" using lim by simp
  qed simp
qed

lemma members_print:
  assumes "\<forall>c \<in> set cs. value_prints ops fmt depth c \<and> jname c \<noteq> None" "buf_holds p t (length t)" "1 \<le> depth"
    "length t + length (members_text ops fmt depth cs) + depth + 64 \<le> LIMIT"
  shows "prints_ok al (print_members_buf ops cs depth fmt p al) (piece_ok t (members_text ops fmt depth cs))"
  using assms
proof (induction cs arbitrary: p t al)
  case Nil
  then show ?case by (auto simp: members_text_def piece_ok_def intro!: prints_bufI)
next
  case (Cons c cs)
  obtain s where s: "jname c = Some s" using Cons.prems(1) by auto
  let ?k = "quoted s" and ?v = "json_text ops fmt depth c" and ?J = "members_text ops fmt depth cs"
  let ?ind = "if fmt then tabs depth else []" and ?col = "'':'' @ (if fmt then [TAB] else [])"
  let ?sep = "(if cs = [] then [] else '','') @ (if fmt then [LF] else [])"
  have join: "members_text ops fmt depth (c # cs) = ?ind @ ?k @ ?col @ ?v @ ?sep @ ?J" using s by (simp add: members_text_def)
  have lim: "length t + length (?ind @ ?k @ ?col @ ?v @ ?sep @ ?J) + depth + 64 \<le> LIMIT" using Cons.prems(4) unfolding join .
  show ?case
    unfolding join print_members_buf.simps s
  proof (rule member_buf_piece[OF Cons.prems(2) _ _ _ refl refl refl Cons.prems(3)])
    show "prints_ptr al (print_string_buf (Some s) p al) (\<lambda>r. value_in (t @ ?ind) ?k)"
      if "buf_holds p (t @ ?ind) (length (t @ ?ind))" for p al
      using print_string_buf_value[OF that, of s al] lim by (auto elim!: prints_buf_mono)
    show "prints_ptr al (print_value_buf ops c depth fmt p al) (value_ok (t @ ?ind @ ?k @ ?col) depth ?v)"
      if "buf_holds p (t @ ?ind @ ?k @ ?col) (length (t @ ?ind @ ?k @ ?col))" for p al
    proof -
      have "length (t @ ?ind @ ?k @ ?col) + length ?v + depth + 64 \<le> LIMIT" using lim by simp
      then show ?thesis using that Cons.prems(1) unfolding value_prints_def by (metis list.set_intros(1))
    qed
    show "prints_ok al (print_members_buf ops cs depth fmt p al) (piece_ok t (?ind @ ?k @ ?col @ ?v @ ?sep @ ?J))"
      if "piece_ok t (?ind @ ?k @ ?col @ ?v @ ?sep) True p" for p al
    proof -
      have "prints_ok al (print_members_buf ops cs depth fmt p al) (piece_ok (t @ ?ind @ ?k @ ?col @ ?v @ ?sep) ?J)"
        using that Cons.prems(1,3) lim unfolding piece_start by (intro Cons.IH) simp_all
      then show ?thesis by (simp only: piece_shift append_assoc)
    qed
    show "length t + length (?ind @ ?k @ ?col @ ?v) + 3 \<le> LIMIT" using lim by simp
  qed
qed

lemma array_prints:
  assumes "t8 AND 255 = cJSON_Array" "\<forall>c \<in> set cs. value_prints ops fmt (depth + 1) c" "fmt_clean ops"
  shows "value_prints ops fmt depth (Item t8 vs vi vd nm cs)"
proof -
  let ?J = "elems_text ops fmt (depth + 1) cs"
  have jt: "json_text ops fmt depth (Item t8 vs vi vd nm cs) = ''['' @ ?J @ '']''" using assms(1) by (simp add: cJSON_types elems_text_def)
  have "prints_ptr al (print_array_buf (print_elems_buf ops cs (depth + 1) fmt) (cs = []) p al) (value_ok t depth (''['' @ ?J @ '']''))"
    if "buf_holds p t (length t)" and lim: "length t + length (''['' @ ?J @ '']'') + depth + 64 \<le> LIMIT" for p t al
    unfolding elems_text_def
  proof (rule print_array_buf_value[OF that(1)])
    show "prints_buf al (print_elems_buf ops cs (depth + 1) fmt p al) (\<lambda>_. True)
        (piece_ok (t @ ''['') (join_array fmt (map (json_text ops fmt (depth + 1)) cs)))"
      if "buf_holds p (t @ ''['') (length (t @ ''[''))" for p al
      using elems_print[OF assms(2) that, of al] lim by (simp add: elems_text_def)
  qed (use lim json_text_clean[OF assms(3)] in \<open>auto simp: elems_text_def\<close>)
  then show ?thesis using assms(1) unfolding value_prints_def jt by (simp add: cJSON_types)
qed

lemma object_prints:
  assumes "t8 AND 255 = cJSON_Object" "\<forall>c \<in> set cs. value_prints ops fmt (depth + 1) c \<and> jname c \<noteq> None" "fmt_clean ops"
  shows "value_prints ops fmt depth (Item t8 vs vi vd nm cs)"
proof (cases "cs = []")
  case True
  then show ?thesis
    using assms(1) empty_object_value by (auto simp: value_prints_def cJSON_types)
next
  case False
  let ?es = "map (\<lambda>c. (quoted (the (jname c)), json_text ops fmt (depth + 1) c)) cs"
  let ?J = "join_object fmt (depth + 1) ?es" and ?op = "''{'' @ (if fmt then [LF] else [])"
  let ?w = "?op @ ?J @ (if fmt then tabs depth else []) @ ''}''"
  have jt: "json_text ops fmt depth (Item t8 vs vi vd nm cs) = ?w" using assms(1) False by (simp add: cJSON_types)
  have "prints_ptr al (print_object_buf (print_members_buf ops cs (depth + 1) fmt) False depth fmt p al) (value_ok t depth ?w)"
    if "buf_holds p t (length t)" and lim: "length t + length ?w + depth + 64 \<le> LIMIT" for p t al
  proof (rule print_object_buf_value[OF that(1) _ _ refl])
    show "prints_ok al (print_members_buf ops cs (depth + 1) fmt p al) (piece_ok t (?op @ ?J))"
      if "piece_ok t ?op True p" for p al
      using members_print[OF assms(2), of p "t @ ?op" al] that lim by (simp add: members_text_def piece_shift piece_start)
  qed (use lim json_text_clean[OF assms(3)] quoted_clean in auto)
  then show ?thesis using assms(1) False unfolding value_prints_def jt by (simp add: cJSON_types)
qed

lemma leaf_prints:
  assumes "fmt_bounded ops" "fmt_clean ops" "printable (Item t8 vs vi vd nm cs)" "int_values (Item t8 vs vi vd nm cs)"
    "t8 AND 255 \<noteq> cJSON_Array" "t8 AND 255 \<noteq> cJSON_Object"
  shows "value_prints ops fmt depth (Item t8 vs vi vd nm cs)"
  unfolding value_prints_def
proof (intro allI impI)
  fix p t al
  let ?item = "Item t8 vs vi vd nm cs" and ?w = "json_text ops fmt depth (Item t8 vs vi vd nm cs)"
  assume p: "buf_holds p t (length t)" and lim: "length t + length ?w + depth + 64 \<le> LIMIT"
  have word: "prints_ptr al (put_buf n' (w @ [NUL]) p al) (value_ok t depth w)"
    if "NUL \<notin> set w" "length w + 1 \<le> n" "n \<le> 64" "n' = int n" for w n n'
    by (rule put_buf_word[OF p that(1,2) _ that(4)]) (use lim that(3) in linarith)
  have weaken: "prints_ptr al r (\<lambda>r q. r = Some (length t) \<and> value_in t w q) \<Longrightarrow> prints_ptr al r (value_ok t depth w)" for r w
    by (auto simp: value_ok_def elim!: prints_buf_mono)
  have "0 \<le> t8 AND 255" "t8 AND 255 \<le> 6" using assms(3) by auto
  then show "prints_ptr al (print_value_buf ops ?item depth fmt p al) (value_ok t depth ?w)"
  proof (cases rule: type_cases)
    case number
    then show ?thesis
      using weaken[OF print_number_buf_value[of ops ?item p t al]] assms lim p by (simp add: cJSON_types)
  next
    case string
    then obtain s where s: "vs = Some s" using assms(3) by auto
    then show ?thesis
      using weaken[OF print_string_buf_value[OF p, of s]] lim string by (simp add: cJSON_types)
  qed (use assms word[of "''null''" 5 5] word[of "''false''" 6 6] word[of "''true''" 5 5] in \<open>simp_all add: cJSON_types NUL_def\<close>)
qed

lemma item_prints:
  "fmt_bounded ops \<Longrightarrow> fmt_clean ops \<Longrightarrow> printable item \<Longrightarrow> int_values item \<Longrightarrow> value_prints ops fmt depth item"
proof (induction item arbitrary: depth)
  case (Item t8 vs vi vd nm cs)
  then have sub: "\<forall>c \<in> set cs. value_prints ops fmt (depth + 1) c" by auto
  show ?case
  proof (cases "t8 AND 255 = cJSON_Array \<or> t8 AND 255 = cJSON_Object")
    case True
    then show ?thesis
    proof
      assume "t8 AND 255 = cJSON_Array"
      then show ?thesis using sub Item.prems(2) by (rule array_prints)
    next
      assume o: "t8 AND 255 = cJSON_Object"
      then have "\<forall>c \<in> set cs. jname c \<noteq> None" using Item.prems(3) by auto
      then show ?thesis using sub by (intro object_prints[OF o _ Item.prems(2)]) blast
    qed
  next
    case False
    then show ?thesis using Item.prems by (intro leaf_prints) auto
  qed
qed

lemma value_null:
  assumes "pbuf p = None" "printable item"
  shows "\<exists>q al'. print_value_buf ops item depth fmt p al = Some (None, q, al')"
  using assms by (cases item) (auto simp: print_number_buf_def print_string_buf_def print_array_buf_def print_object_buf_def null_simps Let_def)

lemma text_at_value:
  assumes "value_in [] w q"
  shows "text_at q 0 = Some w"
proof -
  obtain b k where b: "pbuf q = Some b" "take (length (w @ [NUL])) b = map Some (w @ [NUL])" and nul: "NUL \<notin> set w"
    using assms by (auto simp: value_in_def buf_holds_def)
  obtain c where c: "b = map Some (w @ [NUL]) @ c" using b(2) by (metis append_take_drop_id)
  show ?thesis using b(1) strlen_bytes_text[OF nul, of c] by (simp add: text_at_def c comp_def)
qed

lemma PrintBuffered_prints:
  assumes "fmt_bounded ops" "fmt_clean ops" "printable item" "int_values item" "0 \<le> prebuffer" "prebuffer \<le> INT_MAX"
    "length (json_text ops fmt 0 item) + 64 \<le> 2 ^ 30"
  shows "prints al (cJSON_PrintBuffered ops item prebuffer fmt al) (json_text ops fmt 0 item)"
proof -
  let ?w = "json_text ops fmt 0 item"
  obtain ok al1 where al: "malloc al = (ok, al1)" by (cases "malloc al")
  have nil: "al = [] \<longrightarrow> ok \<and> al1 = []" using al by auto
  let ?p = "\<lparr>pbuf = (if ok then Some (replicate (nat (prebuffer mod 2 ^ 64)) None) else None), plen = prebuffer, poff = 0\<rparr>"
  have eq: "cJSON_PrintBuffered ops item prebuffer fmt al =
      do { (r, p1, al2) \<leftarrow> print_value_buf ops item 0 fmt ?p al1;
           (case r of None \<Rightarrow> Some (None, al2) | Some i \<Rightarrow> do { t \<leftarrow> text_at p1 i; Some (Some t, al2) }) }"
    by (simp add: cJSON_PrintBuffered_def al)
  show ?thesis
  proof (cases ok)
    case False
    then show ?thesis using value_null[of ?p item ops 0 fmt al1] assms(3) nil unfolding eq prints_def by auto
  next
    case True
    have "prebuffer mod 2 ^ 64 = prebuffer" using assms(5,6) by (simp add: INT_MAX_def)
    then have "buf_holds ?p [] (length [])" using True assms(5) by (simp add: buf_holds_def)
    then have "prints_ptr al1 (print_value_buf ops item 0 fmt ?p al1) (value_ok [] 0 ?w)"
      using item_prints[OF assms(1-4), of fmt 0] assms(7) unfolding value_prints_def by (auto simp: LIMIT_def)
    then show ?thesis
    proof (cases rule: prints_bufE)
      case null
      then show ?thesis using nil unfolding eq prints_def by auto
    next
      case (okay x q al2)
      then show ?thesis using nil text_at_value[of ?w q] unfolding eq prints_def value_ok_def by auto
    qed
  qed
qed

text \<open>
  C6. Buffered printing agrees with plain printing. For every size of the buffer to start
  with, under every allocator, \<^verbatim>\<open>cJSON_PrintBuffered\<close> stays inside the buffer it grows and
  returns the very text that \<^verbatim>\<open>cJSON_Print\<close> or \<^verbatim>\<open>cJSON_PrintUnformatted\<close> returns, or NULL when
  an allocation failed, for texts of less than a gibibyte.
\<close>

theorem cJSON_PrintBuffered_Print:
  assumes "fmt_bounded ops" "fmt_clean ops" "printable item" "int_values item" "0 \<le> prebuffer" "prebuffer \<le> INT_MAX"
    "length (json_text ops fmt 0 item) + 64 \<le> 2 ^ 30"
  shows "(\<exists>y al'. cJSON_PrintBuffered ops item prebuffer fmt al = Some (y, al') \<and> y \<in> {None, Some (json_text ops fmt 0 item)}) \<and>
    cJSON_PrintBuffered ops item prebuffer fmt [] = (if fmt then cJSON_Print ops item [] else cJSON_PrintUnformatted ops item [])"
proof -
  note b = PrintBuffered_prints[OF assms(1-7)]
  have "prints [] (if fmt then cJSON_Print ops item [] else cJSON_PrintUnformatted ops item []) (json_text ops fmt 0 item)"
    using print_value_prints(1)[OF assms(1,3,4), of "[]" 0 fmt] by (cases fmt) (simp_all add: cJSON_Print_def cJSON_PrintUnformatted_def)
  then show ?thesis using b[of al] b[of "[]"] by (auto simp: prints_def)
qed

theorem cJSON_PrintBuffered_Print_witness:
  "cJSON_PrintBuffered int_doubles sample_json 3 True [] = cJSON_Print int_doubles sample_json []"
proof -
  have s: "printable sample_json \<and> int_values sample_json" by code_simp
  have "NUL \<notin> set (int_dec d)" for d using nat_dec_clean by (auto simp: int_dec_def NUL_def)
  then have c: "fmt_clean int_doubles" by (simp add: fmt_clean_def int_doubles_def NUL_def)
  have "length (json_text int_doubles True 0 sample_json) < 100" by code_simp
  then show ?thesis
    using cJSON_PrintBuffered_Print[OF fmt_bounded_int_doubles c, of sample_json 3 True "[]"] s by (simp add: INT_MAX_def)
qed

end
