(* ===== verification/CJsonHeap.thy ===== *)
theory CJsonHeap
  imports CJsonItems
begin

text \<open>
  The children of an array or object as the doubly linked chains they are in memory:
  adding, inserting, detaching, replacing and deleting items of \<^verbatim>\<open>cJSON.c\<close>. A heap maps
  addresses to items and to strings; 0 is NULL. \<^const>\<open>None\<close> is undefined behaviour (NULL or a
  freed block is followed, a block is freed twice) or a walk that does not end.
\<close>

section \<open>Items in memory\<close>

record 'd node =
  n_next :: nat
  n_prev :: nat
  n_child :: nat
  n_type :: int
  n_valuestring :: nat
  n_valueint :: int
  n_valuedouble :: 'd
  n_string :: nat

record 'd heap =
  cells :: "nat \<rightharpoonup> 'd node"
  strs :: "nat \<rightharpoonup> string"       \<comment> \<open>allocated strings\<close>
  statics :: "nat \<rightharpoonup> string"    \<comment> \<open>string constants of the program\<close>
  brk :: nat

definition deref :: "'d heap \<Rightarrow> nat \<Rightarrow> 'd node option" where
  "deref h a = (if a = 0 then None else cells h a)"

definition put :: "nat \<Rightarrow> 'd node \<Rightarrow> 'd heap \<Rightarrow> 'd heap" where
  "put a n h = h\<lparr>cells := (cells h)(a \<mapsto> n)\<rparr>"

definition store :: "nat \<Rightarrow> ('d node \<Rightarrow> 'd node) \<Rightarrow> 'd heap \<Rightarrow> 'd heap option" where
  "store a f h = do { n \<leftarrow> deref h a; Some (put a (f n) h) }"

definition free_node :: "nat \<Rightarrow> 'd heap \<Rightarrow> 'd heap option" where
  "free_node a h = do { n \<leftarrow> deref h a; Some (h\<lparr>cells := (cells h)(a := None)\<rparr>) }"

definition free_str :: "nat \<Rightarrow> 'd heap \<Rightarrow> 'd heap option" where
  "free_str a h = (if a = 0 then Some h else do { s \<leftarrow> strs h a; Some (h\<lparr>strs := (strs h)(a := None)\<rparr>) })"

definition new_node :: "'d node \<Rightarrow> 'd heap \<Rightarrow> alloc \<Rightarrow> nat \<times> 'd heap \<times> alloc" where
  "new_node n h al =
     (let (ok, al') = malloc al
      in if ok then (brk h, h\<lparr>cells := (cells h)(brk h \<mapsto> n), brk := brk h + 1\<rparr>, al') else (0, h, al'))"

definition new_str :: "string \<Rightarrow> 'd heap \<Rightarrow> alloc \<Rightarrow> nat \<times> 'd heap \<times> alloc" where
  "new_str s h al =
     (let (ok, al') = malloc al
      in if ok then (brk h, h\<lparr>strs := (strs h)(brk h \<mapsto> s), brk := brk h + 1\<rparr>, al') else (0, h, al'))"

definition is_reference :: "'d node \<Rightarrow> bool" where
  "is_reference n \<longleftrightarrow> n_type n AND cJSON_IsReference \<noteq> 0"

definition is_const :: "'d node \<Rightarrow> bool" where
  "is_const n \<longleftrightarrow> n_type n AND cJSON_StringIsConst \<noteq> 0"

section \<open>Deleting\<close>

partial_function (option) cJSON_Delete :: "nat \<Rightarrow> 'd heap \<Rightarrow> 'd heap option" where
  "cJSON_Delete c h =
     (if c = 0 then Some h
      else do { n \<leftarrow> deref h c;
                h1 \<leftarrow> (if \<not> is_reference n \<and> n_child n \<noteq> 0 then cJSON_Delete (n_child n) h else Some h);
                n1 \<leftarrow> deref h1 c;
                h2 \<leftarrow> (if \<not> is_reference n1 then free_str (n_valuestring n1) h1 else Some h1);
                h3 \<leftarrow> (if \<not> is_const n1 then free_str (n_string n1) h2 else Some h2);
                h4 \<leftarrow> free_node c h3;
                cJSON_Delete (n_next n) h4 })"

section \<open>Adding\<close>

definition suffix_object :: "nat \<Rightarrow> nat \<Rightarrow> 'd heap \<Rightarrow> 'd heap option" where
  "suffix_object prev item h =
     do { h1 \<leftarrow> store prev (\<lambda>n. n\<lparr>n_next := item\<rparr>) h; store item (\<lambda>n. n\<lparr>n_prev := prev\<rparr>) h1 }"

definition create_reference :: "nat \<Rightarrow> 'd heap \<Rightarrow> alloc \<Rightarrow> (nat \<times> 'd heap \<times> alloc) option" where
  "create_reference item h al =
     (let (ok, al') = malloc al
      in if \<not> ok then Some (0, h, al')
         else do { n \<leftarrow> deref h item;
                   Some (new_node (n\<lparr>n_string := 0, n_type := n_type n OR cJSON_IsReference, n_next := 0, n_prev := 0\<rparr>) h al) })"

text \<open>\<^verbatim>\<open>while (c && c->next) c=c->next\<close>\<close>

partial_function (option) last_child :: "'d heap \<Rightarrow> nat \<Rightarrow> nat option" where
  "last_child h c = do { n \<leftarrow> deref h c; if n_next n = 0 then Some c else last_child h (n_next n) }"

definition cJSON_AddItemToArray_h :: "nat \<Rightarrow> nat \<Rightarrow> 'd heap \<Rightarrow> 'd heap option" where
  "cJSON_AddItemToArray_h array item h =
     do { a \<leftarrow> deref h array;
          if item = 0 then Some h
          else if n_child a = 0 then store array (\<lambda>n. n\<lparr>n_child := item\<rparr>) h
          else do { c \<leftarrow> last_child h (n_child a); suffix_object c item h } }"

definition cJSON_AddItemToObject_h :: "nat \<Rightarrow> string \<Rightarrow> nat \<Rightarrow> 'd heap \<Rightarrow> alloc \<Rightarrow> ('d heap \<times> alloc) option" where
  "cJSON_AddItemToObject_h object string item h al =
     (if item = 0 then Some (h, al)
      else do { n \<leftarrow> deref h item;
                h1 \<leftarrow> free_str (n_string n) h;
                (let (s, h2, al') = new_str string h1 al
                 in do { h3 \<leftarrow> store item (\<lambda>n. n\<lparr>n_string := s\<rparr>) h2;
                         h4 \<leftarrow> cJSON_AddItemToArray_h object item h3;
                         Some (h4, al') }) })"

definition cJSON_AddItemToObjectCS_h :: "nat \<Rightarrow> nat \<Rightarrow> nat \<Rightarrow> 'd heap \<Rightarrow> 'd heap option" where
  "cJSON_AddItemToObjectCS_h object string item h =
     (if item = 0 then Some h
      else do { n \<leftarrow> deref h item;
                h1 \<leftarrow> (if \<not> is_const n then free_str (n_string n) h else Some h);
                h2 \<leftarrow> store item (\<lambda>n. n\<lparr>n_string := string, n_type := n_type n OR cJSON_StringIsConst\<rparr>) h1;
                cJSON_AddItemToArray_h object item h2 })"

definition cJSON_AddItemReferenceToArray :: "nat \<Rightarrow> nat \<Rightarrow> 'd heap \<Rightarrow> alloc \<Rightarrow> ('d heap \<times> alloc) option" where
  "cJSON_AddItemReferenceToArray array item h al =
     do { (r, h1, al1) \<leftarrow> create_reference item h al; h2 \<leftarrow> cJSON_AddItemToArray_h array r h1; Some (h2, al1) }"

definition cJSON_AddItemReferenceToObject :: "nat \<Rightarrow> string \<Rightarrow> nat \<Rightarrow> 'd heap \<Rightarrow> alloc \<Rightarrow> ('d heap \<times> alloc) option" where
  "cJSON_AddItemReferenceToObject object string item h al =
     do { (r, h1, al1) \<leftarrow> create_reference item h al; cJSON_AddItemToObject_h object string r h1 al1 }"

section \<open>Detaching, inserting, replacing\<close>

text \<open>\<^verbatim>\<open>while (c && which>0) c=c->next,which--\<close>\<close>

fun child_at :: "'d heap \<Rightarrow> nat \<Rightarrow> nat \<Rightarrow> nat option" where
  "child_at h c 0 = Some c"
| "child_at h c (Suc which) = (if c = 0 then Some 0 else do { n \<leftarrow> deref h c; child_at h (n_next n) which })"

definition cJSON_DetachItemFromArray :: "nat \<Rightarrow> int \<Rightarrow> 'd heap \<Rightarrow> (nat \<times> 'd heap) option" where
  "cJSON_DetachItemFromArray array which h =
     do { a \<leftarrow> deref h array;
          c \<leftarrow> child_at h (n_child a) (nat which);
          if c = 0 then Some (0, h)
          else do { n \<leftarrow> deref h c;
                    h1 \<leftarrow> (if n_prev n \<noteq> 0 then store (n_prev n) (\<lambda>m. m\<lparr>n_next := n_next n\<rparr>) h else Some h);
                    n1 \<leftarrow> deref h1 c;
                    h2 \<leftarrow> (if n_next n1 \<noteq> 0 then store (n_next n1) (\<lambda>m. m\<lparr>n_prev := n_prev n1\<rparr>) h1 else Some h1);
                    n2 \<leftarrow> deref h2 c;
                    h3 \<leftarrow> (if c = n_child a
                          then do { h' \<leftarrow> store array (\<lambda>m. m\<lparr>n_child := n_next n2\<rparr>) h2; store c (\<lambda>m. m\<lparr>n_prev := 0, n_next := 0\<rparr>) h' }
                          else Some h2);
                    Some (c, h3) } }"

definition cJSON_DeleteItemFromArray :: "nat \<Rightarrow> int \<Rightarrow> 'd heap \<Rightarrow> 'd heap option" where
  "cJSON_DeleteItemFromArray array which h =
     do { (c, h1) \<leftarrow> cJSON_DetachItemFromArray array which h; cJSON_Delete c h1 }"

text \<open>The first child with the name, with its index.\<close>

definition name_of :: "'d heap \<Rightarrow> 'd node \<Rightarrow> cptr option" where
  "name_of h n = (if n_string n = 0 then Some None else (case strs h (n_string n) of Some s \<Rightarrow> Some (Some s) | None \<Rightarrow> do { s \<leftarrow> statics h (n_string n); Some (Some s) }))"

partial_function (option) find_child :: "'d heap \<Rightarrow> string \<Rightarrow> nat \<Rightarrow> int \<Rightarrow> (nat \<times> int) option" where
  "find_child h string c i =
     (if c = 0 then Some (0, i)
      else do { n \<leftarrow> deref h c;
                nm \<leftarrow> name_of h n;
                if cJSON_strcasecmp nm (Some string) \<noteq> 0 then find_child h string (n_next n) (i + 1) else Some (c, i) })"

definition cJSON_DetachItemFromObject :: "nat \<Rightarrow> string \<Rightarrow> 'd heap \<Rightarrow> (nat \<times> 'd heap) option" where
  "cJSON_DetachItemFromObject object string h =
     do { a \<leftarrow> deref h object;
          (c, i) \<leftarrow> find_child h string (n_child a) 0;
          if c \<noteq> 0 then cJSON_DetachItemFromArray object i h else Some (0, h) }"

definition cJSON_DeleteItemFromObject :: "nat \<Rightarrow> string \<Rightarrow> 'd heap \<Rightarrow> 'd heap option" where
  "cJSON_DeleteItemFromObject object string h =
     do { (c, h1) \<leftarrow> cJSON_DetachItemFromObject object string h; cJSON_Delete c h1 }"

definition cJSON_InsertItemInArray :: "nat \<Rightarrow> int \<Rightarrow> nat \<Rightarrow> 'd heap \<Rightarrow> 'd heap option" where
  "cJSON_InsertItemInArray array which newitem h =
     do { a \<leftarrow> deref h array;
          c \<leftarrow> child_at h (n_child a) (nat which);
          if c = 0 then cJSON_AddItemToArray_h array newitem h
          else do { n \<leftarrow> deref h c;
                    h1 \<leftarrow> store newitem (\<lambda>m. m\<lparr>n_next := c, n_prev := n_prev n\<rparr>) h;
                    h2 \<leftarrow> store c (\<lambda>m. m\<lparr>n_prev := newitem\<rparr>) h1;
                    if c = n_child a then store array (\<lambda>m. m\<lparr>n_child := newitem\<rparr>) h2
                    else do { m \<leftarrow> deref h2 newitem; store (n_prev m) (\<lambda>m. m\<lparr>n_next := newitem\<rparr>) h2 } } }"

definition cJSON_ReplaceItemInArray :: "nat \<Rightarrow> int \<Rightarrow> nat \<Rightarrow> 'd heap \<Rightarrow> 'd heap option" where
  "cJSON_ReplaceItemInArray array which newitem h =
     do { a \<leftarrow> deref h array;
          c \<leftarrow> child_at h (n_child a) (nat which);
          if c = 0 then Some h
          else do { n \<leftarrow> deref h c;
                    h1 \<leftarrow> store newitem (\<lambda>m. m\<lparr>n_next := n_next n, n_prev := n_prev n\<rparr>) h;
                    m1 \<leftarrow> deref h1 newitem;
                    h2 \<leftarrow> (if n_next m1 \<noteq> 0 then store (n_next m1) (\<lambda>m. m\<lparr>n_prev := newitem\<rparr>) h1 else Some h1);
                    h3 \<leftarrow> (if c = n_child a then store array (\<lambda>m. m\<lparr>n_child := newitem\<rparr>) h2
                          else do { m2 \<leftarrow> deref h2 newitem; store (n_prev m2) (\<lambda>m. m\<lparr>n_next := newitem\<rparr>) h2 });
                    h4 \<leftarrow> store c (\<lambda>m. m\<lparr>n_next := 0, n_prev := 0\<rparr>) h3;
                    cJSON_Delete c h4 } }"

definition cJSON_ReplaceItemInObject :: "nat \<Rightarrow> string \<Rightarrow> nat \<Rightarrow> 'd heap \<Rightarrow> alloc \<Rightarrow> ('d heap \<times> alloc) option" where
  "cJSON_ReplaceItemInObject object string newitem h al =
     do { a \<leftarrow> deref h object;
          (c, i) \<leftarrow> find_child h string (n_child a) 0;
          if c \<noteq> 0
          then (let (s, h1, al1) = new_str string h al
                in do { h2 \<leftarrow> store newitem (\<lambda>m. m\<lparr>n_string := s\<rparr>) h1;
                        h3 \<leftarrow> cJSON_ReplaceItemInArray object i newitem h2;
                        Some (h3, al1) })
          else Some (h, al) }"

section \<open>Chains\<close>

text \<open>
  The items \<^verbatim>\<open>xs\<close> lie one after the other from \<^verbatim>\<open>c\<close> on: the first has \<^verbatim>\<open>p\<close> before it, the last is
  \<^verbatim>\<open>q\<close> (or \<^verbatim>\<open>p\<close> if there is none) and has \<^verbatim>\<open>e\<close> after it.
\<close>

fun seg :: "'d heap \<Rightarrow> nat \<Rightarrow> nat \<Rightarrow> nat list \<Rightarrow> nat \<Rightarrow> nat \<Rightarrow> bool" where
  "seg h p c [] q e \<longleftrightarrow> c = e \<and> p = q"
| "seg h p c (x # xs) q e \<longleftrightarrow> c = x \<and> (\<exists>n. deref h x = Some n \<and> n_prev n = p \<and> seg h x (n_next n) xs q e)"

text \<open>The children of the item at \<^verbatim>\<open>a\<close>.\<close>

definition arr :: "nat \<Rightarrow> 'd heap \<Rightarrow> nat list \<Rightarrow> bool" where
  "arr a h xs \<longleftrightarrow> distinct (a # xs) \<and> (\<exists>n q. deref h a = Some n \<and> seg h 0 (n_child n) xs q 0)"

lemma deref_put: "deref (put a n h) b = (if b = a \<and> a \<noteq> 0 then Some n else deref h b)"
  by (simp add: deref_def put_def)

lemma store_put: "deref h a = Some n \<Longrightarrow> store a f h = Some (put a (f n) h)"
  by (simp add: store_def)

lemma deref_nonzero: "deref h a = Some n \<Longrightarrow> a \<noteq> 0"
  by (cases "a = 0") (simp_all add: deref_def)

lemma seg_append: "seg h p c (xs @ ys) q e \<longleftrightarrow> (\<exists>r m. seg h p c xs r m \<and> seg h r m ys q e)"
  by (induction xs arbitrary: p c) auto

lemma seg_cong: "(\<And>x. x \<in> set xs \<Longrightarrow> deref h' x = deref h x) \<Longrightarrow> seg h' p c xs q e = seg h p c xs q e"
  by (induction xs arbitrary: p c) auto

lemma seg_put_other: "a \<notin> set xs \<Longrightarrow> seg (put a n h) p c xs q e = seg h p c xs q e"
  by (rule seg_cong) (auto simp: deref_put)

lemma seg_mem: "seg h p c xs q e \<Longrightarrow> x \<in> set xs \<Longrightarrow> deref h x \<noteq> None"
  by (induction xs arbitrary: p c) auto

lemma seg_nonzero: "seg h p c xs q e \<Longrightarrow> 0 \<notin> set xs"
  by (auto dest: seg_mem simp: deref_def)

lemma seg_last: "seg h p c xs q e \<Longrightarrow> q = (if xs = [] then p else last xs)"
  by (induction xs arbitrary: p c) auto

lemma seg_hd: "seg h p c xs q e \<Longrightarrow> c = (if xs = [] then e else hd xs)"
  by (cases xs) auto

text \<open>Changing what comes after the last item, and what comes before the first one.\<close>

lemma seg_set_end:
  assumes "seg h p c (xs @ [r]) q e" "distinct (xs @ [r])" "deref h r = Some n"
  shows "seg (put r (n\<lparr>n_next := e'\<rparr>) h) p c (xs @ [r]) r e'"
proof -
  obtain m k where "seg h p c xs m k" "seg h m k [r] q e" using assms(1) by (auto simp: seg_append)
  then have "seg (put r (n\<lparr>n_next := e'\<rparr>) h) p c xs m r" "n_prev n = m"
    using assms by (auto simp: seg_put_other)
  then show ?thesis using deref_nonzero[OF assms(3)] by (auto simp: seg_append deref_put)
qed

lemma seg_set_start:
  assumes "seg h p c (x # xs) q e" "x \<notin> set xs" "deref h x = Some n"
  shows "seg (put x (n\<lparr>n_prev := p'\<rparr>) h) p' x (x # xs) q e"
  using assms deref_nonzero[OF assms(3)] by (auto simp: deref_put seg_put_other)

lemma child_at_seg:
  assumes "seg h p c xs q 0"
  shows "child_at h c k = Some (if k < length xs then xs ! k else 0)"
  using assms
proof (induction k arbitrary: p c xs)
  case 0
  then show ?case by (cases xs) auto
next
  case (Suc k)
  show ?case
  proof (cases xs)
    case Nil
    then show ?thesis using Suc.prems by simp
  next
    case (Cons x ys)
    then obtain n where n: "c = x" "deref h x = Some n" "seg h x (n_next n) ys q 0" using Suc.prems by auto
    then show ?thesis using Suc.IH[OF n(3)] Cons deref_nonzero[OF n(2)] by simp
  qed
qed

lemma last_child_seg: "seg h p c xs q 0 \<Longrightarrow> xs \<noteq> [] \<Longrightarrow> last_child h c = Some (last xs)"
proof (induction xs arbitrary: p c)
  case (Cons x xs)
  then obtain n where n: "c = x" "deref h x = Some n" "seg h x (n_next n) xs q 0" by auto
  show ?case
  proof (cases "xs = []")
    case True
    then show ?thesis using n by (subst last_child.simps) simp
  next
    case False
    then have "n_next n \<noteq> 0" using n(3) seg_hd[OF n(3)] seg_nonzero[OF n(3)] by (metis hd_in_set)
    then show ?thesis using n False Cons.IH[OF n(3)] by (subst last_child.simps) simp
  qed
qed simp

text \<open>
  What an operation on the children of \<^verbatim>\<open>a\<close> leaves alone: every item outside \<^verbatim>\<open>S\<close>, and of every
  item all but its links and, for \<^verbatim>\<open>a\<close>, its child.
\<close>

definition contents :: "nat \<Rightarrow> nat \<Rightarrow> 'd node \<Rightarrow> 'd node" where
  "contents a x n = n\<lparr>n_next := 0, n_prev := 0, n_child := (if x = a then 0 else n_child n)\<rparr>"

definition frame :: "nat \<Rightarrow> nat set \<Rightarrow> 'd heap \<Rightarrow> 'd heap \<Rightarrow> bool" where
  "frame a S h h' \<longleftrightarrow>
     (\<forall>x. x \<notin> S \<longrightarrow> deref h' x = deref h x) \<and>
     (\<forall>x. map_option (contents a x) (deref h' x) = map_option (contents a x) (deref h x)) \<and>
     strs h' = strs h \<and> statics h' = statics h \<and> brk h' = brk h"

lemma frame_refl: "frame a S h h"
  by (simp add: frame_def)

lemma frame_trans: "frame a S h1 h2 \<Longrightarrow> frame a T h2 h3 \<Longrightarrow> frame a (S \<union> T) h1 h3"
  by (auto simp: frame_def)

lemma frame_mono: "frame a S h h' \<Longrightarrow> S \<subseteq> T \<Longrightarrow> frame a T h h'"
  by (auto simp: frame_def)

lemma frame_deref: "frame a S h h' \<Longrightarrow> x \<notin> S \<Longrightarrow> deref h' x = deref h x"
  by (auto simp: frame_def)

lemma frame_seg: "frame a S h h' \<Longrightarrow> set xs \<inter> S = {} \<Longrightarrow> seg h' p c xs q e = seg h p c xs q e"
  by (rule seg_cong) (auto simp: frame_def)

lemma frame_put:
  assumes "deref h x = Some n" "contents a x n' = contents a x n"
  shows "frame a {x} h (put x n' h)"
  using assms deref_nonzero[OF assms(1)] by (auto simp: frame_def deref_put) (auto simp: put_def)

lemma relink_next:
  assumes "seg h 0 c us r k" "distinct us"
  shows "\<exists>h1. (if r \<noteq> 0 then store r (\<lambda>m. m\<lparr>n_next := e\<rparr>) h else Some h) = Some h1 \<and>
    seg h1 0 (if us = [] then e else c) us r e \<and> frame a (set us) h h1"
proof (cases us rule: rev_cases)
  case Nil
  then show ?thesis using assms(1) by (auto simp: frame_refl)
next
  case (snoc us' r')
  then have r: "r = r'" using seg_last[OF assms(1)] by simp
  obtain n where n: "deref h r = Some n" using seg_mem[OF assms(1), of r] snoc r by auto
  let ?h = "put r (n\<lparr>n_next := e\<rparr>) h"
  have "seg ?h 0 c us r e" using seg_set_end[of h 0 c us' r r k n e] assms snoc r n by simp
  moreover have "frame a {r} h ?h" by (rule frame_put[OF n]) (simp add: contents_def)
  ultimately show ?thesis
    using snoc r n deref_nonzero[OF n] by (intro exI[of _ ?h]) (auto simp: store_put elim: frame_mono)
qed

definition same_next :: "'d heap \<Rightarrow> 'd heap \<Rightarrow> bool" where
  "same_next h h' \<longleftrightarrow> (\<forall>x. map_option n_next (deref h' x) = map_option n_next (deref h x))"

lemma relink_prev:
  assumes "seg h p c vs q 0" "distinct vs"
  shows "\<exists>h1. (if c \<noteq> 0 then store c (\<lambda>m. m\<lparr>n_prev := p'\<rparr>) h else Some h) = Some h1 \<and>
    (\<exists>q'. seg h1 p' c vs q' 0) \<and> frame a (set vs) h h1 \<and> same_next h h1"
proof (cases vs)
  case Nil
  then show ?thesis using assms(1) by (auto simp: frame_refl same_next_def)
next
  case (Cons v vs')
  then obtain n where n: "c = v" "deref h v = Some n" using assms(1) by auto
  let ?h = "put v (n\<lparr>n_prev := p'\<rparr>) h"
  have "seg ?h p' v vs q 0" using seg_set_start[of h p c v vs' q 0 n p'] assms Cons n by simp
  moreover have "frame a {v} h ?h" by (rule frame_put[OF n(2)]) (simp add: contents_def)
  moreover have "same_next h ?h" using n(2) by (auto simp: same_next_def deref_put)
  ultimately show ?thesis
    using Cons n deref_nonzero[OF n(2)] by (intro exI[of _ ?h]) (auto simp: store_put elim: frame_mono)
qed

lemma arr_split:
  assumes "arr a h (us @ c # vs)"
  obtains n m r q where "deref h a = Some n" "seg h 0 (n_child n) us r c" "deref h c = Some m" "n_prev m = r"
    "seg h c (n_next m) vs q 0" "distinct us" "distinct vs" "a \<notin> set us" "a \<notin> set vs" "a \<noteq> c" "c \<notin> set us" "c \<notin> set vs"
    "set us \<inter> set vs = {}"
  using assms by (auto simp: arr_def seg_append)

text \<open>
  Detaching: the chain closes over the item. Its own links are cleared only when it was the
  first one.
\<close>

lemma detach_arr:
  assumes "arr a h (us @ c # vs)"
  shows "\<exists>h' m. cJSON_DetachItemFromArray a (int (length us)) h = Some (c, h') \<and> arr a h' (us @ vs) \<and>
    deref h c = Some m \<and> deref h' c = Some (if us = [] then m\<lparr>n_prev := 0, n_next := 0\<rparr> else m) \<and>
    n_next m = (if vs = [] then 0 else hd vs) \<and> frame a (set (a # us @ c # vs)) h h' \<and>
    (us \<noteq> [] \<longrightarrow> (\<forall>x. x \<notin> set us \<longrightarrow> map_option n_next (deref h' x) = map_option n_next (deref h x)))"
proof -
  obtain n m r q where A: "deref h a = Some n" "seg h 0 (n_child n) us r c" "deref h c = Some m" "n_prev m = r"
    "seg h c (n_next m) vs q 0" "distinct us" "distinct vs" "a \<notin> set us" "a \<notin> set vs" "a \<noteq> c" "c \<notin> set us" "c \<notin> set vs"
    "set us \<inter> set vs = {}" using arr_split[OF assms] by metis
  have whole: "seg h 0 (n_child n) (us @ c # vs) q 0" using A by (auto simp: seg_append)
  have at: "child_at h (n_child n) (length us) = Some c" using child_at_seg[OF whole] by simp
  have c0: "c \<noteq> 0" by (rule deref_nonzero[OF A(3)])
  obtain h1 where 1: "(if r \<noteq> 0 then store r (\<lambda>k. k\<lparr>n_next := n_next m\<rparr>) h else Some h) = Some h1"
    "seg h1 0 (if us = [] then n_next m else n_child n) us r (n_next m)" "frame a (set us) h h1"
    using relink_next[OF A(2,6)] by blast
  have c1: "deref h1 c = Some m" "deref h1 a = Some n" using frame_deref[OF 1(3)] A by auto
  have "seg h1 c (n_next m) vs q 0" using frame_seg[OF 1(3)] A(5,13) by (metis Int_commute)
  then obtain h2 q' where 2: "(if n_next m \<noteq> 0 then store (n_next m) (\<lambda>k. k\<lparr>n_prev := r\<rparr>) h1 else Some h1) = Some h2"
    "seg h2 r (n_next m) vs q' 0" "frame a (set vs) h1 h2" "same_next h1 h2"
    using relink_prev[OF _ A(7)] by blast
  have c2: "deref h2 c = Some m" "deref h2 a = Some n" using frame_deref[OF 2(3)] c1 A by auto
  have us2: "seg h2 0 (if us = [] then n_next m else n_child n) us r (n_next m)" using frame_seg[OF 2(3)] 1(2) A(13) by blast
  have first: "c = n_child n \<longleftrightarrow> us = []" using seg_hd[OF A(2)] A(11) by (cases us) auto
  have f2: "frame a (set us \<union> set vs) h h2" by (rule frame_trans[OF 1(3) 2(3)])
  have nx: "n_next m = (if vs = [] then 0 else hd vs)" by (rule seg_hd[OF A(5)])
  have dis: "distinct (a # us @ vs)" using A by auto
  have both: "seg h2 0 (if us = [] then n_next m else n_child n) (us @ vs) q' 0" unfolding seg_append using us2 2(2) by blast
  show ?thesis
  proof (cases "us = []")
    case False
    have "cJSON_DetachItemFromArray a (int (length us)) h = Some (c, h2)"
      using A(1,3) at c0 1(1)[folded A(4)] c1 2(1)[folded A(4)] c2 first False by (simp add: cJSON_DetachItemFromArray_def split del: if_split)
    moreover have "arr a h2 (us @ vs)" using both c2 dis False by (auto simp: arr_def)
    moreover have "\<forall>x. x \<notin> set us \<longrightarrow> map_option n_next (deref h2 x) = map_option n_next (deref h x)"
      using 2(4) frame_deref[OF 1(3)] by (simp add: same_next_def)
    ultimately show ?thesis using A(3) c2 nx f2 False by (intro exI[of _ h2] exI[of _ m]) (auto elim: frame_mono)
  next
    case True
    let ?h3 = "put a (n\<lparr>n_child := n_next m\<rparr>) h2"
    let ?h4 = "put c (m\<lparr>n_prev := 0, n_next := 0\<rparr>) ?h3"
    have d: "deref ?h3 c = Some m" using c2 A(10) by (simp add: deref_put)
    have op: "cJSON_DetachItemFromArray a (int (length us)) h = Some (c, ?h4)"
      using A(1,3) at c0 1(1)[folded A(4)] c1 2(1)[folded A(4)] c2 first True d by (simp add: cJSON_DetachItemFromArray_def store_put split del: if_split)
    have ar: "arr a ?h4 (us @ vs)"
      using both dis True A deref_nonzero[OF A(1)] by (auto simp: arr_def deref_put seg_put_other)
    have "frame a {a} h2 ?h3" by (rule frame_put[OF c2(2)]) (simp add: contents_def)
    moreover have "frame a {c} ?h3 ?h4" by (rule frame_put[OF d]) (simp add: contents_def)
    ultimately have "frame a (set us \<union> set vs \<union> {a} \<union> {c}) h ?h4" using frame_trans[OF frame_trans[OF f2]] by blast
    then show ?thesis using op ar A(3) nx True c0 by (intro exI[of _ ?h4] exI[of _ m]) (auto simp: deref_put elim: frame_mono)
  qed
qed

text \<open>An item that is in no chain.\<close>

definition loose :: "nat \<Rightarrow> 'd heap \<Rightarrow> nat list \<Rightarrow> nat \<Rightarrow> bool" where
  "loose a h xs i \<longleftrightarrow> i \<notin> set (a # xs) \<and> (\<exists>n. deref h i = Some n \<and> n_next n = 0 \<and> n_prev n = 0)"

lemma add_arr:
  assumes "arr a h xs" "loose a h xs i"
  shows "\<exists>h'. cJSON_AddItemToArray_h a i h = Some h' \<and> arr a h' (xs @ [i]) \<and> frame a (set (a # i # xs)) h h'"
proof -
  obtain n q where A: "deref h a = Some n" "seg h 0 (n_child n) xs q 0" "distinct (a # xs)" using assms(1) by (auto simp: arr_def)
  obtain m where m: "deref h i = Some m" "n_next m = 0" "n_prev m = 0" "i \<notin> set (a # xs)" using assms(2) by (auto simp: loose_def)
  have i0: "i \<noteq> 0" by (rule deref_nonzero[OF m(1)])
  show ?thesis
  proof (cases "xs = []")
    case True
    then have c: "n_child n = 0" "q = 0" using A(2) by auto
    let ?h = "put a (n\<lparr>n_child := i\<rparr>) h"
    have "cJSON_AddItemToArray_h a i h = Some ?h" using A(1) c i0 by (simp add: cJSON_AddItemToArray_h_def store_put)
    moreover have "arr a ?h (xs @ [i])"
      using True A(1) m deref_nonzero[OF A(1)] by (auto simp: arr_def deref_put)
    moreover have "frame a {a} h ?h" by (rule frame_put[OF A(1)]) (simp add: contents_def)
    ultimately show ?thesis by (auto elim: frame_mono)
  next
    case False
    then have c: "n_child n \<noteq> 0" using seg_hd[OF A(2)] seg_nonzero[OF A(2)] by (metis hd_in_set)
    have l: "last_child h (n_child n) = Some (last xs)" by (rule last_child_seg[OF A(2) False])
    have q: "q = last xs" using seg_last[OF A(2)] False by simp
    then have q0: "q \<noteq> 0" using seg_nonzero[OF A(2)] last_in_set[OF False] by metis
    obtain h1 where 1: "store q (\<lambda>k. k\<lparr>n_next := i\<rparr>) h = Some h1" "seg h1 0 (n_child n) xs q i" "frame a (set xs) h h1"
      using relink_next[OF A(2), of i a] A(3) False q0 by auto
    have m1: "deref h1 i = Some m" "deref h1 a = Some n" using frame_deref[OF 1(3)] m A by auto
    let ?h = "put i (m\<lparr>n_prev := q\<rparr>) h1"
    have "cJSON_AddItemToArray_h a i h = Some ?h"
      using A(1) c i0 l q 1(1) m1 by (simp add: cJSON_AddItemToArray_h_def suffix_object_def store_put)
    moreover have "arr a ?h (xs @ [i])"
      using A(3) m 1(2) m1 i0 by (auto simp: arr_def deref_put seg_append seg_put_other)
    moreover have "frame a {i} h1 ?h" by (rule frame_put[OF m1(1)]) (simp add: contents_def)
    then have "frame a (set xs \<union> {i}) h ?h" by (rule frame_trans[OF 1(3)])
    ultimately show ?thesis by (auto elim: frame_mono)
  qed
qed

text \<open>Hanging a chain that starts with \<^verbatim>\<open>i\<close> behind the items \<^verbatim>\<open>us\<close>, the first of which the array points to.\<close>

lemma relink_head:
  assumes "deref h a = Some n" "seg h 0 (n_child n) us r c" "seg h r i (i # ws) q 0" "distinct (a # us @ i # ws)"
  shows "\<exists>h'. (if us = [] then store a (\<lambda>m. m\<lparr>n_child := i\<rparr>) h else store r (\<lambda>m. m\<lparr>n_next := i\<rparr>) h) = Some h' \<and>
    arr a h' (us @ i # ws) \<and> frame a (set (a # us)) h h'"
proof (cases "us = []")
  case True
  let ?h = "put a (n\<lparr>n_child := i\<rparr>) h"
  have "a \<notin> set (i # ws)" using assms(4) by auto
  with assms(3) have "seg ?h r i (i # ws) q 0" by (metis seg_put_other)
  then have "arr a ?h (us @ i # ws)" using True assms deref_nonzero[OF assms(1)] by (auto simp: arr_def deref_put)
  moreover have "frame a {a} h ?h" by (rule frame_put[OF assms(1)]) (simp add: contents_def)
  ultimately show ?thesis using True assms(1) by (auto simp: store_put)
next
  case False
  have "r \<noteq> 0" using seg_last[OF assms(2)] seg_nonzero[OF assms(2)] False by (metis last_in_set)
  then obtain h' where 1: "store r (\<lambda>k. k\<lparr>n_next := i\<rparr>) h = Some h'" "seg h' 0 (n_child n) us r i" "frame a (set us) h h'"
    using relink_next[OF assms(2), of i a] assms(4) False by auto
  have "set (i # ws) \<inter> set us = {}" using assms(4) by auto
  then have "seg h' r i (i # ws) q 0" using assms(3) frame_seg[OF 1(3)] by blast
  then have "seg h' 0 (n_child n) (us @ i # ws) q 0" unfolding seg_append using 1(2) by blast
  moreover have "deref h' a = Some n" using frame_deref[OF 1(3)] assms(1,4) by auto
  ultimately show ?thesis using 1 False assms(4) by (auto simp: arr_def elim: frame_mono)
qed

lemma arr_position:
  assumes "arr a h (us @ c # vs)" "deref h a = Some n"
  shows "child_at h (n_child n) (length us) = Some c" "c = n_child n \<longleftrightarrow> us = []"
proof -
  obtain q where q: "seg h 0 (n_child n) (us @ c # vs) q 0" "distinct (us @ c # vs)" using assms by (auto simp: arr_def)
  show "child_at h (n_child n) (length us) = Some c" using child_at_seg[OF q(1)] by simp
  show "c = n_child n \<longleftrightarrow> us = []" using seg_hd[OF q(1)] q(2) by (cases us) auto
qed

text \<open>Inserting before an item.\<close>

lemma insert_arr:
  assumes "arr a h (us @ c # vs)" "loose a h (us @ c # vs) i"
  shows "\<exists>h'. cJSON_InsertItemInArray a (int (length us)) i h = Some h' \<and> arr a h' (us @ i # c # vs) \<and>
    frame a (set (a # i # us @ c # vs)) h h'"
proof -
  obtain n m r q where A: "deref h a = Some n" "seg h 0 (n_child n) us r c" "deref h c = Some m" "n_prev m = r"
    "seg h c (n_next m) vs q 0" "distinct us" "distinct vs" "a \<notin> set us" "a \<notin> set vs" "a \<noteq> c" "c \<notin> set us" "c \<notin> set vs"
    "set us \<inter> set vs = {}" using arr_split[OF assms(1)] by metis
  obtain k where i: "deref h i = Some k" "i \<noteq> a" "i \<noteq> c" "i \<notin> set us" "i \<notin> set vs" using assms(2) by (auto simp: loose_def)
  have nz: "c \<noteq> 0" "i \<noteq> 0" "a \<noteq> 0" using deref_nonzero A(1,3) i(1) by blast+
  let ?h1 = "put i (k\<lparr>n_next := c, n_prev := r\<rparr>) h"
  let ?h2 = "put c (m\<lparr>n_prev := i\<rparr>) ?h1"
  have d: "deref ?h1 c = Some m" "deref ?h2 a = Some n" "deref ?h2 i = Some (k\<lparr>n_next := c, n_prev := r\<rparr>)" "deref ?h2 c = Some (m\<lparr>n_prev := i\<rparr>)"
    using A i nz by (auto simp: deref_put)
  have tail: "seg ?h2 r i (i # c # vs) q 0" using d A(5) i(5) A(12) by (simp add: seg_put_other)
  have us2: "seg ?h2 0 (n_child n) us r c" using A(2,11) i(4) by (simp add: seg_put_other)
  have "frame a {i} h ?h1" by (rule frame_put[OF i(1)]) (simp add: contents_def)
  then have f2: "frame a ({i} \<union> {c}) h ?h2" by (rule frame_trans) (rule frame_put[OF d(1)], simp add: contents_def)
  obtain h3 where 3: "(if us = [] then store a (\<lambda>m. m\<lparr>n_child := i\<rparr>) ?h2 else store r (\<lambda>m. m\<lparr>n_next := i\<rparr>) ?h2) = Some h3"
    "arr a h3 (us @ i # c # vs)" "frame a (set (a # us)) ?h2 h3"
    using relink_head[OF d(2) us2 tail] A i by auto
  have "cJSON_InsertItemInArray a (int (length us)) i h = Some h3"
    using A(1,3,4) arr_position[OF assms(1) A(1)] nz i(1) d 3(1) by (cases "us = []") (simp_all add: cJSON_InsertItemInArray_def store_put)
  then show ?thesis using 3(2) frame_trans[OF f2 3(3)] by (auto elim: frame_mono)
qed

section \<open>What deleting frees\<close>

definition kids :: "'d node \<Rightarrow> nat" where
  "kids n = (if is_reference n then 0 else n_child n)"

definition own_strs :: "'d node \<Rightarrow> nat list" where
  "own_strs n = (if \<not> is_reference n \<and> n_valuestring n \<noteq> 0 then [n_valuestring n] else []) @
     (if \<not> is_const n \<and> n_string n \<noteq> 0 then [n_string n] else [])"

text \<open>The items and strings below and after an item, in the order in which they are freed.\<close>

inductive frees :: "'d heap \<Rightarrow> nat \<Rightarrow> nat list \<Rightarrow> nat list \<Rightarrow> bool" for h where
  nil: "frees h 0 [] []"
| item: "deref h c = Some n \<Longrightarrow> frees h (kids n) ns1 ss1 \<Longrightarrow> frees h (n_next n) ns2 ss2 \<Longrightarrow>
    frees h c (ns1 @ c # ns2) (ss1 @ own_strs n @ ss2)"

inductive_cases frees_itemE: "frees h c ns ss"

definition freed :: "nat list \<Rightarrow> nat list \<Rightarrow> 'd heap \<Rightarrow> 'd heap" where
  "freed ns ss h = h\<lparr>cells := cells h |` (- set ns), strs := strs h |` (- set ss)\<rparr>"

lemma deref_freed: "deref (freed ns ss h) x = (if x \<in> set ns then None else deref h x)"
  by (simp add: deref_def freed_def restrict_map_def)

lemma freed_freed: "freed ns ss (freed ns' ss' h) = freed (ns' @ ns) (ss' @ ss) h"
  by (cases h) (auto simp: freed_def restrict_map_def fun_eq_iff)

lemma freed_Nil: "freed [] [] h = h"
  by (cases h) (simp add: freed_def restrict_map_def)

lemma free_node_freed: "deref h c = Some n \<Longrightarrow> free_node c h = Some (freed [c] [] h)"
  by (cases h) (auto simp: free_node_def freed_def restrict_map_def fun_eq_iff)

lemma free_str_freed: "s \<noteq> 0 \<Longrightarrow> s \<in> dom (strs h) \<Longrightarrow> free_str s h = Some (freed [] [s] h)"
  by (cases h) (auto simp: free_str_def freed_def restrict_map_def fun_eq_iff)

lemma free_own_strs:
  assumes "distinct (own_strs n)" "set (own_strs n) \<subseteq> dom (strs h)"
  shows "do { h2 \<leftarrow> (if \<not> is_reference n then free_str (n_valuestring n) h else Some h);
              if \<not> is_const n then free_str (n_string n) h2 else Some h2 } = Some (freed [] (own_strs n) h)"
proof -
  have f: "free_str (n_string n) (freed [] [v] h) = Some (freed [] [n_string n] (freed [] [v] h))"
    if "n_string n \<noteq> 0" "n_string n \<in> dom (strs h)" "n_string n \<noteq> v" for v
    using that by (intro free_str_freed) (auto simp: freed_def restrict_map_def)
  show ?thesis
    using assms f[of "n_valuestring n"]
    by (auto simp: own_strs_def free_str_freed freed_freed freed_Nil free_str_def[of 0] split: if_splits)
qed

lemma cJSON_Delete_frees:
  assumes "frees h0 c ns ss" "\<forall>x \<in> set ns. deref h x = deref h0 x" "distinct ns" "distinct ss" "set ss \<subseteq> dom (strs h)"
  shows "cJSON_Delete c h = Some (freed ns ss h)"
  using assms
proof (induction arbitrary: h)
  case nil
  then show ?case by (subst cJSON_Delete.simps) (simp add: freed_Nil)
next
  case (item c n ns1 ss1 ns2 ss2)
  have c: "deref h c = Some n" "c \<noteq> 0" using item.hyps(1) item.prems(1) deref_nonzero[OF item.hyps(1)] by auto
  have 1: "cJSON_Delete (kids n) h = Some (freed ns1 ss1 h)" using item.prems by (intro item.IH(1)) auto
  then have 1: "(if \<not> is_reference n \<and> n_child n \<noteq> 0 then cJSON_Delete (n_child n) h else Some h) = Some (freed ns1 ss1 h)"
    by (auto simp: kids_def cJSON_Delete.simps[of 0] split: if_splits)
  have c1: "deref (freed ns1 ss1 h) c = Some n" using c item.prems(2) by (simp add: deref_freed)
  have "set (own_strs n) \<subseteq> dom (strs (freed ns1 ss1 h))"
    using item.prems(3,4) by (auto simp: freed_def restrict_map_def)
  with item.prems(3) have 2: "do { h2 \<leftarrow> (if \<not> is_reference n then free_str (n_valuestring n) (freed ns1 ss1 h) else Some (freed ns1 ss1 h));
      if \<not> is_const n then free_str (n_string n) h2 else Some h2 } = Some (freed [] (own_strs n) (freed ns1 ss1 h))"
    by (intro free_own_strs) auto
  have 3: "free_node c (freed [] (own_strs n) (freed ns1 ss1 h)) = Some (freed [c] [] (freed [] (own_strs n) (freed ns1 ss1 h)))"
    using c1 by (intro free_node_freed) (simp add: deref_freed)
  let ?h4 = "freed (ns1 @ [c]) (ss1 @ own_strs n) h"
  have "\<forall>x \<in> set ns2. deref ?h4 x = deref h0 x" using item.prems(1,2) by (auto simp: deref_freed)
  moreover have "set ss2 \<subseteq> dom (strs ?h4)" using item.prems(3,4) by (auto simp: freed_def restrict_map_def)
  ultimately have 4: "cJSON_Delete (n_next n) ?h4 = Some (freed ns2 ss2 ?h4)" using item.prems(2,3) by (intro item.IH(2)) auto
  from 2 obtain h2 where h2: "(if \<not> is_reference n then free_str (n_valuestring n) (freed ns1 ss1 h) else Some (freed ns1 ss1 h)) = Some h2"
    "(if \<not> is_const n then free_str (n_string n) h2 else Some h2) = Some (freed [] (own_strs n) (freed ns1 ss1 h))"
    by (auto simp: bind_eq_Some_conv)
  show ?case
    using c c1 1 h2 3 4 by (subst cJSON_Delete.simps) (simp add: freed_freed split del: if_split)
qed

text \<open>What is freed depends on nothing but the contents of those items and the links after them.\<close>

lemma frees_cong:
  assumes "frees h c ns ss" "\<And>x n. x \<in> set ns \<Longrightarrow> deref h x = Some n \<Longrightarrow>
    \<exists>n'. deref h' x = Some n' \<and> kids n' = kids n \<and> own_strs n' = own_strs n \<and> n_next n' = n_next n"
  shows "frees h' c ns ss"
  using assms
proof (induction)
  case nil
  then show ?case by (simp add: frees.nil)
next
  case (item c n ns1 ss1 ns2 ss2)
  obtain n' where n': "deref h' c = Some n'" "kids n' = kids n" "own_strs n' = own_strs n" "n_next n' = n_next n"
    using item.prems[of c n] item.hyps(1) by auto
  have "frees h' (kids n') ns1 ss1" "frees h' (n_next n') ns2 ss2" using n' item.IH item.prems by auto
  from frees.item[OF n'(1) this] n'(3) show ?case by simp
qed

lemma frees_mem: "frees h c ns ss \<Longrightarrow> x \<in> set ns \<Longrightarrow> deref h x \<noteq> None"
  by (induction rule: frees.induct) auto

text \<open>One item alone, with all that is below it.\<close>

definition subtree :: "'d heap \<Rightarrow> nat \<Rightarrow> nat list \<Rightarrow> nat list \<Rightarrow> bool" where
  "subtree h c ns ss \<longleftrightarrow> (\<exists>n ns1 ss1. deref h c = Some n \<and> frees h (kids n) ns1 ss1 \<and> ns = ns1 @ [c] \<and> ss = ss1 @ own_strs n) \<and>
     distinct ns \<and> distinct ss \<and> set ss \<subseteq> dom (strs h)"

lemma contents_same:
  assumes "contents a x n' = contents a x n" "x \<noteq> a"
  shows "kids n' = kids n" "own_strs n' = own_strs n"
proof -
  have "n_child n' = n_child n" "n_type n' = n_type n" "n_valuestring n' = n_valuestring n" "n_string n' = n_string n"
    using arg_cong[OF assms(1), of n_child] arg_cong[OF assms(1), of n_type] arg_cong[OF assms(1), of n_valuestring]
      arg_cong[OF assms(1), of n_string] assms(2) by (auto simp: contents_def)
  then show "kids n' = kids n" "own_strs n' = own_strs n" by (simp_all add: kids_def own_strs_def is_reference_def is_const_def)
qed

lemma frame_contents: "frame a S h h' \<Longrightarrow> deref h x = Some n \<Longrightarrow> \<exists>n'. deref h' x = Some n' \<and> contents a x n' = contents a x n"
  by (metis frame_def map_option_eq_Some)

lemma subtree_frame:
  assumes "subtree h c ns ss" "frame a S h h'" "set ns \<inter> S \<subseteq> {c}" "c \<noteq> a"
  shows "subtree h' c ns ss"
proof -
  obtain n ns1 ss1 where n: "deref h c = Some n" "frees h (kids n) ns1 ss1" "ns = ns1 @ [c]" "ss = ss1 @ own_strs n"
    and d: "distinct ns" "distinct ss" "set ss \<subseteq> dom (strs h)" using assms(1) by (auto simp: subtree_def)
  obtain n' where n': "deref h' c = Some n'" "contents a c n' = contents a c n" using frame_contents[OF assms(2) n(1)] by blast
  note k = contents_same[OF n'(2) assms(4)]
  have "x \<notin> S" if "x \<in> set ns1" for x using that assms(3) n(3) d(1) by auto
  then have "frees h' (kids n') ns1 ss1"
    unfolding k(1) by (intro frees_cong[OF n(2)]) (use frame_deref[OF assms(2)] in auto)
  then show ?thesis using n n' k d assms(2) by (auto simp: subtree_def frame_def)
qed

lemma cJSON_Delete_subtree:
  assumes "subtree h c ns ss" "deref h c = Some n" "n_next n = 0"
  shows "cJSON_Delete c h = Some (freed ns ss h)"
proof -
  obtain ns1 ss1 where s: "frees h (kids n) ns1 ss1" "ns = ns1 @ [c]" "ss = ss1 @ own_strs n" using assms(1,2) by (auto simp: subtree_def)
  have "frees h c (ns1 @ c # []) (ss1 @ own_strs n @ [])" using frees.item[OF assms(2) s(1)] frees.nil assms(3) by metis
  then have "frees h c ns ss" using s by simp
  from cJSON_Delete_frees[OF this] assms(1) show ?thesis by (auto simp: subtree_def)
qed

lemma freed_arr:
  assumes "arr a h xs" "set ns \<inter> set (a # xs) = {}"
  shows "arr a (freed ns ss h) xs"
proof -
  have "seg (freed ns ss h) p c xs q e = seg h p c xs q e" for p c q e
    using assms(2) by (intro seg_cong) (auto simp: deref_freed)
  then show ?thesis using assms by (auto simp: arr_def deref_freed)
qed

lemma replace_arr:
  assumes "arr a h (us @ c # vs)" "loose a h (us @ c # vs) i" "subtree h c ns ss" "set ns \<inter> set (a # i # us @ vs) = {}"
  shows "\<exists>h'. cJSON_ReplaceItemInArray a (int (length us)) i h = Some h' \<and> arr a h' (us @ i # vs) \<and>
    (\<forall>x. x \<in> set ns \<longrightarrow> deref h' x = None) \<and> (\<forall>x. x \<notin> set (a # i # us @ vs) \<union> set ns \<longrightarrow> deref h' x = deref h x)"
proof -
  obtain n m r q where A: "deref h a = Some n" "seg h 0 (n_child n) us r c" "deref h c = Some m" "n_prev m = r"
    "seg h c (n_next m) vs q 0" "distinct us" "distinct vs" "a \<notin> set us" "a \<notin> set vs" "a \<noteq> c" "c \<notin> set us" "c \<notin> set vs"
    "set us \<inter> set vs = {}" using arr_split[OF assms(1)] by metis
  obtain k where i: "deref h i = Some k" "i \<noteq> a" "i \<noteq> c" "i \<notin> set us" "i \<notin> set vs" using assms(2) by (auto simp: loose_def)
  have nz: "c \<noteq> 0" "i \<noteq> 0" "a \<noteq> 0" using deref_nonzero A(1,3) i(1) by blast+
  let ?k = "k\<lparr>n_next := n_next m, n_prev := r\<rparr>"
  let ?h1 = "put i ?k h"
  have f1: "frame a {i} h ?h1" by (rule frame_put[OF i(1)]) (simp add: contents_def)
  have "seg ?h1 c (n_next m) vs q 0" using A(5) i(5) by (simp add: seg_put_other)
  then obtain h2 q' where 2: "(if n_next m \<noteq> 0 then store (n_next m) (\<lambda>k. k\<lparr>n_prev := i\<rparr>) ?h1 else Some ?h1) = Some h2"
    "seg h2 i (n_next m) vs q' 0" "frame a (set vs) ?h1 h2"
    using relink_prev[OF _ A(7)] by blast
  have d2: "deref h2 a = Some n" "deref h2 i = Some ?k" "deref h2 c = Some m" using frame_deref[OF 2(3)] A i nz by (auto simp: deref_put)
  have us2: "seg h2 0 (n_child n) us r c" using frame_seg[OF 2(3)] A(2,13) i(4) by (metis seg_put_other)
  have tail: "seg h2 r i (i # vs) q' 0" using d2(2) 2(2) by simp
  have "distinct (a # us @ i # vs)" using A i by auto
  then obtain h3 where 3: "(if us = [] then store a (\<lambda>m. m\<lparr>n_child := i\<rparr>) h2 else store r (\<lambda>m. m\<lparr>n_next := i\<rparr>) h2) = Some h3"
    "arr a h3 (us @ i # vs)" "frame a (set (a # us)) h2 h3"
    using relink_head[OF d2(1) us2 tail] by blast
  have c3: "deref h3 c = Some m" using frame_deref[OF 3(3)] d2(3) A by auto
  let ?m = "m\<lparr>n_next := 0, n_prev := 0\<rparr>"
  let ?h4 = "put c ?m h3"
  have f3: "frame a ({i} \<union> set vs \<union> set (a # us)) h h3" using frame_trans[OF frame_trans[OF f1 2(3)] 3(3)] .
  have "frame a {c} h3 ?h4" by (rule frame_put[OF c3]) (simp add: contents_def)
  with f3 have f4: "frame a ({i} \<union> set vs \<union> set (a # us) \<union> {c}) h ?h4" by (rule frame_trans)
  have "subtree ?h4 c ns ss" using subtree_frame[OF assms(3) f4] assms(4) A(10) by auto
  then have del: "cJSON_Delete c ?h4 = Some (freed ns ss ?h4)"
    by (rule cJSON_Delete_subtree) (use nz in \<open>auto simp: deref_put\<close>)
  have op: "cJSON_ReplaceItemInArray a (int (length us)) i h = Some (freed ns ss ?h4)"
    using A(1,3) arr_position[OF assms(1) A(1)] nz i(1) 2(1)[folded A(4)] d2[folded A(4)] 3(1)[folded A(4)] c3 del
    by (cases "us = []") (simp_all add: cJSON_ReplaceItemInArray_def store_put deref_put split del: if_split cong: if_cong)
  have "arr a ?h4 (us @ i # vs)" using 3(2) A i by (auto simp: arr_def deref_put seg_put_other)
  then have "arr a (freed ns ss ?h4) (us @ i # vs)" using assms(4) by (intro freed_arr) auto
  moreover have "c \<in> set ns" using assms(3) by (auto simp: subtree_def)
  then have "deref ?h4 x = deref h x" if "x \<notin> set (a # i # us @ vs) \<union> set ns" for x
    using that by (intro frame_deref[OF f4]) auto
  ultimately show ?thesis using op by (auto simp: deref_freed)
qed

section \<open>Deleting from an array\<close>

text \<open>At the first or the last position the item and what is below it are freed, and the rest stays.\<close>

lemma delete_end_arr:
  assumes "arr a h (us @ c # vs)" "us = [] \<or> vs = []" "subtree h c ns ss" "set ns \<inter> set (a # us @ vs) = {}"
  shows "\<exists>h'. cJSON_DeleteItemFromArray a (int (length us)) h = Some h' \<and> arr a h' (us @ vs) \<and>
    (\<forall>x. x \<in> set ns \<longrightarrow> deref h' x = None) \<and> (\<forall>x. x \<notin> set (a # us @ vs) \<union> set ns \<longrightarrow> deref h' x = deref h x)"
proof -
  obtain h1 m where 1: "cJSON_DetachItemFromArray a (int (length us)) h = Some (c, h1)" "arr a h1 (us @ vs)" "deref h c = Some m"
    "deref h1 c = Some (if us = [] then m\<lparr>n_prev := 0, n_next := 0\<rparr> else m)" "n_next m = (if vs = [] then 0 else hd vs)"
    "frame a (set (a # us @ c # vs)) h h1" using detach_arr[OF assms(1)] by blast
  have "c \<noteq> a" using assms(1) by (auto simp: arr_def)
  then have "subtree h1 c ns ss" using subtree_frame[OF assms(3) 1(6)] assms(4) by auto
  then have del: "cJSON_Delete c h1 = Some (freed ns ss h1)"
    by (rule cJSON_Delete_subtree[OF _ 1(4)]) (use assms(2) 1(5) in auto)
  have "c \<in> set ns" using assms(3) by (auto simp: subtree_def)
  then have "deref h1 x = deref h x" if "x \<notin> set (a # us @ vs) \<union> set ns" for x
    using that by (intro frame_deref[OF 1(6)]) auto
  moreover have "arr a (freed ns ss h1) (us @ vs)" by (rule freed_arr[OF 1(2) assms(4)])
  ultimately show ?thesis using 1(1) del by (auto simp: cJSON_DeleteItemFromArray_def deref_freed)
qed

lemma seg_walk: "seg h p c us r v \<Longrightarrow> seg h p' c xs q 0 \<Longrightarrow> v \<noteq> 0 \<Longrightarrow> v \<in> set xs"
proof (induction us arbitrary: p c p' xs)
  case Nil
  then show ?case by (cases xs) auto
next
  case (Cons u us)
  then obtain n where n: "c = u" "deref h u = Some n" "seg h u (n_next n) us r v" by auto
  obtain ys where ys: "xs = u # ys" "seg h u (n_next n) ys q 0" using Cons.prems(2) n deref_nonzero[OF n(2)] by (cases xs) auto
  show ?case using Cons.IH[OF n(3) ys(2) Cons.prems(3)] ys(1) by simp
qed

text \<open>
  In between, the item keeps its link to the next one, and deleting it frees all that come
  after it, which the array still points to.
\<close>

lemma delete_middle_arr:
  assumes "arr a h (us @ c # v # vs)" "us \<noteq> []" "frees h c ns ss" "distinct ns" "distinct ss" "set ss \<subseteq> dom (strs h)"
    "set ns \<inter> set (a # us) = {}"
  shows "\<exists>h'. cJSON_DeleteItemFromArray a (int (length us)) h = Some h' \<and> deref h' v = None \<and> (\<nexists>xs. arr a h' xs)"
proof -
  obtain h1 m where 1: "cJSON_DetachItemFromArray a (int (length us)) h = Some (c, h1)" "arr a h1 (us @ v # vs)" "deref h c = Some m"
    "deref h1 c = Some m" "n_next m = v" "frame a (set (a # us @ c # v # vs)) h h1"
    "\<forall>x. x \<notin> set us \<longrightarrow> map_option n_next (deref h1 x) = map_option n_next (deref h x)"
    using detach_arr[OF assms(1)] assms(2) by auto
  have "frees h1 c ns ss"
  proof (rule frees_cong[OF assms(3)])
    fix x n assume x: "x \<in> set ns" "deref h x = Some n"
    then have "x \<noteq> a" "x \<notin> set us" using assms(7) by auto
    moreover obtain n' where "deref h1 x = Some n'" "contents a x n' = contents a x n" using frame_contents[OF 1(6) x(2)] by blast
    moreover have "n_next n' = n_next n" using 1(7) x(2) calculation by (metis map_option_eq_Some option.inject)
    ultimately show "\<exists>n'. deref h1 x = Some n' \<and> kids n' = kids n \<and> own_strs n' = own_strs n \<and> n_next n' = n_next n"
      using contents_same by blast
  qed
  moreover have "strs h1 = strs h" using 1(6) by (simp add: frame_def)
  ultimately have del: "cJSON_Delete c h1 = Some (freed ns ss h1)" using assms(4-6) by (intro cJSON_Delete_frees) auto
  have "v \<in> set ns"
    using assms(3)
  proof (cases rule: frees.cases)
    case nil
    then show ?thesis using 1(3) deref_nonzero by blast
  next
    case (item n ns1 ss1 ns2 ss2)
    then have "frees h v ns2 ss2" using 1(3,5) by simp
    moreover have "v \<noteq> 0" using arr_split[OF 1(2)] deref_nonzero by metis
    ultimately show ?thesis using item by (auto elim: frees_itemE)
  qed
  let ?h = "freed ns ss h1"
  obtain n r q where n: "deref h1 a = Some n" "seg h1 0 (n_child n) us r v" using arr_split[OF 1(2)] by metis
  have "deref ?h a = Some n" using n(1) assms(7) by (simp add: deref_freed)
  moreover have "seg ?h 0 (n_child n) us r v" using n(2) assms(7) by (subst seg_cong) (auto simp: deref_freed)
  moreover have "v \<noteq> 0" using arr_split[OF 1(2)] deref_nonzero by metis
  ultimately have "\<nexists>xs. arr a ?h xs"
    using seg_walk[of ?h 0 "n_child n" us r v 0] seg_mem[of ?h] \<open>v \<in> set ns\<close> by (fastforce simp: arr_def deref_freed)
  then show ?thesis using 1(1) del \<open>v \<in> set ns\<close> by (auto simp: cJSON_DeleteItemFromArray_def deref_freed)
qed


section \<open>The children as a sequence\<close>

text \<open>
  What a client of the chain relies on: \<^verbatim>\<open>inv h xs\<close> says that the children are \<^verbatim>\<open>xs\<close>, and
  \<^verbatim>\<open>unused h xs i\<close> that the item \<^verbatim>\<open>i\<close> may be given to them.
\<close>

locale child_sequence =
  fixes inv :: "'h \<Rightarrow> nat list \<Rightarrow> bool"
    and unused :: "'h \<Rightarrow> nat list \<Rightarrow> nat \<Rightarrow> bool"
    and add :: "nat \<Rightarrow> 'h \<Rightarrow> 'h option"
    and insert_at :: "nat \<Rightarrow> nat \<Rightarrow> 'h \<Rightarrow> 'h option"
    and detach :: "nat \<Rightarrow> 'h \<Rightarrow> (nat \<times> 'h) option"
  assumes add_law: "inv h xs \<Longrightarrow> unused h xs i \<Longrightarrow>
      \<exists>h'. add i h = Some h' \<and> inv h' (xs @ [i]) \<and> (\<forall>j. unused h xs j \<and> j \<noteq> i \<longrightarrow> unused h' (xs @ [i]) j)"
    and insert_law: "inv h xs \<Longrightarrow> unused h xs i \<Longrightarrow> \<exists>h'. insert_at k i h = Some h' \<and> inv h' (take k xs @ i # drop k xs)"
    and detach_law: "inv h xs \<Longrightarrow> k < length xs \<Longrightarrow> \<exists>h'. detach k h = Some (xs ! k, h') \<and> inv h' (take k xs @ drop (Suc k) xs)"
begin

fun add_all :: "nat list \<Rightarrow> 'h \<Rightarrow> 'h option" where
  "add_all [] h = Some h"
| "add_all (i # is) h = do { h' \<leftarrow> add i h; add_all is h' }"

lemma add_all_law:
  "inv h xs \<Longrightarrow> distinct is \<Longrightarrow> \<forall>i \<in> set is. unused h xs i \<Longrightarrow> \<exists>h'. add_all is h = Some h' \<and> inv h' (xs @ is)"
proof (induction "is" arbitrary: h xs)
  case (Cons i "is")
  obtain h1 where 1: "add i h = Some h1" "inv h1 (xs @ [i])" "\<forall>j. unused h xs j \<and> j \<noteq> i \<longrightarrow> unused h1 (xs @ [i]) j"
    using add_law[OF Cons.prems(1), of i] Cons.prems(3) by auto
  have "\<exists>h'. add_all is h1 = Some h' \<and> inv h' ((xs @ [i]) @ is)" using 1 Cons.prems by (intro Cons.IH) auto
  then show ?case using 1(1) by auto
qed simp

lemma insert_detach:
  assumes "inv h xs" "unused h xs i" "k \<le> length xs"
  shows "\<exists>h1 h2. insert_at k i h = Some h1 \<and> detach k h1 = Some (i, h2) \<and> inv h2 xs"
proof -
  obtain h1 where 1: "insert_at k i h = Some h1" "inv h1 (take k xs @ i # drop k xs)" using insert_law[OF assms(1,2)] by blast
  from detach_law[OF 1(2), of k] assms(3) obtain h2 where "detach k h1 = Some (i, h2)" "inv h2 xs"
    by (auto simp: nth_append)
  with 1(1) show ?thesis by blast
qed

end

lemma insert_arr_at:
  assumes "arr a h xs" "loose a h xs i"
  shows "\<exists>h'. cJSON_InsertItemInArray a (int k) i h = Some h' \<and> arr a h' (take k xs @ i # drop k xs)"
proof (cases "k < length xs")
  case True
  then have xs: "xs = take k xs @ xs ! k # drop (Suc k) xs" by (rule id_take_nth_drop)
  have "length (take k xs) = k" using True by simp
  then show ?thesis
    using insert_arr[of a h "take k xs" "xs ! k" "drop (Suc k) xs" i] assms xs Cons_nth_drop_Suc[OF True] by metis
next
  case False
  obtain n q where n: "deref h a = Some n" "seg h 0 (n_child n) xs q 0" using assms(1) by (auto simp: arr_def)
  then have "cJSON_InsertItemInArray a (int k) i h = cJSON_AddItemToArray_h a i h"
    using child_at_seg[OF n(2), of k] False by (simp add: cJSON_InsertItemInArray_def)
  then show ?thesis using add_arr[OF assms] False by auto
qed

interpretation kids: child_sequence "arr a" "loose a" "cJSON_AddItemToArray_h a" "\<lambda>k. cJSON_InsertItemInArray a (int k)"
  "\<lambda>k. cJSON_DetachItemFromArray a (int k)" for a :: nat
proof
  fix h :: "'a heap" and xs i k
  assume a: "arr a h xs"
  show "\<exists>h'. cJSON_InsertItemInArray a (int k) i h = Some h' \<and> arr a h' (take k xs @ i # drop k xs)" if "loose a h xs i"
    by (rule insert_arr_at[OF a that])
  show "\<exists>h'. cJSON_DetachItemFromArray a (int k) h = Some (xs ! k, h') \<and> arr a h' (take k xs @ drop (Suc k) xs)" if "k < length xs"
  proof -
    have "length (take k xs) = k" using that by simp
    then show ?thesis using detach_arr[of a h "take k xs" "xs ! k" "drop (Suc k) xs"] a id_take_nth_drop[OF that] by metis
  qed
  show "\<exists>h'. cJSON_AddItemToArray_h a i h = Some h' \<and> arr a h' (xs @ [i]) \<and> (\<forall>j. loose a h xs j \<and> j \<noteq> i \<longrightarrow> loose a h' (xs @ [i]) j)"
    if l: "loose a h xs i"
  proof -
    obtain h' where "cJSON_AddItemToArray_h a i h = Some h'" "arr a h' (xs @ [i])" "frame a (set (a # i # xs)) h h'"
      using add_arr[OF a l] by blast
    then show ?thesis by (auto simp: loose_def frame_def)
  qed
qed

text \<open>
  C17. Adding, inserting and detaching are the operations of a sequence. On an array whose
  chain of children is well formed, and for items that are in no chain: adding an item
  appends it; inserting at any index puts the item before the one there, or
  at the end; detaching an index returns that child and closes the chain over it; and an
  item inserted and detached again leaves the children as they were.
\<close>

theorem child_chain_sequence:
  assumes "arr a h xs"
  shows "(loose a h xs i \<longrightarrow> (\<exists>h'. cJSON_AddItemToArray_h a i h = Some h' \<and> arr a h' (xs @ [i]))) \<and>
    (loose a h xs i \<longrightarrow> (\<exists>h'. cJSON_InsertItemInArray a (int k) i h = Some h' \<and> arr a h' (take k xs @ i # drop k xs))) \<and>
    (k < length xs \<longrightarrow> (\<exists>h'. cJSON_DetachItemFromArray a (int k) h = Some (xs ! k, h') \<and> arr a h' (take k xs @ drop (Suc k) xs))) \<and>
    (loose a h xs i \<and> k \<le> length xs \<longrightarrow>
      (\<exists>h1 h2. cJSON_InsertItemInArray a (int k) i h = Some h1 \<and> cJSON_DetachItemFromArray a (int k) h1 = Some (i, h2) \<and> arr a h2 xs))"
  using kids.add_law[OF assms, of i] kids.insert_law[OF assms, of i k] kids.detach_law[OF assms, of k] kids.insert_detach[OF assms, of i k]
  by blast

text \<open>Three children, an item to add and a freed address.\<close>

definition leaf :: "nat \<Rightarrow> nat \<Rightarrow> nat \<Rightarrow> unit node" where
  "leaf nx pv ch = \<lparr>n_next = nx, n_prev = pv, n_child = ch, n_type = cJSON_Array, n_valuestring = 0, n_valueint = 0,
     n_valuedouble = (), n_string = 0\<rparr>"

definition sample_heap :: "unit heap" where
  "sample_heap = \<lparr>cells = [1 \<mapsto> leaf 0 0 2, 2 \<mapsto> leaf 3 0 0, 3 \<mapsto> leaf 4 2 0, 4 \<mapsto> leaf 0 3 0, 5 \<mapsto> leaf 0 0 0],
     strs = Map.empty, statics = Map.empty, brk = 6\<rparr>"

lemma sample_heap_facts:
  "arr 1 sample_heap [2, 3, 4]" "loose 1 sample_heap [2, 3, 4] 5" "subtree sample_heap 2 [2] []" "subtree sample_heap 3 [3] []"
  "frees sample_heap 3 [3, 4] []"
proof -
  have d: "deref sample_heap 1 = Some (leaf 0 0 2)" "deref sample_heap 2 = Some (leaf 3 0 0)" "deref sample_heap 3 = Some (leaf 4 2 0)"
    "deref sample_heap 4 = Some (leaf 0 3 0)" "deref sample_heap 5 = Some (leaf 0 0 0)"
    by (simp_all add: deref_def sample_heap_def)
  have l: "kids (leaf nx pv 0) = 0" "own_strs (leaf nx pv ch) = []" "n_next (leaf nx pv ch) = nx" "n_prev (leaf nx pv ch) = pv"
    "n_child (leaf nx pv ch) = ch" for nx pv ch
    by (simp_all add: leaf_def kids_def own_strs_def)
  show "arr 1 sample_heap [2, 3, 4]" "loose 1 sample_heap [2, 3, 4] 5" using d by (simp_all add: arr_def loose_def l)
  have nil: "frees sample_heap (kids (leaf nx pv 0)) [] []" for nx pv unfolding l by (rule frees.nil)
  show "subtree sample_heap 2 [2] []" "subtree sample_heap 3 [3] []"
    using d nil by (auto simp: subtree_def l)
  have "frees sample_heap 4 ([] @ 4 # []) ([] @ own_strs (leaf 0 3 0) @ [])"
    by (rule frees.item[OF d(4) nil]) (simp add: l frees.nil)
  then have "frees sample_heap 3 ([] @ 3 # [4]) ([] @ own_strs (leaf 4 2 0) @ [])"
    by (intro frees.item[OF d(3) nil]) (simp add: l)
  then show "frees sample_heap 3 [3, 4] []" by (simp add: l)
qed

theorem child_chain_sequence_witness:
  "arr 1 sample_heap [2, 3, 4] \<and> loose 1 sample_heap [2, 3, 4] 5 \<and>
   (\<exists>h1 h2. cJSON_InsertItemInArray 1 1 5 sample_heap = Some h1 \<and> cJSON_DetachItemFromArray 1 1 h1 = Some (5, h2) \<and> arr 1 h2 [2, 3, 4])"
  using child_chain_sequence[OF sample_heap_facts(1), of 5 1] sample_heap_facts(1,2) by simp



text \<open>
  Replacing a child. At any position \<^verbatim>\<open>cJSON_ReplaceItemInArray\<close> puts the new item in the
  place of the old one in both directions of the chain, and frees the old one and what it
  owns, and nothing else.
\<close>

theorem cJSON_ReplaceItemInArray_arr:
  assumes "arr a h (us @ c # vs)" "loose a h (us @ c # vs) i" "subtree h c ns ss" "set ns \<inter> set (a # i # us @ vs) = {}"
  shows "\<exists>h'. cJSON_ReplaceItemInArray a (int (length us)) i h = Some h' \<and> arr a h' (us @ i # vs) \<and>
    (\<forall>x. x \<in> set ns \<longrightarrow> deref h' x = None) \<and> (\<forall>x. x \<notin> set (a # i # us @ vs) \<union> set ns \<longrightarrow> deref h' x = deref h x)"
  by (rule replace_arr[OF assms])

theorem cJSON_ReplaceItemInArray_arr_witness:
  "\<exists>h'. cJSON_ReplaceItemInArray 1 1 5 sample_heap = Some h' \<and> arr 1 h' [2, 5, 4]"
  using cJSON_ReplaceItemInArray_arr[of 1 sample_heap "[2]" 3 "[4]" 5 "[3]" "[]"] sample_heap_facts by auto

end
