(* ===== verification/Pcm.thy ===== *)
theory Pcm
  imports CLib
begin

text \<open>
  The ALSA stream library \<^verbatim>\<open>pcm.c\<close>: hardware parameters, opening and closing, reading and
  writing with restarts, and transfers through the mapped ring buffer. The sound driver is
  a parameter: a record of its system calls on a state of its own. A record holds the
  constants of the kernel header the file includes. The text of an error message is its
  format. \<^const>\<open>None\<close> is undefined behaviour (an access outside a buffer, a division by zero)
  or a loop that does not return.
\<close>

section \<open>Constants\<close>

definition PCM_OUT :: u32 where "PCM_OUT = 0x00000000"
definition PCM_IN :: u32 where "PCM_IN = 0x10000000"
definition PCM_MMAP :: u32 where "PCM_MMAP = 0x00000001"
definition PCM_NOIRQ :: u32 where "PCM_NOIRQ = 0x00000002"
definition PCM_NORESTART :: u32 where "PCM_NORESTART = 0x00000004"
definition PCM_MONOTONIC :: u32 where "PCM_MONOTONIC = 0x00000008"

definition PCM_STATE_RUNNING :: int where "PCM_STATE_RUNNING = 3"
definition PCM_STATE_XRUN :: int where "PCM_STATE_XRUN = 4"
definition PCM_STATE_DRAINING :: int where "PCM_STATE_DRAINING = 5"
definition PCM_STATE_SUSPENDED :: int where "PCM_STATE_SUSPENDED = 7"
definition PCM_STATE_DISCONNECTED :: int where "PCM_STATE_DISCONNECTED = 8"

definition EIO :: int where "EIO = 5"
definition ENOMEM :: int where "ENOMEM = 12"
definition ENODEV :: int where "ENODEV = 19"
definition EINVAL :: int where "EINVAL = 22"
definition EINTR :: int where "EINTR = 4"
definition EPIPE :: int where "EPIPE = 32"
definition ENOSYS :: int where "ENOSYS = 38"
definition ESTRPIPE :: int where "ESTRPIPE = 86"

definition POLLIN :: u32 where "POLLIN = 0x1"
definition POLLOUT :: u32 where "POLLOUT = 0x4"
definition POLLERR :: u32 where "POLLERR = 0x8"
definition POLLNVAL :: u32 where "POLLNVAL = 0x20"

definition PCM_INT_MAX :: u32 where "PCM_INT_MAX = 0x7fffffff"

text \<open>A 32-bit word read as an \<^verbatim>\<open>int\<close>, and an \<^verbatim>\<open>int\<close> stored into one.\<close>

abbreviation to_int :: "u32 \<Rightarrow> int" where "to_int w \<equiv> sint w"
abbreviation to_u32 :: "int \<Rightarrow> u32" where "to_u32 i \<equiv> word_of_int i"

section \<open>The sound driver\<close>

record sndrv =
  FIRST_MASK :: int
  LAST_MASK :: int
  FIRST_INTERVAL :: int
  LAST_INTERVAL :: int
  MASK_MAX :: u32
  HW_ACCESS :: int
  HW_FORMAT :: int
  HW_SUBFORMAT :: int
  HW_SAMPLE_BITS :: int
  HW_FRAME_BITS :: int
  HW_CHANNELS :: int
  HW_RATE :: int
  HW_PERIOD_TIME :: int
  HW_PERIOD_SIZE :: int
  HW_PERIOD_BYTES :: int
  HW_PERIODS :: int
  HW_BUFFER_TIME :: int
  HW_BUFFER_SIZE :: int
  HW_BUFFER_BYTES :: int
  HW_TICK_TIME :: int
  FMT_S8 :: u32
  FMT_S16_LE :: u32
  FMT_S24_LE :: u32
  FMT_S32_LE :: u32
  SUBFORMAT_STD :: u32
  ACCESS_MMAP :: u32
  ACCESS_RW :: u32
  SYNC_APPL :: u32
  SYNC_HWSYNC :: u32
  TSTAMP_ENABLE :: int

record snd_interval =
  imin :: u32
  imax :: u32
  integer :: bool

record hw_params =
  hp_flags :: u32
  masks :: "u32 list list"
  intervals :: "snd_interval list"
  rmask :: u32
  cmask :: u32
  hp_info :: u32

record sw_params =
  sw_tstamp_mode :: int
  sw_period_step :: u32
  sw_start_threshold :: u64
  sw_stop_threshold :: u64
  sw_avail_min :: u64
  sw_xfer_align :: u64
  sw_silence_size :: u64
  sw_silence_threshold :: u64
  sw_boundary :: u64

record shared =
  sh_hw_ptr :: u64
  sh_state :: int
  sh_tstamp :: "int \<times> int"
  sh_appl_ptr :: u64
  sh_avail_min :: u64

datatype request = PREPARE | START | DROP | INFO | TTSTAMP | WRITEI u64 | READI u64

text \<open>
  The system calls, each with its return value and the \<^verbatim>\<open>errno\<close> it sets when it fails. The
  exchange of the status and control pages stands for what the hardware wrote to a mapped
  status page since the page was last read.
\<close>

record 'k snd =
  k_const :: sndrv
  k_ioctl :: "request \<Rightarrow> 'k \<Rightarrow> int \<times> int \<times> 'k"
  k_sync :: "u32 \<Rightarrow> u64 \<Rightarrow> u64 \<Rightarrow> 'k \<Rightarrow> int \<times> int \<times> shared \<times> 'k"
  k_pages :: "u64 \<Rightarrow> u64 \<Rightarrow> 'k \<Rightarrow> shared \<times> 'k"
  k_hw_params :: "hw_params \<Rightarrow> 'k \<Rightarrow> int \<times> int \<times> hw_params \<times> 'k"
  k_hw_refine :: "hw_params \<Rightarrow> 'k \<Rightarrow> int \<times> int \<times> hw_params \<times> 'k"
  k_sw_params :: "sw_params \<Rightarrow> 'k \<Rightarrow> int \<times> int \<times> 'k"
  k_open :: "string \<Rightarrow> 'k \<Rightarrow> int \<times> int \<times> 'k"
  k_close :: "'k \<Rightarrow> 'k"
  k_poll :: "int \<Rightarrow> 'k \<Rightarrow> int \<times> int \<times> u32 \<times> 'k"
  k_mmap :: "u32 \<Rightarrow> 'k \<Rightarrow> u8 list option \<times> int \<times> 'k"
  k_map_status :: "'k \<Rightarrow> bool \<times> 'k"
  k_map_control :: "'k \<Rightarrow> bool \<times> 'k"
  k_calloc :: "'k \<Rightarrow> bool \<times> 'k"

section \<open>Hardware parameters\<close>

definition param_is_mask :: "sndrv \<Rightarrow> int \<Rightarrow> bool" where
  "param_is_mask c p \<longleftrightarrow> FIRST_MASK c \<le> p \<and> p \<le> LAST_MASK c"

definition param_is_interval :: "sndrv \<Rightarrow> int \<Rightarrow> bool" where
  "param_is_interval c p \<longleftrightarrow> FIRST_INTERVAL c \<le> p \<and> p \<le> LAST_INTERVAL c"

definition param_to_interval :: "sndrv \<Rightarrow> int \<Rightarrow> nat" where
  "param_to_interval c n = nat (n - FIRST_INTERVAL c)"

definition param_to_mask :: "sndrv \<Rightarrow> int \<Rightarrow> nat" where
  "param_to_mask c n = nat (n - FIRST_MASK c)"

definition set_mask_bits :: "u32 \<Rightarrow> u32 list \<Rightarrow> u32 list" where
  "set_mask_bits b m =
     (let m' = m[0 := 0, 1 := 0]; w = unat (drop_bit 5 b)
      in m'[w := (m' ! w) OR push_bit (unat (b AND 31)) 1])"

definition param_set_mask :: "sndrv \<Rightarrow> hw_params \<Rightarrow> int \<Rightarrow> u32 \<Rightarrow> hw_params" where
  "param_set_mask c p n b =
     (if b \<ge> MASK_MAX c then p
      else if param_is_mask c n
      then p\<lparr>masks := (masks p)[param_to_mask c n := set_mask_bits b (masks p ! param_to_mask c n)]\<rparr>
      else p)"

definition param_set_min :: "sndrv \<Rightarrow> hw_params \<Rightarrow> int \<Rightarrow> u32 \<Rightarrow> hw_params" where
  "param_set_min c p n val =
     (if param_is_interval c n
      then (let i = param_to_interval c n in p\<lparr>intervals := (intervals p)[i := (intervals p ! i)\<lparr>imin := val\<rparr>]\<rparr>)
      else p)"

definition param_get_min :: "sndrv \<Rightarrow> hw_params \<Rightarrow> int \<Rightarrow> u32" where
  "param_get_min c p n = (if param_is_interval c n then imin (intervals p ! param_to_interval c n) else 0)"

definition param_get_max :: "sndrv \<Rightarrow> hw_params \<Rightarrow> int \<Rightarrow> u32" where
  "param_get_max c p n = (if param_is_interval c n then imax (intervals p ! param_to_interval c n) else 0)"

definition param_set_int :: "sndrv \<Rightarrow> hw_params \<Rightarrow> int \<Rightarrow> u32 \<Rightarrow> hw_params" where
  "param_set_int c p n val =
     (if param_is_interval c n
      then (let i = param_to_interval c n
            in p\<lparr>intervals := (intervals p)[i := (intervals p ! i)\<lparr>imin := val, imax := val, integer := True\<rparr>]\<rparr>)
      else p)"

definition param_get_int :: "sndrv \<Rightarrow> hw_params \<Rightarrow> int \<Rightarrow> u32" where
  "param_get_int c p n =
     (if param_is_interval c n
      then (let i = intervals p ! param_to_interval c n in if integer i then imax i else 0)
      else 0)"

text \<open>After the \<^verbatim>\<open>memset\<close> the two loops run over all masks and all intervals; a mask has eight words.\<close>

definition param_init :: "sndrv \<Rightarrow> hw_params" where
  "param_init c =
     \<lparr>hp_flags = 0,
      masks = replicate (nat (LAST_MASK c - FIRST_MASK c + 1)) (NOT 0 # NOT 0 # replicate 6 0),
      intervals = replicate (nat (LAST_INTERVAL c - FIRST_INTERVAL c + 1)) \<lparr>imin = 0, imax = NOT 0, integer = False\<rparr>,
      rmask = NOT 0, cmask = 0, hp_info = NOT 0\<rparr>"

section \<open>Streams\<close>

datatype pcm_format = PCM_FORMAT_S16_LE | PCM_FORMAT_S32_LE | PCM_FORMAT_S8 | PCM_FORMAT_S24_LE | PCM_FORMAT_MAX

record pcm_config =
  channels :: u32
  rate :: u32
  period_size :: u32
  period_count :: u32
  format :: pcm_format
  start_threshold :: u32
  stop_threshold :: u32
  silence_threshold :: u32
  avail_min :: int

text \<open>
  A stream. The mapped or allocated status and control structures are the fields
  \<^verbatim>\<open>mmap_status\<close> and \<^verbatim>\<open>mmap_control\<close> of the code; \<^verbatim>\<open>sync_ptr\<close> says that they are the copies kept
  for \<^verbatim>\<open>ioctl\<close>. The global \<^verbatim>\<open>errno\<close> and the state of the driver come last.
\<close>

record 'k pcm =
  fd :: int
  flags :: u32
  running :: bool
  underruns :: int
  buffer_size :: u32
  boundary :: u32
  error_text :: "(string \<times> int option) option"
  config :: pcm_config
  status_mapped :: bool
  sync_ptr :: bool
  hw_ptr :: u64
  hw_state :: int
  tstamp :: "int \<times> int"
  appl_ptr :: u64
  ctl_avail_min :: u64
  mmap_buffer :: "u8 list"
  noirq_frames_per_msec :: u32
  wait_for_avail_min :: bool
  errno :: int
  sys :: 'k

definition pcm_get_buffer_size :: "'k pcm \<Rightarrow> u32" where
  "pcm_get_buffer_size pcm = buffer_size pcm"

definition pcm_get_error :: "'k pcm \<Rightarrow> (string \<times> int option) option" where
  "pcm_get_error pcm = error_text pcm"

definition pcm_oops :: "'k pcm \<Rightarrow> int \<Rightarrow> string \<Rightarrow> int \<times> 'k pcm" where
  "pcm_oops pcm e fmt = (-1, pcm\<lparr>error_text := Some (fmt, if errno pcm \<noteq> 0 then Some e else None)\<rparr>)"

definition pcm_format_to_alsa :: "sndrv \<Rightarrow> pcm_format \<Rightarrow> u32" where
  "pcm_format_to_alsa c fmt =
     (case fmt of
        PCM_FORMAT_S32_LE \<Rightarrow> FMT_S32_LE c
      | PCM_FORMAT_S8 \<Rightarrow> FMT_S8 c
      | PCM_FORMAT_S24_LE \<Rightarrow> FMT_S24_LE c
      | _ \<Rightarrow> FMT_S16_LE c)"

definition pcm_format_to_bits :: "pcm_format \<Rightarrow> u32" where
  "pcm_format_to_bits fmt = (case fmt of PCM_FORMAT_S32_LE \<Rightarrow> 32 | PCM_FORMAT_S24_LE \<Rightarrow> 32 | _ \<Rightarrow> 16)"

definition frame_bytes :: "'k pcm \<Rightarrow> u32" where
  "frame_bytes pcm = channels (config pcm) * drop_bit 3 (pcm_format_to_bits (format (config pcm)))"

definition pcm_bytes_to_frames :: "'k pcm \<Rightarrow> u32 \<Rightarrow> u32 option" where
  "pcm_bytes_to_frames pcm bytes = (if frame_bytes pcm = 0 then None else Some (bytes div frame_bytes pcm))"

definition pcm_frames_to_bytes :: "'k pcm \<Rightarrow> u32 \<Rightarrow> u32" where
  "pcm_frames_to_bytes pcm frames = frames * channels (config pcm) * drop_bit 3 (pcm_format_to_bits (format (config pcm)))"

definition ioctl :: "'k snd \<Rightarrow> request \<Rightarrow> 'k pcm \<Rightarrow> int \<times> 'k pcm" where
  "ioctl K req pcm =
     (let (r, e, k) = k_ioctl K req (sys pcm)
      in (r, pcm\<lparr>sys := k, errno := (if r < 0 then e else errno pcm)\<rparr>))"

definition load_shared :: "shared \<Rightarrow> 'k pcm \<Rightarrow> 'k pcm" where
  "load_shared sh pcm = pcm\<lparr>hw_ptr := sh_hw_ptr sh, hw_state := sh_state sh, tstamp := sh_tstamp sh,
     appl_ptr := sh_appl_ptr sh, ctl_avail_min := sh_avail_min sh\<rparr>"

definition pcm_sync_ptr :: "'k snd \<Rightarrow> 'k pcm \<Rightarrow> u32 \<Rightarrow> int \<times> 'k pcm" where
  "pcm_sync_ptr K pcm fl =
     (if sync_ptr pcm then
        (let (r, e, sh, k) = k_sync K fl (appl_ptr pcm) (ctl_avail_min pcm) (sys pcm)
         in if r < 0 then (-1, pcm\<lparr>sys := k, errno := e\<rparr>)
            else (0, load_shared sh (pcm\<lparr>sys := k\<rparr>)))
      else
        (let (sh, k) = k_pages K (appl_ptr pcm) (ctl_avail_min pcm) (sys pcm)
         in (0, pcm\<lparr>sys := k, hw_ptr := sh_hw_ptr sh, hw_state := sh_state sh, tstamp := sh_tstamp sh\<rparr>)))"

definition set_ctl_avail_min :: "'k pcm \<Rightarrow> 'k pcm" where
  "set_ctl_avail_min pcm =
     pcm\<lparr>ctl_avail_min := (if flags pcm AND PCM_MMAP \<noteq> 0 then word_of_int (avail_min (config pcm)) else 1)\<rparr>"

definition pcm_hw_mmap_status :: "'k snd \<Rightarrow> 'k pcm \<Rightarrow> int \<times> 'k pcm" where
  "pcm_hw_mmap_status K pcm =
     (if sync_ptr pcm then (0, pcm)
      else
        (let (ok1, k1) = k_map_status K (sys pcm);
             (ok2, k2) = (if ok1 then k_map_control K k1 else (False, k1))
         in if ok1 \<and> ok2 then (0, set_ctl_avail_min (pcm\<lparr>status_mapped := True, sys := k2\<rparr>))
            else
              (let (ok3, k3) = k_calloc K k2
               in if \<not> ok3 then (- ENOMEM, pcm\<lparr>status_mapped := False, sys := k3\<rparr>)
                  else (0, snd (pcm_sync_ptr K
                     (set_ctl_avail_min (pcm\<lparr>status_mapped := False, sync_ptr := True, sys := k3,
                        hw_ptr := 0, hw_state := 0, tstamp := (0, 0), appl_ptr := 0, ctl_avail_min := 0\<rparr>)) 0)))))"

definition pcm_hw_munmap_status :: "'k pcm \<Rightarrow> 'k pcm" where
  "pcm_hw_munmap_status pcm = pcm\<lparr>sync_ptr := False, status_mapped := False\<rparr>"

section \<open>The ring buffer\<close>

text \<open>\<^verbatim>\<open>memcpy\<close> between two byte arrays; a negative size or a range outside an array is undefined.\<close>

definition copy_bytes :: "u8 list \<Rightarrow> int \<Rightarrow> u8 list \<Rightarrow> int \<Rightarrow> int \<Rightarrow> u8 list option" where
  "copy_bytes dst doff src soff n =
     (if 0 \<le> n \<and> 0 \<le> doff \<and> 0 \<le> soff \<and> doff + n \<le> int (length dst) \<and> soff + n \<le> int (length src)
      then Some (take (nat doff) dst @ take (nat n) (drop (nat soff) src) @ drop (nat (doff + n)) dst)
      else None)"

definition pcm_areas_copy :: "'k pcm \<Rightarrow> u32 \<Rightarrow> u8 list \<Rightarrow> u32 \<Rightarrow> u32 \<Rightarrow> (u8 list \<times> 'k pcm) option" where
  "pcm_areas_copy pcm pcm_offset buf src_offset frames =
     (let size_bytes = to_int (pcm_frames_to_bytes pcm frames);
          pcm_offset_bytes = to_int (pcm_frames_to_bytes pcm pcm_offset);
          src_offset_bytes = to_int (pcm_frames_to_bytes pcm src_offset)
      in if flags pcm AND PCM_IN \<noteq> 0
         then do { buf' \<leftarrow> copy_bytes buf src_offset_bytes (mmap_buffer pcm) pcm_offset_bytes size_bytes; Some (buf', pcm) }
         else do { area \<leftarrow> copy_bytes (mmap_buffer pcm) pcm_offset_bytes buf src_offset_bytes size_bytes;
                   Some (buf, pcm\<lparr>mmap_buffer := area\<rparr>) })"

definition playback_wrap :: "u32 \<Rightarrow> int \<Rightarrow> int" where
  "playback_wrap bound avail =
     (if avail < 0 then to_int (to_u32 avail + bound)
      else if avail > to_int bound then to_int (to_u32 avail - bound)
      else avail)"

definition pcm_mmap_playback_avail :: "'k pcm \<Rightarrow> int" where
  "pcm_mmap_playback_avail pcm =
     playback_wrap (boundary pcm) (to_int (ucast (hw_ptr pcm + ucast (buffer_size pcm) - appl_ptr pcm)))"

definition pcm_mmap_capture_avail :: "'k pcm \<Rightarrow> int" where
  "pcm_mmap_capture_avail pcm =
     (let avail = to_int (ucast (hw_ptr pcm - appl_ptr pcm))
      in if avail < 0 then to_int (to_u32 avail + boundary pcm) else avail)"

definition pcm_mmap_avail :: "'k snd \<Rightarrow> 'k pcm \<Rightarrow> int \<times> 'k pcm" where
  "pcm_mmap_avail K pcm =
     (let (r, pcm1) = pcm_sync_ptr K pcm (SYNC_HWSYNC (k_const K))
      in (if flags pcm1 AND PCM_IN \<noteq> 0 then pcm_mmap_capture_avail pcm1 else pcm_mmap_playback_avail pcm1, pcm1))"

definition pcm_mmap_appl_forward :: "'k pcm \<Rightarrow> int \<Rightarrow> 'k pcm" where
  "pcm_mmap_appl_forward pcm frames =
     (let a = ucast (appl_ptr pcm) + to_u32 frames;
          a' = (if a > boundary pcm then a - boundary pcm else a)
      in pcm\<lparr>appl_ptr := ucast a'\<rparr>)"

definition pcm_mmap_begin :: "'k snd \<Rightarrow> 'k pcm \<Rightarrow> u32 \<Rightarrow> (u32 \<times> u32 \<times> 'k pcm) option" where
  "pcm_mmap_begin K pcm frames =
     (if buffer_size pcm = 0 then None
      else
        (let offset = ucast (appl_ptr pcm mod ucast (buffer_size pcm)) :: u32;
             (av, pcm1) = pcm_mmap_avail K pcm;
             avail = min (to_u32 av) (buffer_size pcm1);
             continuous = buffer_size pcm1 - offset
         in Some (offset, min (min frames avail) continuous, pcm1)))"

definition pcm_mmap_commit :: "'k snd \<Rightarrow> 'k pcm \<Rightarrow> u32 \<Rightarrow> int \<times> 'k pcm" where
  "pcm_mmap_commit K pcm frames =
     (let (r, pcm1) = pcm_sync_ptr K (pcm_mmap_appl_forward pcm (to_int frames)) 0
      in (to_int frames, pcm1))"

partial_function (option) pcm_mmap_transfer_areas ::
    "'k snd \<Rightarrow> u8 list \<Rightarrow> u32 \<Rightarrow> u32 \<Rightarrow> u32 \<Rightarrow> 'k pcm \<Rightarrow> (int \<times> u8 list \<times> 'k pcm) option" where
  "pcm_mmap_transfer_areas K buf offset sz count pcm =
     (if sz > 0 then
        do { (pcm_offset, frames, pcm1) \<leftarrow> pcm_mmap_begin K pcm sz;
             (buf1, pcm2) \<leftarrow> pcm_areas_copy pcm1 pcm_offset buf offset frames;
             (case pcm_mmap_commit K pcm2 frames of (commit, pcm3) \<Rightarrow>
                if commit < 0 then Some (commit, buf1, snd (pcm_oops pcm3 commit ''failed to commit %d frames''))
                else pcm_mmap_transfer_areas K buf1 (offset + to_u32 commit) (sz - to_u32 commit) (count + to_u32 commit) pcm3) }
      else Some (to_int count, buf, pcm))"

section \<open>Reading and writing\<close>

definition pcm_is_ready :: "'k pcm \<Rightarrow> bool" where
  "pcm_is_ready pcm \<longleftrightarrow> fd pcm \<ge> 0"

definition pcm_start :: "'k snd \<Rightarrow> 'k pcm \<Rightarrow> int \<times> 'k pcm" where
  "pcm_start K pcm =
     (let (r1, pcm1) = ioctl K PREPARE pcm
      in if r1 < 0 then pcm_oops pcm1 (errno pcm1) ''cannot prepare channel''
         else
           (let pcm2 = (if flags pcm1 AND PCM_MMAP \<noteq> 0 then snd (pcm_sync_ptr K pcm1 0) else pcm1);
                (r2, pcm3) = ioctl K START pcm2
            in if r2 < 0 then pcm_oops pcm3 (errno pcm3) ''cannot start channel''
               else (0, pcm3\<lparr>running := True\<rparr>)))"

definition pcm_stop :: "'k snd \<Rightarrow> 'k pcm \<Rightarrow> int \<times> 'k pcm" where
  "pcm_stop K pcm =
     (let (r, pcm1) = ioctl K DROP pcm
      in if r < 0 then pcm_oops pcm1 (errno pcm1) ''cannot stop channel''
         else (0, pcm1\<lparr>running := False\<rparr>))"

definition xfer_frames :: "'k pcm \<Rightarrow> u32 \<Rightarrow> u64 option" where
  "xfer_frames pcm count =
     (let d = channels (config pcm) * pcm_format_to_bits (format (config pcm)) div 8
      in if d = 0 then None else Some (ucast (count div d)))"

text \<open>The \<^verbatim>\<open>for (;;)\<close> loop of \<^verbatim>\<open>pcm_write\<close>.\<close>

partial_function (option) write_loop :: "'k snd \<Rightarrow> u64 \<Rightarrow> 'k pcm \<Rightarrow> (int \<times> 'k pcm) option" where
  "write_loop K frames pcm =
     (if \<not> running pcm then
        (case ioctl K PREPARE pcm of (r1, pcm1) \<Rightarrow>
           if r1 \<noteq> 0 then Some (pcm_oops pcm1 (errno pcm1) ''cannot prepare channel'')
           else (case ioctl K (WRITEI frames) pcm1 of (r2, pcm2) \<Rightarrow>
                   if r2 \<noteq> 0 then Some (pcm_oops pcm2 (errno pcm2) ''cannot write initial data'')
                   else Some (0, pcm2\<lparr>running := True\<rparr>)))
      else
        (case ioctl K (WRITEI frames) pcm of (r, pcm1) \<Rightarrow>
           if r \<noteq> 0 then
             (if errno pcm1 = EPIPE then
                (if flags pcm1 AND PCM_NORESTART \<noteq> 0
                 then Some (- EPIPE, pcm1\<lparr>running := False, underruns := underruns pcm1 + 1\<rparr>)
                 else write_loop K frames (pcm1\<lparr>running := False, underruns := underruns pcm1 + 1\<rparr>))
              else Some (pcm_oops (pcm1\<lparr>running := False\<rparr>) (errno pcm1) ''cannot write stream data''))
           else Some (0, pcm1)))"

definition pcm_write :: "'k snd \<Rightarrow> u32 \<Rightarrow> 'k pcm \<Rightarrow> (int \<times> 'k pcm) option" where
  "pcm_write K count pcm =
     (if flags pcm AND PCM_IN \<noteq> 0 then Some (- EINVAL, pcm)
      else do { frames \<leftarrow> xfer_frames pcm count; write_loop K frames pcm })"

partial_function (option) read_loop :: "'k snd \<Rightarrow> u64 \<Rightarrow> 'k pcm \<Rightarrow> (int \<times> 'k pcm) option" where
  "read_loop K frames pcm =
     (case (if running pcm then (0, pcm) else pcm_start K pcm) of (r0, pcm0) \<Rightarrow>
        if r0 < 0 then Some (- errno pcm0, pcm0)
        else
          (case ioctl K (READI frames) pcm0 of (r, pcm1) \<Rightarrow>
             if r \<noteq> 0 then
               (if errno pcm1 = EPIPE
                then read_loop K frames (pcm1\<lparr>running := False, underruns := underruns pcm1 + 1\<rparr>)
                else Some (pcm_oops (pcm1\<lparr>running := False\<rparr>) (errno pcm1) ''cannot read stream data''))
             else Some (0, pcm1)))"

definition pcm_read :: "'k snd \<Rightarrow> u32 \<Rightarrow> 'k pcm \<Rightarrow> (int \<times> 'k pcm) option" where
  "pcm_read K count pcm =
     (if flags pcm AND PCM_IN = 0 then Some (- EINVAL, pcm)
      else do { frames \<leftarrow> xfer_frames pcm count; read_loop K frames pcm })"

definition pcm_get_htimestamp :: "'k snd \<Rightarrow> 'k pcm \<Rightarrow> (int \<times> (u32 \<times> int \<times> int) option) \<times> 'k pcm" where
  "pcm_get_htimestamp K pcm =
     (if \<not> pcm_is_ready pcm then ((-1, None), pcm)
      else
        (let (rc, pcm1) = pcm_sync_ptr K pcm (SYNC_APPL (k_const K) OR SYNC_HWSYNC (k_const K))
         in if rc < 0 then ((-1, None), pcm1)
            else if hw_state pcm1 \<noteq> PCM_STATE_RUNNING \<and> hw_state pcm1 \<noteq> PCM_STATE_DRAINING then ((-1, None), pcm1)
            else if tstamp pcm1 = (0, 0) then ((-1, None), pcm1)
            else
              (let frames = to_int (ucast (if flags pcm1 AND PCM_IN \<noteq> 0 then hw_ptr pcm1 - appl_ptr pcm1
                                           else hw_ptr pcm1 + ucast (buffer_size pcm1) - appl_ptr pcm1))
               in ((0, Some (to_u32 (playback_wrap (boundary pcm1) frames), tstamp pcm1)), pcm1))))"

definition pcm_avail_update :: "'k snd \<Rightarrow> 'k pcm \<Rightarrow> int \<times> 'k pcm" where
  "pcm_avail_update K pcm = (let (r, pcm1) = pcm_sync_ptr K pcm 0 in pcm_mmap_avail K pcm1)"

definition pcm_state :: "'k snd \<Rightarrow> 'k pcm \<Rightarrow> int \<times> 'k pcm" where
  "pcm_state K pcm = (let (err, pcm1) = pcm_sync_ptr K pcm 0 in (if err < 0 then err else hw_state pcm1, pcm1))"

definition pcm_set_avail_min :: "'k pcm \<Rightarrow> int \<Rightarrow> int \<times> 'k pcm" where
  "pcm_set_avail_min pcm v =
     (if NOT (flags pcm) AND (PCM_MMAP OR PCM_NOIRQ) \<noteq> 0 then (- ENOSYS, pcm)
      else (0, pcm\<lparr>config := (config pcm)\<lparr>avail_min := v\<rparr>\<rparr>))"

definition wait_error :: "int \<Rightarrow> int" where
  "wait_error st =
     (if st = PCM_STATE_XRUN then - EPIPE
      else if st = PCM_STATE_SUSPENDED then - ESTRPIPE
      else if st = PCM_STATE_DISCONNECTED then - ENODEV
      else - EIO)"

partial_function (option) pcm_wait :: "'k snd \<Rightarrow> int \<Rightarrow> 'k pcm \<Rightarrow> (int \<times> 'k pcm) option" where
  "pcm_wait K timeout pcm =
     (case k_poll K timeout (sys pcm) of (err, e, revents, k) \<Rightarrow>
        let pcm1 = pcm\<lparr>sys := k, errno := (if err < 0 then e else errno pcm)\<rparr>
        in if err < 0 then Some (- errno pcm1, pcm1)
           else if err = 0 then Some (0, pcm1)
           else if errno pcm1 \<noteq> - EINTR \<and> revents AND (POLLERR OR POLLNVAL) \<noteq> 0
           then (case pcm_state K pcm1 of (st, pcm2) \<Rightarrow> Some (wait_error st, pcm2))
           else if revents AND (POLLIN OR POLLOUT) = 0 then pcm_wait K timeout pcm1
           else Some (1, pcm1))"

text \<open>
  One round of the loop of \<^verbatim>\<open>pcm_mmap_transfer\<close>: it returns, goes on with less to do, or polls
  and goes round again.
\<close>

datatype 'k round = Return int "u8 list" "'k pcm" | Again "u8 list" u32 u32 "'k pcm"

definition start_if_due :: "'k snd \<Rightarrow> int \<Rightarrow> 'k pcm \<Rightarrow> int \<times> 'k pcm" where
  "start_if_due K avail pcm =
     (if \<not> running pcm \<and> buffer_size pcm - to_u32 avail \<ge> start_threshold (config pcm)
      then (case pcm_start K pcm of (r, pcm1) \<Rightarrow>
              if r < 0 then (r, pcm1) else (0, pcm1\<lparr>wait_for_avail_min := False\<rparr>))
      else (0, pcm))"

definition wait_time :: "int \<Rightarrow> 'k pcm \<Rightarrow> int option" where
  "wait_time avail pcm =
     (if flags pcm AND PCM_NOIRQ \<noteq> 0
      then (if noirq_frames_per_msec pcm = 0 then None
            else Some (to_int (to_u32 (avail_min (config pcm) - avail) div noirq_frames_per_msec pcm)))
      else Some (-1))"

definition transfer_frames :: "'k snd \<Rightarrow> u8 list \<Rightarrow> u32 \<Rightarrow> u32 \<Rightarrow> int \<Rightarrow> 'k pcm \<Rightarrow> 'k round option" where
  "transfer_frames K buf offset count avail pcm =
     (let frames = min (to_int count) avail
      in if frames = 0 then Some (Return 0 buf pcm)
         else do { (r, buf1, pcm1) \<leftarrow> pcm_mmap_transfer_areas K buf offset (to_u32 frames) 0 pcm;
                   Some (if r < 0 then Return r buf1 pcm1
                         else Again buf1 (offset + to_u32 r) (count - to_u32 r) pcm1) })"

definition transfer_round :: "'k snd \<Rightarrow> u8 list \<Rightarrow> u32 \<Rightarrow> u32 \<Rightarrow> 'k pcm \<Rightarrow> 'k round option" where
  "transfer_round K buf offset count pcm =
     (case pcm_avail_update K pcm of (avail, pcm1) \<Rightarrow>
        if avail < 0 then Some (Return 0 buf pcm1)
        else
          (case start_if_due K avail pcm1 of (r, pcm2) \<Rightarrow>
             if r < 0 then Some (Return (- errno pcm2) buf pcm2)
             else if running pcm2 then
               (let w = wait_for_avail_min pcm2 \<or> count > to_u32 avail
                in if w \<and> avail < avail_min (config pcm2)
                   then do { t \<leftarrow> wait_time avail pcm2;
                             (err, pcm3) \<leftarrow> pcm_wait K t (pcm2\<lparr>wait_for_avail_min := False\<rparr>);
                             Some (if err < 0
                                   then Return err buf ((snd (pcm_oops (pcm3\<lparr>running := False\<rparr>) err ''wait error''))\<lparr>appl_ptr := 0\<rparr>)
                                   else Again buf offset count pcm3) }
                   else transfer_frames K buf offset count avail (pcm2\<lparr>wait_for_avail_min := w\<rparr>))
             else transfer_frames K buf offset count avail pcm2))"

partial_function (option) transfer_loop ::
    "'k snd \<Rightarrow> u8 list \<Rightarrow> u32 \<Rightarrow> u32 \<Rightarrow> 'k pcm \<Rightarrow> (int \<times> u8 list \<times> 'k pcm) option" where
  "transfer_loop K buf offset count pcm =
     (if count > 0 then
        do { r \<leftarrow> transfer_round K buf offset count pcm;
             (case r of
                Return x buf1 pcm1 \<Rightarrow> Some (x, buf1, pcm1)
              | Again buf1 offset1 count1 pcm1 \<Rightarrow> transfer_loop K buf1 offset1 count1 pcm1) }
      else Some (0, buf, pcm))"

definition pcm_mmap_transfer :: "'k snd \<Rightarrow> u8 list \<Rightarrow> u32 \<Rightarrow> 'k pcm \<Rightarrow> (int \<times> u8 list \<times> 'k pcm) option" where
  "pcm_mmap_transfer K buf bytes pcm =
     (if bytes = 0 then Some (0, buf, pcm)
      else do { count \<leftarrow> pcm_bytes_to_frames pcm bytes; transfer_loop K buf 0 count pcm })"

definition pcm_mmap_write :: "'k snd \<Rightarrow> u8 list \<Rightarrow> u32 \<Rightarrow> 'k pcm \<Rightarrow> (int \<times> u8 list \<times> 'k pcm) option" where
  "pcm_mmap_write K data count pcm =
     (if NOT (flags pcm) AND (PCM_OUT OR PCM_MMAP) \<noteq> 0 then Some (- ENOSYS, data, pcm)
      else pcm_mmap_transfer K data count pcm)"

definition pcm_mmap_read :: "'k snd \<Rightarrow> u8 list \<Rightarrow> u32 \<Rightarrow> 'k pcm \<Rightarrow> (int \<times> u8 list \<times> 'k pcm) option" where
  "pcm_mmap_read K data count pcm =
     (if NOT (flags pcm) AND (PCM_IN OR PCM_MMAP) \<noteq> 0 then Some (- ENOSYS, data, pcm)
      else pcm_mmap_transfer K data count pcm)"

section \<open>Opening and closing\<close>

definition dev_name :: "nat \<Rightarrow> nat \<Rightarrow> u32 \<Rightarrow> string" where
  "dev_name crd device fl =
     ''/dev/snd/pcmC'' @ nat_dec crd @ ''D'' @ nat_dec device @ (if fl AND PCM_IN \<noteq> 0 then ''c'' else ''p'')"

definition pcm_params_get :: "'k snd \<Rightarrow> nat \<Rightarrow> nat \<Rightarrow> u32 \<Rightarrow> 'k \<Rightarrow> hw_params option \<times> 'k" where
  "pcm_params_get K crd device fl k =
     (let (f, e, k1) = k_open K (dev_name crd device fl) k
      in if f < 0 then (None, k1)
         else
           (let (ok, k2) = k_calloc K k1
            in if \<not> ok then (None, k_close K k2)
               else
                 (let (r, e2, params, k3) = k_hw_refine K (param_init (k_const K)) k2
                  in if r \<noteq> 0 then (None, k_close K k3) else (Some params, k_close K k3))))"

datatype pcm_param = PCM_PARAM_SAMPLE_BITS | PCM_PARAM_FRAME_BITS | PCM_PARAM_CHANNELS | PCM_PARAM_RATE
  | PCM_PARAM_PERIOD_TIME | PCM_PARAM_PERIOD_SIZE | PCM_PARAM_PERIOD_BYTES | PCM_PARAM_PERIODS
  | PCM_PARAM_BUFFER_TIME | PCM_PARAM_BUFFER_SIZE | PCM_PARAM_BUFFER_BYTES | PCM_PARAM_TICK_TIME
  | PCM_PARAM_OTHER

definition pcm_param_to_alsa :: "sndrv \<Rightarrow> pcm_param \<Rightarrow> int" where
  "pcm_param_to_alsa c param =
     (case param of
        PCM_PARAM_SAMPLE_BITS \<Rightarrow> HW_SAMPLE_BITS c
      | PCM_PARAM_FRAME_BITS \<Rightarrow> HW_FRAME_BITS c
      | PCM_PARAM_CHANNELS \<Rightarrow> HW_CHANNELS c
      | PCM_PARAM_RATE \<Rightarrow> HW_RATE c
      | PCM_PARAM_PERIOD_TIME \<Rightarrow> HW_PERIOD_TIME c
      | PCM_PARAM_PERIOD_SIZE \<Rightarrow> HW_PERIOD_SIZE c
      | PCM_PARAM_PERIOD_BYTES \<Rightarrow> HW_PERIOD_BYTES c
      | PCM_PARAM_PERIODS \<Rightarrow> HW_PERIODS c
      | PCM_PARAM_BUFFER_TIME \<Rightarrow> HW_BUFFER_TIME c
      | PCM_PARAM_BUFFER_SIZE \<Rightarrow> HW_BUFFER_SIZE c
      | PCM_PARAM_BUFFER_BYTES \<Rightarrow> HW_BUFFER_BYTES c
      | PCM_PARAM_TICK_TIME \<Rightarrow> HW_TICK_TIME c
      | PCM_PARAM_OTHER \<Rightarrow> -1)"

definition pcm_params_get_min :: "sndrv \<Rightarrow> hw_params option \<Rightarrow> pcm_param \<Rightarrow> u32" where
  "pcm_params_get_min c params param =
     (case params of None \<Rightarrow> 0
      | Some ps \<Rightarrow> (let p = pcm_param_to_alsa c param in if p < 0 then 0 else param_get_min c ps p))"

definition pcm_params_get_max :: "sndrv \<Rightarrow> hw_params option \<Rightarrow> pcm_param \<Rightarrow> u32" where
  "pcm_params_get_max c params param =
     (case params of None \<Rightarrow> 0
      | Some ps \<Rightarrow> (let p = pcm_param_to_alsa c param in if p < 0 then 0 else param_get_max c ps p))"

definition pcm_close :: "'k snd \<Rightarrow> 'k pcm \<Rightarrow> int \<times> 'k pcm" where
  "pcm_close K pcm =
     (let pcm1 = pcm_hw_munmap_status pcm;
          pcm2 = (if flags pcm1 AND PCM_MMAP \<noteq> 0 then (snd (pcm_stop K pcm1))\<lparr>mmap_buffer := []\<rparr> else pcm1);
          pcm3 = (if fd pcm2 \<ge> 0 then pcm2\<lparr>sys := k_close K (sys pcm2)\<rparr> else pcm2)
      in (0, pcm3\<lparr>running := False, buffer_size := 0, fd := -1\<rparr>))"

definition open_params :: "sndrv \<Rightarrow> u32 \<Rightarrow> pcm_config \<Rightarrow> hw_params" where
  "open_params c fl cfg =
     (let p0 = param_init c;
          p1 = param_set_mask c p0 (HW_FORMAT c) (pcm_format_to_alsa c (format cfg));
          p2 = param_set_mask c p1 (HW_SUBFORMAT c) (SUBFORMAT_STD c);
          p3 = param_set_min c p2 (HW_PERIOD_SIZE c) (period_size cfg);
          p4 = param_set_int c p3 (HW_SAMPLE_BITS c) (pcm_format_to_bits (format cfg));
          p5 = param_set_int c p4 (HW_FRAME_BITS c) (pcm_format_to_bits (format cfg) * channels cfg);
          p6 = param_set_int c p5 (HW_CHANNELS c) (channels cfg);
          p7 = param_set_int c p6 (HW_PERIODS c) (period_count cfg);
          p8 = param_set_int c p7 (HW_RATE c) (rate cfg);
          p9 = (if fl AND PCM_NOIRQ \<noteq> 0 then p8\<lparr>hp_flags := hp_flags p8 OR 4\<rparr> else p8)
      in param_set_mask c p9 (HW_ACCESS c) (if fl AND PCM_MMAP \<noteq> 0 then ACCESS_MMAP c else ACCESS_RW c))"

partial_function (option) boundary_loop :: "u32 \<Rightarrow> u32 \<Rightarrow> u32 option" where
  "boundary_loop bsize bound = (if bound * 2 \<le> PCM_INT_MAX - bsize then boundary_loop bsize (bound * 2) else Some bound)"

text \<open>The thresholds: the configuration kept in the stream and the software parameters.\<close>

definition open_thresholds :: "sndrv \<Rightarrow> u32 \<Rightarrow> pcm_config \<Rightarrow> u32 \<Rightarrow> pcm_config \<Rightarrow> pcm_config \<times> sw_params" where
  "open_thresholds c fl cfg bsize pc =
     (let cap = fl AND PCM_IN \<noteq> 0;
          total = period_count cfg * period_size cfg;
          start = (if start_threshold cfg = 0 then (if cap then 1 else total div 2) else start_threshold cfg);
          stop = (if stop_threshold cfg = 0 then (if cap then total * 10 else total) else stop_threshold cfg);
          amin = (if avail_min pc = 0 then (if fl AND PCM_MMAP \<noteq> 0 then ucast (period_size pc) else 1)
                  else word_of_int (avail_min cfg)) :: u64;
          pc1 = (if start_threshold cfg = 0 then pc\<lparr>start_threshold := start\<rparr> else pc);
          pc2 = (if stop_threshold cfg = 0 then pc1\<lparr>stop_threshold := stop\<rparr> else pc1);
          pc3 = (if avail_min pc = 0 then pc2\<lparr>avail_min := to_int (ucast amin)\<rparr> else pc2)
      in (pc3, \<lparr>sw_tstamp_mode = TSTAMP_ENABLE c, sw_period_step = 1,
                sw_start_threshold = ucast start, sw_stop_threshold = ucast stop, sw_avail_min = amin,
                sw_xfer_align = ucast (period_size cfg div 2),
                sw_silence_size = 0, sw_silence_threshold = ucast (silence_threshold cfg), sw_boundary = ucast bsize\<rparr>))"

definition new_pcm :: "u32 \<Rightarrow> pcm_config \<Rightarrow> int \<Rightarrow> int \<Rightarrow> 'k \<Rightarrow> 'k pcm" where
  "new_pcm fl cfg f e k =
     \<lparr>fd = f, flags = fl, running = False, underruns = 0, buffer_size = 0, boundary = 0, error_text = None,
      config = cfg, status_mapped = False, sync_ptr = False, hw_ptr = 0, hw_state = 0, tstamp = (0, 0), appl_ptr = 0,
      ctl_avail_min = 0, mmap_buffer = [], noirq_frames_per_msec = 0, wait_for_avail_min = False, errno = e, sys = k\<rparr>"

definition fail_close :: "'k snd \<Rightarrow> int \<times> 'k pcm \<Rightarrow> 'k pcm" where
  "fail_close K failed = (let pcm = snd failed in pcm\<lparr>sys := k_close K (sys pcm), fd := -1\<rparr>)"

definition fail_unmap :: "'k snd \<Rightarrow> int \<times> 'k pcm \<Rightarrow> 'k pcm" where
  "fail_unmap K failed =
     (let pcm = snd failed
      in fail_close K (-1, if flags pcm AND PCM_MMAP \<noteq> 0 then pcm\<lparr>mmap_buffer := []\<rparr> else pcm))"

text \<open>From the software parameters on.\<close>

definition open_finish :: "'k snd \<Rightarrow> pcm_config \<Rightarrow> 'k pcm \<Rightarrow> 'k pcm option" where
  "open_finish K cfg pcm =
     do { let (pc, sparams) = open_thresholds (k_const K) (flags pcm) cfg (buffer_size pcm) (config pcm);
          bound \<leftarrow> boundary_loop (buffer_size pcm) (buffer_size pcm);
          let pcm1 = pcm\<lparr>config := pc, boundary := bound\<rparr>;
          let (r, e, k) = k_sw_params K sparams (sys pcm1);
          let pcm2 = pcm1\<lparr>sys := k, errno := (if r < 0 then e else errno pcm1)\<rparr>;
          if r \<noteq> 0 then Some (fail_unmap K (pcm_oops pcm2 (errno pcm2) ''cannot set sw params''))
          else (let (rc, pcm3) = pcm_hw_mmap_status K pcm2
                in if rc < 0 then Some (fail_unmap K (pcm_oops pcm3 rc ''mmap status failed''))
                   else if flags pcm3 AND PCM_MONOTONIC \<noteq> 0
                   then (let (rc2, pcm4) = ioctl K TTSTAMP pcm3
                         in if rc2 < 0 then Some (fail_unmap K (pcm_oops pcm4 rc2 ''cannot set timestamp type''))
                            else Some (pcm4\<lparr>underruns := 0\<rparr>))
                   else Some (pcm3\<lparr>underruns := 0\<rparr>)) }"

text \<open>
  \<^verbatim>\<open>pcm_open\<close>: the stream, none for \<^verbatim>\<open>&bad_pcm\<close>, and the configuration of the caller, in which
  the period size and count are replaced by the refined ones.
\<close>

definition pcm_open :: "'k snd \<Rightarrow> nat \<Rightarrow> nat \<Rightarrow> u32 \<Rightarrow> pcm_config option \<Rightarrow> int \<Rightarrow> 'k
    \<Rightarrow> ('k pcm option \<times> pcm_config option) option" where
  "pcm_open K crd device fl cfg0 e k =
     (let (ok, k0) = k_calloc K k
      in case cfg0 of
           None \<Rightarrow> Some (None, None)
         | Some cfg \<Rightarrow>
             if \<not> ok then Some (None, Some cfg)
             else
               (let (f, e1, k1) = k_open K (dev_name crd device fl) k0;
                    pcm = new_pcm fl cfg f (if f < 0 then e1 else e) k1;
                    (r2, pcm2) = ioctl K INFO pcm
                in if f < 0 then Some (Some (snd (pcm_oops pcm (errno pcm) ''cannot open device'')), Some cfg)
                   else if r2 \<noteq> 0 then Some (Some (fail_close K (pcm_oops pcm2 (errno pcm2) ''cannot get info'')), Some cfg)
                   else if fl AND PCM_NOIRQ \<noteq> 0 \<and> fl AND PCM_MMAP = 0
                   then Some (Some (fail_unmap K (pcm_oops pcm2 (- EINVAL) ''noirq only currently supported with mmap().'')), Some cfg)
                   else
                     (let pcm3 = (if fl AND PCM_NOIRQ \<noteq> 0 then pcm2\<lparr>noirq_frames_per_msec := rate cfg div 1000\<rparr> else pcm2);
                          (r4, e4, params, k4) = k_hw_params K (open_params (k_const K) fl cfg) (sys pcm3);
                          pcm4 = pcm3\<lparr>sys := k4, errno := (if r4 < 0 then e4 else errno pcm3)\<rparr>
                      in if r4 \<noteq> 0 then Some (Some (fail_close K (pcm_oops pcm4 (errno pcm4) ''cannot set hw params'')), Some cfg)
                         else
                           (let cfg' = cfg\<lparr>period_size := param_get_int (k_const K) params (HW_PERIOD_SIZE (k_const K)),
                                          period_count := param_get_int (k_const K) params (HW_PERIODS (k_const K))\<rparr>;
                                pcm5 = pcm4\<lparr>buffer_size := period_count cfg' * period_size cfg'\<rparr>
                            in if fl AND PCM_MMAP \<noteq> 0
                               then (case k_mmap K (pcm_frames_to_bytes pcm5 (buffer_size pcm5)) (sys pcm5) of
                                       (None, e6, k6) \<Rightarrow>
                                         (let pcm6 = pcm5\<lparr>sys := k6, errno := e6\<rparr>
                                          in Some (Some (fail_close K (pcm_oops pcm6 (- e6) ''failed to mmap buffer'')), Some cfg'))
                                     | (Some area, e6, k6) \<Rightarrow>
                                         do { pcm7 \<leftarrow> open_finish K cfg' (pcm5\<lparr>sys := k6, mmap_buffer := area\<rparr>);
                                              Some (Some pcm7, Some cfg') })
                               else do { pcm7 \<leftarrow> open_finish K cfg' pcm5; Some (Some pcm7, Some cfg') }))))"

end
