(* ===== verification/PcmRing.thy ===== *)
theory PcmRing
  imports Pcm
begin

text \<open>
  Properties of the stream library: the wrap-around boundary, the frames reported as free,
  the return of \<^verbatim>\<open>pcm_write\<close>, and transfers through the ring.
\<close>

section \<open>The boundary\<close>

lemma double_no_wrap:
  fixes b :: u32
  assumes "unat b \<le> 2 ^ 31 - 1"
  shows "unat (b * 2) = 2 * unat b"
  using assms by (simp add: unat_mult_lem[THEN iffD1] mult.commute)

lemma room_unat:
  fixes bs :: u32
  assumes "unat bs \<le> 2 ^ 31 - 1"
  shows "unat (PCM_INT_MAX - bs) = 2 ^ 31 - 1 - unat bs"
proof -
  have "bs \<le> PCM_INT_MAX" using assms by (simp add: PCM_INT_MAX_def word_le_nat_alt)
  then show ?thesis by (simp add: unat_sub PCM_INT_MAX_def)
qed

text \<open>The largest doubling of the buffer size within the limit, and one step more is too large.\<close>

lemma boundary_loop_from:
  fixes bs b :: u32
  assumes "0 < unat b" "unat b \<le> 2 ^ 31 - 1" "unat bs \<le> 2 ^ 31 - 1"
  shows "\<exists>k r. boundary_loop bs b = Some r \<and> unat r = unat b * 2 ^ k \<and>
    2 ^ 31 - 1 - unat bs < 2 * unat r \<and> (k = 0 \<or> unat r \<le> 2 ^ 31 - 1 - unat bs)"
  using assms(1,2)
proof (induction "2 ^ 31 - unat b" arbitrary: b rule: less_induct)
  case less
  have cond: "b * 2 \<le> PCM_INT_MAX - bs \<longleftrightarrow> 2 * unat b \<le> 2 ^ 31 - 1 - unat bs"
    by (simp add: word_le_nat_alt double_no_wrap[OF less.prems(2)] room_unat[OF assms(3)])
  show ?case
  proof (cases "b * 2 \<le> PCM_INT_MAX - bs")
    case True
    have u: "unat (b * 2) = 2 * unat b" by (rule double_no_wrap[OF less.prems(2)])
    with True cond less.prems have "0 < unat (b * 2)" "unat (b * 2) \<le> 2 ^ 31 - 1" "2 ^ 31 - unat (b * 2) < 2 ^ 31 - unat b"
      by auto
    then obtain k r where "boundary_loop bs (b * 2) = Some r" "unat r = unat (b * 2) * 2 ^ k"
      "2 ^ 31 - 1 - unat bs < 2 * unat r" "k = 0 \<or> unat r \<le> 2 ^ 31 - 1 - unat bs"
      using less.hyps[of "b * 2"] by blast
    with True cond u show ?thesis
      by (intro exI[of _ "Suc k"] exI[of _ r]) (auto simp: boundary_loop.simps[of bs b])
  next
    case False
    with cond show ?thesis by (intro exI[of _ 0] exI[of _ b]) (auto simp: boundary_loop.simps[of bs b])
  qed
qed

lemma boundary_loop_zero: "boundary_loop 0 0 = None"
proof -
  have "boundary_loop bs b = Some y \<Longrightarrow> \<not> (bs = 0 \<and> b = 0)" for bs b y
  proof (induction rule: boundary_loop.raw_induct[rotated, consumes 1])
    case (1 f bs b y)
    then show ?case by (fastforce split: if_splits simp: PCM_INT_MAX_def)
  qed
  then show ?thesis by fastforce
qed

text \<open>
  The wrap-around boundary of a stream. For every buffer size from 1 to the largest
  \<^verbatim>\<open>int\<close> the loop of \<^verbatim>\<open>pcm_open\<close> ends with the buffer size times a power of two, below which
  doubling again would pass the limit. For a buffer size of 0, which the code computes
  when the driver does not mark the period size as an integer, it never ends.
\<close>

theorem pcm_boundary:
  "(0 < unat bs \<and> unat bs \<le> 2 ^ 31 - 1 \<longrightarrow>
      (\<exists>k r. boundary_loop bs bs = Some r \<and> unat r = unat bs * 2 ^ k \<and>
         2 ^ 31 - 1 - unat bs < 2 * unat r \<and> (k = 0 \<or> unat r \<le> 2 ^ 31 - 1 - unat bs))) \<and>
   (buffer_size pcm = 0 \<longrightarrow> open_finish K cfg pcm = None)"
proof -
  have "open_finish K cfg pcm = None" if "buffer_size pcm = 0"
    using that by (simp add: open_finish_def boundary_loop_zero split: prod.split)
  then show ?thesis using boundary_loop_from[of bs bs] by blast
qed

section \<open>Frames available\<close>

text \<open>The frames written and not yet played, from the two positions modulo the boundary.\<close>

definition filled :: "'k pcm \<Rightarrow> int" where
  "filled pcm = (uint (appl_ptr pcm) - uint (hw_ptr pcm)) mod uint (boundary pcm)"

definition positions_ok :: "'k pcm \<Rightarrow> bool" where
  "positions_ok pcm \<longleftrightarrow>
     0 < uint (buffer_size pcm) \<and> 2 * uint (buffer_size pcm) \<le> uint (boundary pcm) \<and>
     uint (boundary pcm) + uint (buffer_size pcm) < 2 ^ 31 \<and>
     uint (hw_ptr pcm) < uint (boundary pcm) \<and> uint (appl_ptr pcm) \<le> uint (boundary pcm)"

lemma sint_ucast_diff:
  fixes x :: u64 and i :: int
  assumes "x = word_of_int i" "- (2 ^ 31) \<le> i" "i < 2 ^ 31"
  shows "sint (ucast x :: u32) = i"
proof -
  have "(ucast x :: u32) = word_of_int i"
    using assms(1) by (simp add: ucast_eq word_of_int_eq_iff uint_word_of_int take_bit_eq_mod mod_mod_cancel)
  then show ?thesis using assms(2,3) by (simp add: signed_of_int signed_take_bit_int_eq_self)
qed

lemma sint_range:
  fixes w :: u32
  assumes "w = word_of_int i" "- (2 ^ 31) \<le> i" "i < 2 ^ 31"
  shows "sint w = i"
  using assms by (simp add: signed_of_int signed_take_bit_int_eq_self)

lemma sint_small:
  fixes w :: u32
  assumes "uint w < 2 ^ 31"
  shows "sint w = uint w"
proof (rule sint_range)
  show "- (2 ^ 31) \<le> uint w" by (rule order_trans[of _ 0]) simp_all
qed (use assms in auto)

lemma playback_wrap_eq:
  assumes "uint b < 2 ^ 31" "- uint b \<le> i" "i < 2 ^ 31"
  shows "playback_wrap b i = (if i < 0 then i + uint b else if i > uint b then i - uint b else i)"
proof -
  have b: "0 \<le> uint b" by simp
  have "sint (word_of_int i + b) = i + uint b" if "i < 0"
  proof (rule sint_range)
    show "- (2 ^ 31) \<le> i + uint b" "i + uint b < 2 ^ 31" using that assms by linarith+
  qed simp
  moreover have "sint (word_of_int i - b) = i - uint b" if "i > uint b"
  proof (rule sint_range)
    show "- (2 ^ 31) \<le> i - uint b" "i - uint b < 2 ^ 31" using that assms b by linarith+
  qed simp
  ultimately show ?thesis using sint_small[OF assms(1)] by (simp add: playback_wrap_def)
qed

lemma positions_okD:
  assumes "positions_ok pcm"
  shows "0 \<le> uint (appl_ptr pcm)" "0 \<le> uint (hw_ptr pcm)" "uint (hw_ptr pcm) < uint (boundary pcm)"
    "uint (appl_ptr pcm) \<le> uint (boundary pcm)" "0 < uint (buffer_size pcm)" "2 * uint (buffer_size pcm) \<le> uint (boundary pcm)"
    "uint (boundary pcm) + uint (buffer_size pcm) < 2 ^ 31"
  using assms by (auto simp: positions_ok_def)

lemma playback_raw:
  assumes "positions_ok pcm"
  shows "sint (ucast (hw_ptr pcm + ucast (buffer_size pcm) - appl_ptr pcm) :: u32) =
     uint (hw_ptr pcm) + uint (buffer_size pcm) - uint (appl_ptr pcm)"
proof (rule sint_ucast_diff)
  show "hw_ptr pcm + ucast (buffer_size pcm) - appl_ptr pcm =
      word_of_int (uint (hw_ptr pcm) + uint (buffer_size pcm) - uint (appl_ptr pcm))"
    by (simp only: ucast_eq of_int_add of_int_diff word_of_int_uint)
  show "- (2 ^ 31) \<le> uint (hw_ptr pcm) + uint (buffer_size pcm) - uint (appl_ptr pcm)"
    "uint (hw_ptr pcm) + uint (buffer_size pcm) - uint (appl_ptr pcm) < 2 ^ 31"
    using positions_okD[OF assms] by linarith+
qed

lemma filled_nonneg: "positions_ok pcm \<Longrightarrow> 0 \<le> filled pcm"
  using positions_okD(5,6)[of pcm] by (auto simp: filled_def intro: pos_mod_sign)

lemma filled_cases:
  assumes "positions_ok pcm"
  shows "filled pcm =
    (if uint (appl_ptr pcm) < uint (hw_ptr pcm) then uint (appl_ptr pcm) - uint (hw_ptr pcm) + uint (boundary pcm)
     else if uint (appl_ptr pcm) - uint (hw_ptr pcm) = uint (boundary pcm) then 0
     else uint (appl_ptr pcm) - uint (hw_ptr pcm))"
proof -
  let ?A = "uint (appl_ptr pcm)" and ?H = "uint (hw_ptr pcm)" and ?B = "uint (boundary pcm)"
  note r = positions_okD[OF assms]
  have "(?A - ?H) mod ?B = (?A - ?H + ?B) mod ?B" by simp
  also have "\<dots> = ?A - ?H + ?B" if "?A < ?H" using that r by (intro mod_pos_pos_trivial) linarith+
  finally have 1: "(?A - ?H) mod ?B = ?A - ?H + ?B" if "?A < ?H" using that by simp
  have 2: "(?A - ?H) mod ?B = ?A - ?H" if "\<not> ?A < ?H" "?A - ?H \<noteq> ?B"
    using that r by (intro mod_pos_pos_trivial) linarith+
  show ?thesis using 1 2 by (auto simp: filled_def)
qed

lemma playback_avail_eq:
  assumes "positions_ok pcm" "filled pcm \<le> uint (buffer_size pcm)"
  shows "pcm_mmap_playback_avail pcm =
    (if uint (appl_ptr pcm) < uint (hw_ptr pcm) \<and> filled pcm = uint (buffer_size pcm) then uint (boundary pcm)
     else uint (buffer_size pcm) - filled pcm)"
proof -
  let ?A = "uint (appl_ptr pcm)" and ?H = "uint (hw_ptr pcm)" and ?B = "uint (boundary pcm)" and ?b = "uint (buffer_size pcm)"
  note r = positions_okD[OF assms(1)]
  have "pcm_mmap_playback_avail pcm = playback_wrap (boundary pcm) (?H + ?b - ?A)"
    by (simp add: pcm_mmap_playback_avail_def playback_raw[OF assms(1)])
  also have "\<dots> = (if ?H + ?b - ?A < 0 then ?H + ?b - ?A + ?B else if ?H + ?b - ?A > ?B then ?H + ?b - ?A - ?B else ?H + ?b - ?A)"
    using r by (intro playback_wrap_eq) linarith+
  finally have eq: "pcm_mmap_playback_avail pcm =
      (if ?H + ?b - ?A < 0 then ?H + ?b - ?A + ?B else if ?H + ?b - ?A > ?B then ?H + ?b - ?A - ?B else ?H + ?b - ?A)" .
  show ?thesis
  proof (cases "?A < ?H")
    case True
    then have "filled pcm = ?A - ?H + ?B" by (simp add: filled_cases[OF assms(1)])
    with True eq r assms(2) show ?thesis by simp
  next
    case False
    then have "filled pcm = (if ?A - ?H = ?B then 0 else ?A - ?H)" by (simp add: filled_cases[OF assms(1)])
    with False eq r assms(2) show ?thesis by (cases "?A - ?H = ?B") simp_all
  qed
qed

lemma capture_avail_eq:
  assumes "positions_ok pcm"
  shows "pcm_mmap_capture_avail pcm = (uint (hw_ptr pcm) - uint (appl_ptr pcm)) mod uint (boundary pcm)"
proof -
  let ?A = "uint (appl_ptr pcm)" and ?H = "uint (hw_ptr pcm)" and ?B = "uint (boundary pcm)"
  note r = positions_okD[OF assms]
  have raw: "sint (ucast (hw_ptr pcm - appl_ptr pcm) :: u32) = ?H - ?A"
  proof (rule sint_ucast_diff)
    show "- (2 ^ 31) \<le> ?H - ?A" "?H - ?A < 2 ^ 31" using r by linarith+
  qed simp
  have wrap: "sint (word_of_int (?H - ?A) + boundary pcm) = ?H - ?A + ?B" if "?H - ?A < 0"
  proof (rule sint_range)
    show "- (2 ^ 31) \<le> ?H - ?A + ?B" "?H - ?A + ?B < 2 ^ 31" using r that by linarith+
  qed simp
  have "(?H - ?A) mod ?B = (?H - ?A + ?B) mod ?B" by simp
  also have "\<dots> = ?H - ?A + ?B" if "?H - ?A < 0" using that r by (intro mod_pos_pos_trivial) linarith+
  finally have "(?H - ?A) mod ?B = ?H - ?A + ?B" if "?H - ?A < 0" using that by simp
  moreover have "(?H - ?A) mod ?B = ?H - ?A" if "\<not> ?H - ?A < 0"
    using that r by (intro mod_pos_pos_trivial) linarith+
  ultimately have "(?H - ?A) mod ?B = (if ?H - ?A < 0 then ?H - ?A + ?B else ?H - ?A)" by presburger
  then show ?thesis
    using wrap by (simp add: pcm_mmap_capture_avail_def raw Let_def)
qed

text \<open>
  C29. The frames a playback stream reports as free. With the positions in range and at
  most a buffer of frames pending, \<^verbatim>\<open>pcm_mmap_playback_avail\<close> returns the buffer size less
  the frames pending, across every wrap of the positions, with one exception: when the
  buffer is exactly full and only the application position has wrapped, the sum equals
  the boundary, which the test \<^verbatim>\<open>avail > boundary\<close> lets through, and the whole boundary is
  reported as free. \<^verbatim>\<open>pcm_mmap_capture_avail\<close> is the distance of the positions.
\<close>

theorem pcm_avail:
  assumes "positions_ok pcm"
  shows "(filled pcm \<le> uint (buffer_size pcm) \<longrightarrow>
      pcm_mmap_playback_avail pcm =
        (if uint (appl_ptr pcm) < uint (hw_ptr pcm) \<and> filled pcm = uint (buffer_size pcm) then uint (boundary pcm)
         else uint (buffer_size pcm) - filled pcm)) \<and>
    pcm_mmap_capture_avail pcm = (uint (hw_ptr pcm) - uint (appl_ptr pcm)) mod uint (boundary pcm)"
  using playback_avail_eq[OF assms] capture_avail_eq[OF assms] by blast

text \<open>A stream for concrete runs: mono 16-bit playback with a buffer of four frames.\<close>

definition sample_config :: pcm_config where
  "sample_config = \<lparr>channels = 1, rate = 8000, period_size = 2, period_count = 2, format = PCM_FORMAT_S16_LE,
     start_threshold = 2, stop_threshold = 4, silence_threshold = 0, avail_min = 1\<rparr>"

definition sample_pcm :: "unit pcm" where
  "sample_pcm = (new_pcm PCM_MMAP sample_config 3 0 ())\<lparr>buffer_size := 4, boundary := 2 ^ 30, hw_ptr := 2 ^ 30 - 1,
     appl_ptr := 2, mmap_buffer := replicate 8 0\<rparr>"

text \<open>A driver whose writes always underrun, for a stream that is playing.\<close>

definition linux_snd :: sndrv where
  "linux_snd = \<lparr>FIRST_MASK = 0, LAST_MASK = 2, FIRST_INTERVAL = 8, LAST_INTERVAL = 19, MASK_MAX = 256,
     HW_ACCESS = 0, HW_FORMAT = 1, HW_SUBFORMAT = 2, HW_SAMPLE_BITS = 8, HW_FRAME_BITS = 9, HW_CHANNELS = 10, HW_RATE = 11,
     HW_PERIOD_TIME = 12, HW_PERIOD_SIZE = 13, HW_PERIOD_BYTES = 14, HW_PERIODS = 15, HW_BUFFER_TIME = 16, HW_BUFFER_SIZE = 17,
     HW_BUFFER_BYTES = 18, HW_TICK_TIME = 19, FMT_S8 = 0, FMT_S16_LE = 2, FMT_S24_LE = 6, FMT_S32_LE = 10,
     SUBFORMAT_STD = 0, ACCESS_MMAP = 0, ACCESS_RW = 3, SYNC_APPL = 2, SYNC_HWSYNC = 1, TSTAMP_ENABLE = 1\<rparr>"

definition broken_driver :: "unit snd" where
  "broken_driver =
     \<lparr>k_const = linux_snd, k_ioctl = (\<lambda>req k. case req of WRITEI n \<Rightarrow> (-1, EPIPE, k) | _ \<Rightarrow> (0, 0, k)),
      k_sync = (\<lambda>fl a m k. (0, 0, \<lparr>sh_hw_ptr = 0, sh_state = 3, sh_tstamp = (0, 0), sh_appl_ptr = a, sh_avail_min = m\<rparr>, k)),
      k_pages = (\<lambda>a m k. (\<lparr>sh_hw_ptr = 2 ^ 30 - 1, sh_state = 3, sh_tstamp = (0, 0), sh_appl_ptr = a, sh_avail_min = m\<rparr>, k)),
      k_hw_params = (\<lambda>p k. (0, 0, p, k)), k_hw_refine = (\<lambda>p k. (0, 0, p, k)), k_sw_params = (\<lambda>p k. (0, 0, k)),
      k_open = (\<lambda>n k. (3, 0, k)), k_close = (\<lambda>k. k), k_poll = (\<lambda>t k. (1, 0, POLLOUT, k)),
      k_mmap = (\<lambda>n k. (Some (replicate (unat n) 0), 0, k)), k_map_status = (\<lambda>k. (True, k)), k_map_control = (\<lambda>k. (True, k)),
      k_calloc = (\<lambda>k. (True, k))\<rparr>"

theorem pcm_boundary_witness:
  "(\<exists>k r. boundary_loop 1024 1024 = Some r \<and> unat r = 1024 * 2 ^ k) \<and>
   open_finish broken_driver sample_config ((new_pcm PCM_MMAP sample_config 3 0 ())\<lparr>buffer_size := 0\<rparr>) = None"
  using pcm_boundary[of 1024 "(new_pcm PCM_MMAP sample_config 3 0 ())\<lparr>buffer_size := 0\<rparr>" broken_driver sample_config] by auto

theorem pcm_avail_witness:
  "positions_ok sample_pcm \<and> filled sample_pcm = 3 \<and> pcm_mmap_playback_avail sample_pcm = 1"
proof -
  have p: "positions_ok sample_pcm" "filled sample_pcm = 3" by code_simp+
  moreover have "uint (buffer_size sample_pcm) = 4" by code_simp
  ultimately show ?thesis using pcm_avail[OF p(1)] by simp
qed

section \<open>Writing with restarts\<close>

lemma ioctl_keeps:
  "ioctl K req pcm = (r, pcm1) \<Longrightarrow> running pcm1 = running pcm \<and> flags pcm1 = flags pcm \<and> underruns pcm1 = underruns pcm"
  by (auto simp: ioctl_def split: prod.splits)

lemma write_loop_stopped:
  assumes "\<not> running pcm"
  shows "\<exists>r pcm'. write_loop K n pcm = Some (r, pcm') \<and> (r = 0 \<and> running pcm' \<or> r = -1 \<and> \<not> running pcm') \<and>
    underruns pcm' = underruns pcm"
proof -
  obtain r1 pcm1 where 1: "ioctl K PREPARE pcm = (r1, pcm1)" by (cases "ioctl K PREPARE pcm")
  obtain r2 pcm2 where 2: "ioctl K (WRITEI n) pcm1 = (r2, pcm2)" by (cases "ioctl K (WRITEI n) pcm1")
  show ?thesis
    using assms 1 2 ioctl_keeps[OF 1] ioctl_keeps[OF 2]
    by (subst write_loop.simps) (auto simp: pcm_oops_def)
qed

text \<open>
  \<^verbatim>\<open>pcm_write\<close> returns whatever the driver answers. On a playback stream it returns 0
  with the stream running, -1 with the stream stopped, or, with \<^verbatim>\<open>PCM_NORESTART\<close> set, -EPIPE
  with the stream stopped and the underrun counted; at most one underrun is counted and at
  most one restart is tried. A capture stream is refused and left as it is.
\<close>

theorem pcm_write_returns:
  assumes "xfer_frames pcm count \<noteq> None"
  shows "\<exists>r pcm'. pcm_write K count pcm = Some (r, pcm') \<and>
    (if flags pcm AND PCM_IN \<noteq> 0 then r = - EINVAL \<and> pcm' = pcm
     else (r = 0 \<and> running pcm' \<and> underruns pcm' - underruns pcm \<in> {0, 1}) \<or>
          (r = -1 \<and> \<not> running pcm' \<and> underruns pcm' - underruns pcm \<in> {0, 1}) \<or>
          (r = - EPIPE \<and> \<not> running pcm' \<and> flags pcm AND PCM_NORESTART \<noteq> 0 \<and> underruns pcm' = underruns pcm + 1))"
proof -
  obtain n where n: "xfer_frames pcm count = Some n" using assms by auto
  show ?thesis
  proof (cases "flags pcm AND PCM_IN \<noteq> 0 \<or> \<not> running pcm")
    case True
    then show ?thesis using n write_loop_stopped[of pcm K n] by (auto simp: pcm_write_def)
  next
    case False
    obtain r1 pcm1 where 1: "ioctl K (WRITEI n) pcm = (r1, pcm1)" by (cases "ioctl K (WRITEI n) pcm")
    let ?stopped = "pcm1\<lparr>running := False, underruns := underruns pcm1 + 1\<rparr>"
    obtain r2 pcm2 where 2: "write_loop K n ?stopped = Some (r2, pcm2)"
      "r2 = 0 \<and> running pcm2 \<or> r2 = -1 \<and> \<not> running pcm2" "underruns pcm2 = underruns pcm1 + 1"
      using write_loop_stopped[of ?stopped K n] by auto
    note k = ioctl_keeps[OF 1]
    have step: "write_loop K n pcm =
      (if r1 \<noteq> 0 then
         (if errno pcm1 = EPIPE then (if flags pcm AND PCM_NORESTART \<noteq> 0 then Some (- EPIPE, ?stopped) else Some (r2, pcm2))
          else Some (pcm_oops (pcm1\<lparr>running := False\<rparr>) (errno pcm1) ''cannot write stream data''))
       else Some (0, pcm1))"
      using False 1 2(1) k by (subst write_loop.simps) simp
    show ?thesis
      using False n k 2(2,3) by (auto simp: pcm_write_def step pcm_oops_def)
  qed
qed

theorem pcm_write_returns_witness:
  "\<exists>r pcm'. pcm_write broken_driver 64 (sample_pcm\<lparr>running := True\<rparr>) = Some (r, pcm')"
proof -
  have "xfer_frames (sample_pcm\<lparr>running := True\<rparr>) 64 \<noteq> None" by code_simp
  from pcm_write_returns[OF this, of broken_driver] show ?thesis by blast
qed

section \<open>Transfers through the ring\<close>

definition frame_at :: "nat \<Rightarrow> u8 list \<Rightarrow> nat \<Rightarrow> u8 list" where
  "frame_at f xs i = take f (drop (i * f) xs)"

text \<open>The distance from position \<^verbatim>\<open>a\<close> forward to position \<^verbatim>\<open>i\<close> in a ring of \<^verbatim>\<open>b\<close>.\<close>

definition ring_dist :: "nat \<Rightarrow> nat \<Rightarrow> nat \<Rightarrow> nat" where
  "ring_dist b a i = (if a mod b \<le> i then i - a mod b else i + b - a mod b)"

lemma ring_dist_step:
  assumes "0 < n" "n \<le> b - a mod b" "i < b"
  shows "ring_dist b (a + n) i = (if ring_dist b a i < n then ring_dist b a i + b - n else ring_dist b a i - n)"
proof -
  have ab: "a mod b < b" using assms(3) by auto
  have "(a + n) mod b = (a mod b + n) mod b" by (simp add: mod_add_left_eq)
  also have "\<dots> = (if a mod b + n = b then 0 else a mod b + n)" using assms(1,2) ab by auto
  finally show ?thesis using assms ab by (auto simp: ring_dist_def split: if_splits)
qed

lemma ring_dist_chunk:
  assumes "0 < n" "n \<le> b - a mod b" "i < b"
  shows "a mod b \<le> i \<and> i < a mod b + n \<longleftrightarrow> ring_dist b a i < n"
  using assms by (auto simp: ring_dist_def)

lemma frame_at_splice:
  assumes "(p + n) * f \<le> length m" "(s + n) * f \<le> length xs" "(i + 1) * f \<le> length m"
  shows "frame_at f (take (p * f) m @ take (n * f) (drop (s * f) xs) @ drop ((p + n) * f) m) i =
    (if p \<le> i \<and> i < p + n then frame_at f xs (s + (i - p)) else frame_at f m i)"
proof -
  let ?c = "take (n * f) (drop (s * f) xs)"
  have lc: "length ?c = n * f" using assms(2) by (simp add: algebra_simps)
  have lp: "length (take (p * f) m) = p * f" using assms(1) by (simp add: algebra_simps)
  consider "i < p" | "p \<le> i" "i < p + n" | "p + n \<le> i" by linarith
  then show ?thesis
  proof cases
    case 1
    then have "(i + 1) * f \<le> p * f" by (intro mult_le_mono1) simp
    then have "i * f + f \<le> p * f" by simp
    then show ?thesis using 1 lp by (simp add: frame_at_def take_drop min_def)
  next
    case 2
    then obtain j where j: "i = p + j" "j < n" by (metis le_Suc_ex nat_add_left_cancel_less)
    then have "(j + 1) * f \<le> n * f" by (intro mult_le_mono1) simp
    then have jf: "j * f + f \<le> n * f" by simp
    have "drop (i * f) (take (p * f) m @ ?c @ drop ((p + n) * f) m) = drop (j * f) (?c @ drop ((p + n) * f) m)"
      using lp j(1) by (simp add: add_mult_distrib)
    then show ?thesis
      using 2 j lc jf by (simp add: frame_at_def take_drop min_def add_mult_distrib add_mult_distrib2 ac_simps)
  next
    case 3
    then obtain j where j: "i = p + n + j" by (metis le_Suc_ex)
    then show ?thesis
      using 3 lp lc by (simp add: frame_at_def add_mult_distrib add.commute add.left_commute)
  qed
qed

text \<open>The hardware stands still: every read of the status page shows the same position.\<close>

definition still :: "'k snd \<Rightarrow> u64 \<Rightarrow> bool" where
  "still K h \<longleftrightarrow> (\<forall>a m k. sh_hw_ptr (fst (k_pages K a m k)) = h)"

text \<open>A playback stream with a mapped ring of whole frames.\<close>

definition ring_stream :: "'k pcm \<Rightarrow> bool" where
  "ring_stream pcm \<longleftrightarrow>
     positions_ok pcm \<and> unat (buffer_size pcm) dvd unat (boundary pcm) \<and> \<not> sync_ptr pcm \<and> flags pcm AND PCM_IN = 0 \<and>
     0 < unat (frame_bytes pcm) \<and> unat (buffer_size pcm) * unat (frame_bytes pcm) < 2 ^ 31 \<and>
     length (mmap_buffer pcm) = unat (buffer_size pcm) * unat (frame_bytes pcm)"

definition same_stream :: "'k pcm \<Rightarrow> 'k pcm \<Rightarrow> bool" where
  "same_stream pcm pcm' \<longleftrightarrow> buffer_size pcm' = buffer_size pcm \<and> boundary pcm' = boundary pcm \<and> flags pcm' = flags pcm \<and>
     config pcm' = config pcm \<and> sync_ptr pcm' = sync_ptr pcm \<and> hw_ptr pcm' = hw_ptr pcm \<and> running pcm' = running pcm"

lemma same_stream_frame_bytes: "same_stream pcm pcm' \<Longrightarrow> frame_bytes pcm' = frame_bytes pcm"
  by (simp add: same_stream_def frame_bytes_def)

lemma same_stream_trans: "same_stream a b \<Longrightarrow> same_stream b c \<Longrightarrow> same_stream a c"
  by (simp add: same_stream_def)

lemma sync_still:
  assumes "still K (hw_ptr pcm)" "\<not> sync_ptr pcm"
  shows "\<exists>pcm1. pcm_sync_ptr K pcm fl = (0, pcm1) \<and> same_stream pcm pcm1 \<and> appl_ptr pcm1 = appl_ptr pcm \<and>
    mmap_buffer pcm1 = mmap_buffer pcm"
proof -
  obtain sh k where p: "k_pages K (appl_ptr pcm) (ctl_avail_min pcm) (sys pcm) = (sh, k)"
    by (cases "k_pages K (appl_ptr pcm) (ctl_avail_min pcm) (sys pcm)")
  have "sh_hw_ptr sh = hw_ptr pcm" using assms(1) p unfolding still_def by (metis fst_conv)
  then show ?thesis using assms(2) p by (simp add: pcm_sync_ptr_def same_stream_def)
qed

lemma frames_to_bytes:
  assumes "unat n * unat (frame_bytes pcm) < 2 ^ 31"
  shows "sint (pcm_frames_to_bytes pcm n) = int (unat n * unat (frame_bytes pcm))"
proof -
  have w: "pcm_frames_to_bytes pcm n = n * frame_bytes pcm"
    by (simp add: pcm_frames_to_bytes_def frame_bytes_def mult.assoc)
  have u: "unat (n * frame_bytes pcm) = unat n * unat (frame_bytes pcm)"
    using assms by (subst unat_mult_lem[THEN iffD1]) auto
  have "uint (n * frame_bytes pcm) = int (unat n * unat (frame_bytes pcm))"
    using u by (metis uint_nat)
  with w sint_small[of "n * frame_bytes pcm"] assms show ?thesis by (metis of_nat_less_iff of_nat_numeral of_nat_power)
qed


lemma unat_ucast_u64: "unat (ucast (w :: u32) :: u64) = unat w"
proof -
  have "unat w < 2 ^ LENGTH(32)" by (rule unsigned_less)
  then have "unat w < 2 ^ 64" by simp
  then show ?thesis by (simp add: unsigned_ucast_eq take_bit_nat_eq_self)
qed

lemma unat_ucast_u32:
  assumes "unat (w :: u64) < 2 ^ 32"
  shows "unat (ucast w :: u32) = unat w"
  using assms by (simp add: unsigned_ucast_eq take_bit_nat_eq_self)

lemma appl_offset:
  assumes "0 < unat bs"
  shows "unat (ucast (a mod ucast (bs :: u32)) :: u32) = unat (a :: u64) mod unat bs"
proof -
  have u: "unat (a mod ucast bs) = unat a mod unat bs"
    by (simp add: unat_mod_distrib unat_ucast_u64)
  have "unat a mod unat bs < unat bs" using assms by simp
  moreover have "unat bs < 2 ^ LENGTH(32)" by (rule unsigned_less)
  ultimately have "unat (a mod ucast bs) < 2 ^ 32" using u by simp
  then show ?thesis using u by (simp add: unat_ucast_u32)
qed

lemma positions_nat:
  assumes "positions_ok pcm"
  shows "0 < unat (buffer_size pcm)" "2 * unat (buffer_size pcm) \<le> unat (boundary pcm)"
    "unat (boundary pcm) + unat (buffer_size pcm) < 2 ^ 31" "unat (hw_ptr pcm) < unat (boundary pcm)"
    "unat (appl_ptr pcm) \<le> unat (boundary pcm)"
proof -
  note p = positions_okD[OF assms, unfolded uint_nat]
  show "0 < unat (buffer_size pcm)" "2 * unat (buffer_size pcm) \<le> unat (boundary pcm)"
    "unat (hw_ptr pcm) < unat (boundary pcm)" "unat (appl_ptr pcm) \<le> unat (boundary pcm)"
    using p by linarith+
  show "unat (boundary pcm) + unat (buffer_size pcm) < 2 ^ 31"
    using p(7) by (metis of_nat_add of_nat_less_iff of_nat_numeral of_nat_power)
qed


lemma unat_to_u32:
  assumes "0 \<le> i" "i < 2 ^ 32"
  shows "unat (to_u32 i) = nat i"
proof -
  have "uint (to_u32 i) = i" using assms by (simp add: uint_word_of_int)
  then show ?thesis by (metis nat_int uint_nat)
qed

lemma unat_min: "unat (min a b) = min (unat a) (unat (b :: u32))"
  by (auto simp: min_def word_le_nat_alt)

text \<open>With room for \<^verbatim>\<open>sz\<close> frames the start of a transfer offers what lies before the end of the ring.\<close>

lemma begin_chunk:
  assumes "ring_stream pcm" "still K (hw_ptr pcm)" "0 < sz" "filled pcm + int (unat sz) \<le> int (unat (buffer_size pcm))"
  shows "\<exists>off n pcm1. pcm_mmap_begin K pcm sz = Some (off, n, pcm1) \<and> same_stream pcm pcm1 \<and> appl_ptr pcm1 = appl_ptr pcm \<and>
    mmap_buffer pcm1 = mmap_buffer pcm \<and> unat off = unat (appl_ptr pcm) mod unat (buffer_size pcm) \<and>
    unat n = min (unat sz) (unat (buffer_size pcm) - unat off)"
proof -
  let ?b = "buffer_size pcm"
  have pos: "positions_ok pcm" and ns: "\<not> sync_ptr pcm" and out: "flags pcm AND PCM_IN = 0"
    using assms(1) by (auto simp: ring_stream_def)
  obtain pcm1 where 1: "pcm_sync_ptr K pcm (SYNC_HWSYNC (k_const K)) = (0, pcm1)" "same_stream pcm pcm1"
    "appl_ptr pcm1 = appl_ptr pcm" "mmap_buffer pcm1 = mmap_buffer pcm"
    using sync_still[OF assms(2) ns] by blast
  have szp: "0 < int (unat sz)" using assms(3) by (simp add: word_less_nat_alt del: of_nat_unat)
  have pos1: "positions_ok pcm1" "filled pcm1 = filled pcm" "buffer_size pcm1 = ?b" "flags pcm1 AND PCM_IN = 0"
    using pos 1(2,3) out by (auto simp: same_stream_def positions_ok_def filled_def)
  have "filled pcm1 < uint (buffer_size pcm1)" using assms(4) szp unfolding pos1(2,3) uint_nat by linarith
  then have av: "pcm_mmap_playback_avail pcm1 = uint ?b - filled pcm"
    using playback_avail_eq[OF pos1(1)] pos1(2,3) by auto
  let ?off = "ucast (appl_ptr pcm mod ucast ?b) :: u32"
  have off: "unat ?off = unat (appl_ptr pcm) mod unat ?b" using appl_offset positions_nat(1)[OF pos] by blast
  have f0: "0 \<le> filled pcm"
    by (rule filled_nonneg[OF pos])
  have "uint ?b < 2 ^ LENGTH(32)" by (rule unsigned_less)
  then have "uint ?b < 2 ^ 32" by simp
  then have ua: "unat (to_u32 (uint ?b - filled pcm)) = nat (uint ?b - filled pcm)"
    using f0 assms(4) szp unfolding uint_nat by (intro unat_to_u32) linarith+
  have lt: "unat ?off < unat ?b" using off positions_nat(1)[OF pos] by simp
  then have "unat (?b - ?off) = unat ?b - unat ?off" by (intro unat_sub) (simp add: word_le_nat_alt)
  then have n: "unat (min (min sz (min (to_u32 (uint ?b - filled pcm)) ?b)) (?b - ?off)) = min (unat sz) (unat ?b - unat ?off)"
    using ua assms(4) f0 unfolding unat_min uint_nat by linarith
  have "?b \<noteq> 0" using positions_nat(1)[OF pos] by auto
  then have "pcm_mmap_begin K pcm sz = Some (?off, min (min sz (min (to_u32 (uint ?b - filled pcm)) ?b)) (?b - ?off), pcm1)"
    using 1(1) av pos1(3,4) by (simp add: pcm_mmap_begin_def pcm_mmap_avail_def Let_def)
  with 1 off n show ?thesis by blast
qed

text \<open>Moving the application position forward keeps the positions in range.\<close>

lemma appl_forward_nat:
  assumes "positions_ok pcm" "unat n \<le> unat (buffer_size pcm)"
  shows "unat (appl_ptr (pcm_mmap_appl_forward pcm (to_int n))) =
    (if unat (appl_ptr pcm) + unat n > unat (boundary pcm) then unat (appl_ptr pcm) + unat n - unat (boundary pcm)
     else unat (appl_ptr pcm) + unat n)"
proof -
  note r = positions_nat[OF assms(1)]
  let ?a = "ucast (appl_ptr pcm) + n :: u32"
  have "unat (ucast (appl_ptr pcm) :: u32) = unat (appl_ptr pcm)"
    using r by (intro unat_ucast_u32) simp
  moreover have "unat (ucast (appl_ptr pcm) :: u32) + unat n < 2 ^ LENGTH(32)" using calculation r assms(2) by simp
  ultimately have a: "unat ?a = unat (appl_ptr pcm) + unat n" by (subst unat_add_lem[THEN iffD1]) auto
  have "unat (?a - boundary pcm) = unat ?a - unat (boundary pcm)" if "?a > boundary pcm"
    using that by (intro unat_sub) simp
  then show ?thesis
    using a by (simp add: pcm_mmap_appl_forward_def unat_ucast_u64 word_less_nat_alt)
qed

lemma forward_cong:
  assumes "appl_ptr p = appl_ptr q" "boundary p = boundary q"
  shows "appl_ptr (pcm_mmap_appl_forward p n) = appl_ptr (pcm_mmap_appl_forward q n)"
  using assms by (simp add: pcm_mmap_appl_forward_def Let_def)

lemma same_streamD:
  assumes "same_stream pcm q"
  shows "buffer_size q = buffer_size pcm" "boundary q = boundary pcm" "hw_ptr q = hw_ptr pcm"
  using assms by (simp_all add: same_stream_def)

lemma to_int_small: "unat (n :: u32) < 2 ^ 31 \<Longrightarrow> to_int n = int (unat n)"
  using sint_small[of n] by (metis of_nat_less_iff of_nat_numeral of_nat_power uint_nat)

lemma forward_filled:
  assumes "positions_ok pcm" "filled pcm + int (unat n) \<le> int (unat (buffer_size pcm))"
    "buffer_size q = buffer_size pcm" "boundary q = boundary pcm" "hw_ptr q = hw_ptr pcm"
    "appl_ptr q = appl_ptr (pcm_mmap_appl_forward pcm (to_int n))"
  shows "positions_ok q" "filled q = filled pcm + int (unat n)"
    "unat (appl_ptr q) mod unat (boundary pcm) = (unat (appl_ptr pcm) + unat n) mod unat (boundary pcm)"
proof -
  note r = positions_nat[OF assms(1)]
  let ?A = "unat (appl_ptr pcm)" and ?B = "unat (boundary pcm)" and ?n = "unat n"
  have f0: "0 \<le> filled pcm" by (rule filled_nonneg[OF assms(1)])
  then have nb: "?n \<le> unat (buffer_size pcm)" using assms(2) by linarith
  have q: "unat (appl_ptr q) = (if ?A + ?n > ?B then ?A + ?n - ?B else ?A + ?n)"
    using appl_forward_nat[OF assms(1) nb] assms(6) by simp
  have "uint (appl_ptr q) \<le> uint (boundary pcm)" unfolding uint_nat of_nat_le_iff using q r nb by auto
  then show "positions_ok q" using assms by (simp add: positions_ok_def)
  show m: "unat (appl_ptr q) mod ?B = (?A + ?n) mod ?B" using q by (simp add: le_mod_geq)
  have "int (unat (appl_ptr q)) mod int ?B = (int ?A + int ?n) mod int ?B" using m by (metis of_nat_add zmod_int)
  then have "(int (unat (appl_ptr q)) - int (unat (hw_ptr pcm))) mod int ?B = (int ?A + int ?n - int (unat (hw_ptr pcm))) mod int ?B"
    by (metis mod_diff_left_eq)
  also have "\<dots> = (int ?A - int (unat (hw_ptr pcm)) + int ?n) mod int ?B" by (simp add: algebra_simps)
  also have "\<dots> = ((int ?A - int (unat (hw_ptr pcm))) mod int ?B + int ?n) mod int ?B" by (rule mod_add_left_eq[symmetric])
  also have "\<dots> = filled pcm + int ?n"
    using f0 assms(2) r unfolding filled_def uint_nat by (intro mod_pos_pos_trivial) linarith+
  finally show "filled q = filled pcm + int ?n" using assms(4,5) by (simp add: filled_def uint_nat del: of_nat_unat)
qed

lemma commit_still:
  assumes "still K (hw_ptr pcm)" "\<not> sync_ptr pcm"
  shows "\<exists>pcm1. pcm_mmap_commit K pcm n = (to_int n, pcm1) \<and> same_stream pcm pcm1 \<and>
    appl_ptr pcm1 = appl_ptr (pcm_mmap_appl_forward pcm (to_int n)) \<and> mmap_buffer pcm1 = mmap_buffer pcm"
proof -
  let ?q = "pcm_mmap_appl_forward pcm (to_int n)"
  have q: "hw_ptr ?q = hw_ptr pcm" "sync_ptr ?q = sync_ptr pcm" "same_stream pcm ?q" "mmap_buffer ?q = mmap_buffer pcm"
    by (simp_all add: pcm_mmap_appl_forward_def same_stream_def Let_def)
  obtain pcm1 where "pcm_sync_ptr K ?q 0 = (0, pcm1)" "same_stream ?q pcm1" "appl_ptr pcm1 = appl_ptr ?q" "mmap_buffer pcm1 = mmap_buffer ?q"
    using sync_still[of K ?q 0] assms q(1,2) by auto
  with q same_stream_trans show ?thesis by (auto simp: pcm_mmap_commit_def)
qed

lemma areas_copy_out:
  assumes "flags pcm AND PCM_IN = 0" "f = unat (frame_bytes pcm)" "(unat p + unat n) * f \<le> length (mmap_buffer pcm)"
    "(unat s + unat n) * f \<le> length buf" "(unat p + unat n) * f < 2 ^ 31" "(unat s + unat n) * f < 2 ^ 31"
  shows "pcm_areas_copy pcm p buf s n = Some (buf, pcm\<lparr>mmap_buffer :=
    take (unat p * f) (mmap_buffer pcm) @ take (unat n * f) (drop (unat s * f) buf) @ drop ((unat p + unat n) * f) (mmap_buffer pcm)\<rparr>)"
proof -
  have "unat p * f \<le> (unat p + unat n) * f" "unat n * f \<le> (unat p + unat n) * f" "unat s * f \<le> (unat s + unat n) * f"
    by (intro mult_le_mono1; simp)+
  then have "unat p * f < 2 ^ 31" "unat n * f < 2 ^ 31" "unat s * f < 2 ^ 31" using assms(5,6) by linarith+
  moreover have "to_int (pcm_frames_to_bytes pcm x) = int (unat x * f)" if "unat x * f < 2 ^ 31" for x
    using frames_to_bytes[of x pcm] that assms(2) by simp
  ultimately have b: "to_int (pcm_frames_to_bytes pcm p) = int (unat p * f)" "to_int (pcm_frames_to_bytes pcm n) = int (unat n * f)"
    "to_int (pcm_frames_to_bytes pcm s) = int (unat s * f)"
    by blast+
  have "unat p * f + unat n * f \<le> length (mmap_buffer pcm)" "unat s * f + unat n * f \<le> length buf"
    using assms(3,4) by (simp_all add: add_mult_distrib)
  then have "copy_bytes (mmap_buffer pcm) (int (unat p * f)) buf (int (unat s * f)) (int (unat n * f)) =
    Some (take (unat p * f) (mmap_buffer pcm) @ take (unat n * f) (drop (unat s * f) buf) @ drop ((unat p + unat n) * f) (mmap_buffer pcm))"
    unfolding copy_bytes_def by (simp add: add_mult_distrib nat_int_add flip: of_nat_add of_nat_mult del: of_nat_unat)
  then show ?thesis unfolding pcm_areas_copy_def Let_def b using assms(1) by simp
qed


lemma chunk_frames:
  assumes "p = A mod b" "0 < n" "n \<le> b - p" "(s + n) * f \<le> length buf" "length m = b * f" "i < b"
  shows "frame_at f (take (p * f) m @ take (n * f) (drop (s * f) buf) @ drop ((p + n) * f) m) i =
    (if ring_dist b A i < n then frame_at f buf (s + ring_dist b A i) else frame_at f m i)"
proof -
  have "(i + 1) * f \<le> b * f" "(p + n) * f \<le> b * f" using assms by (intro mult_le_mono1; simp)+
  then have "frame_at f (take (p * f) m @ take (n * f) (drop (s * f) buf) @ drop ((p + n) * f) m) i =
      (if p \<le> i \<and> i < p + n then frame_at f buf (s + (i - p)) else frame_at f m i)"
    using assms(4,5) by (intro frame_at_splice) simp_all
  moreover have "p \<le> i \<and> i < p + n \<longleftrightarrow> ring_dist b A i < n"
    using ring_dist_chunk[of n b A i] assms by simp
  moreover have "ring_dist b A i = i - p" if "p \<le> i" using that assms(1) by (simp add: ring_dist_def)
  ultimately show ?thesis by auto
qed

text \<open>One chunk of a transfer.\<close>

lemma transfer_chunk:
  assumes rs: "ring_stream pcm" and st: "still K (hw_ptr pcm)" and sz: "0 < sz"
    and room: "filled pcm + int (unat sz) \<le> int (unat (buffer_size pcm))"
    and f: "f = unat (frame_bytes pcm)"
    and len: "(unat off + unat sz) * f \<le> length buf" "(unat off + unat sz) * f < 2 ^ 31"
  shows "\<exists>n pcm'. 0 < unat n \<and> unat n \<le> unat sz \<and> unat n \<le> unat (buffer_size pcm) - unat (appl_ptr pcm) mod unat (buffer_size pcm) \<and>
    pcm_mmap_transfer_areas K buf off sz count pcm = pcm_mmap_transfer_areas K buf (off + n) (sz - n) (count + n) pcm' \<and>
    ring_stream pcm' \<and> same_stream pcm pcm' \<and> filled pcm' = filled pcm + int (unat n) \<and>
    unat (appl_ptr pcm') mod unat (boundary pcm) = (unat (appl_ptr pcm) + unat n) mod unat (boundary pcm) \<and>
    (\<forall>i < unat (buffer_size pcm). frame_at f (mmap_buffer pcm') i =
       (if ring_dist (unat (buffer_size pcm)) (unat (appl_ptr pcm)) i < unat n
        then frame_at f buf (unat off + ring_dist (unat (buffer_size pcm)) (unat (appl_ptr pcm)) i)
        else frame_at f (mmap_buffer pcm) i))"
proof -
  let ?b = "unat (buffer_size pcm)" and ?A = "unat (appl_ptr pcm)" and ?m = "mmap_buffer pcm"
  have R: "positions_ok pcm" "?b dvd unat (boundary pcm)" "\<not> sync_ptr pcm" "flags pcm AND PCM_IN = 0" "0 < f"
    "?b * f < 2 ^ 31" "length ?m = ?b * f" using rs f by (auto simp: ring_stream_def)
  have b0: "0 < ?b" by (rule positions_nat(1)[OF R(1)])
  obtain po n pcm1 where B: "pcm_mmap_begin K pcm sz = Some (po, n, pcm1)" "same_stream pcm pcm1" "appl_ptr pcm1 = appl_ptr pcm"
    "mmap_buffer pcm1 = ?m" "unat po = ?A mod ?b" "unat n = min (unat sz) (?b - unat po)"
    using begin_chunk[OF rs st sz room] by blast
  have f1: "f = unat (frame_bytes pcm1)" using same_stream_frame_bytes[OF B(2)] f by simp
  have po: "unat po < ?b" using B(5) b0 by simp
  have n: "0 < unat n" "unat n \<le> unat sz" "unat n \<le> ?b - unat po" "unat po + unat n \<le> ?b"
    using B(6) po sz by (auto simp: word_less_nat_alt)
  have "(unat po + unat n) * f \<le> ?b * f" "(unat off + unat n) * f \<le> (unat off + unat sz) * f"
    using n by (auto intro!: mult_le_mono1)
  then have lens: "(unat po + unat n) * f \<le> length ?m" "(unat off + unat n) * f \<le> length buf"
    "(unat po + unat n) * f < 2 ^ 31" "(unat off + unat n) * f < 2 ^ 31"
    using R(6,7) len by linarith+
  let ?m' = "take (unat po * f) ?m @ take (unat n * f) (drop (unat off * f) buf) @ drop ((unat po + unat n) * f) ?m"
  let ?pcm2 = "pcm1\<lparr>mmap_buffer := ?m'\<rparr>"
  have C: "pcm_areas_copy pcm1 po buf off n = Some (buf, ?pcm2)"
    using areas_copy_out[OF _ f1, of po n off buf] B(2,4) R(4) lens by (auto simp: same_stream_def)
  have s2: "same_stream pcm ?pcm2" "appl_ptr ?pcm2 = appl_ptr pcm" using B(2,3) by (auto simp: same_stream_def)
  then have "still K (hw_ptr ?pcm2)" "\<not> sync_ptr ?pcm2" using st R(3) by (auto simp: same_stream_def)
  then obtain pcm3 where D: "pcm_mmap_commit K ?pcm2 n = (to_int n, pcm3)" "same_stream ?pcm2 pcm3"
    "appl_ptr pcm3 = appl_ptr (pcm_mmap_appl_forward ?pcm2 (to_int n))" "mmap_buffer pcm3 = ?m'"
    using commit_still[of K ?pcm2 n] by auto
  have s3: "same_stream pcm pcm3" by (rule same_stream_trans[OF s2(1) D(2)])
  have room_n: "filled pcm + int (unat n) \<le> int ?b" using room n(2) by linarith
  have appl3: "appl_ptr pcm3 = appl_ptr (pcm_mmap_appl_forward pcm (to_int n))"
    using D(3) forward_cong[OF s2(2)] s2(1) unfolding same_stream_def by metis
  have fill: "positions_ok pcm3" "filled pcm3 = filled pcm + int (unat n)"
    "unat (appl_ptr pcm3) mod unat (boundary pcm) = (?A + unat n) mod unat (boundary pcm)"
    using forward_filled[OF R(1) room_n same_streamD[OF s3] appl3] by simp_all
  have rs3: "ring_stream pcm3"
    using fill(1) s3 R same_stream_frame_bytes[OF s3] f D(4) lens(1,2)
    by (auto simp: ring_stream_def same_stream_def algebra_simps)
  have "unat n < 2 ^ 31"
    using n(4) positions_nat(3)[OF R(1)] by linarith
  then have "to_int n = int (unat n)" by (rule to_int_small)
  then have step: "pcm_mmap_transfer_areas K buf off sz count pcm = pcm_mmap_transfer_areas K buf (off + n) (sz - n) (count + n) pcm3"
    using sz B(1) C D(1) by (subst pcm_mmap_transfer_areas.simps) simp
  have "frame_at f ?m' i = (if ring_dist ?b ?A i < unat n then frame_at f buf (unat off + ring_dist ?b ?A i) else frame_at f ?m i)"
    if "i < ?b" for i
    using chunk_frames[OF B(5) n(1,3) lens(2) R(7) that] by simp
  then show ?thesis using n B(5) step rs3 s3 fill(2,3) D(4) by (intro exI[of _ n] exI[of _ pcm3]) auto
qed

text \<open>What a transfer of \<^verbatim>\<open>sz\<close> frames from frame \<^verbatim>\<open>off\<close> of \<^verbatim>\<open>buf\<close> leaves.\<close>

definition ring_holds :: "'k pcm \<Rightarrow> u8 list \<Rightarrow> nat \<Rightarrow> nat \<Rightarrow> 'k pcm \<Rightarrow> bool" where
  "ring_holds pcm buf off sz pcm' \<longleftrightarrow>
     ring_stream pcm' \<and> same_stream pcm pcm' \<and> filled pcm' = filled pcm + int sz \<and>
     unat (appl_ptr pcm') mod unat (boundary pcm) = (unat (appl_ptr pcm) + sz) mod unat (boundary pcm) \<and>
     (\<forall>i < unat (buffer_size pcm). frame_at (unat (frame_bytes pcm)) (mmap_buffer pcm') i =
       (if ring_dist (unat (buffer_size pcm)) (unat (appl_ptr pcm)) i < sz
        then frame_at (unat (frame_bytes pcm)) buf (off + ring_dist (unat (buffer_size pcm)) (unat (appl_ptr pcm)) i)
        else frame_at (unat (frame_bytes pcm)) (mmap_buffer pcm) i))"

lemma ring_holds_frame:
  assumes "ring_holds pcm buf off sz pcm'" "i < unat (buffer_size pcm)"
    "ring_dist (unat (buffer_size pcm)) (unat (appl_ptr pcm)) i < sz"
  shows "frame_at (unat (frame_bytes pcm)) (mmap_buffer pcm') i =
    frame_at (unat (frame_bytes pcm)) buf (off + ring_dist (unat (buffer_size pcm)) (unat (appl_ptr pcm)) i)"
  using assms by (simp add: ring_holds_def)

lemma ring_dist_cong: "a mod b = a' mod b \<Longrightarrow> ring_dist b a i = ring_dist b a' i"
  by (simp add: ring_dist_def)

lemma ring_holds_trans:
  assumes 1: "ring_holds pcm buf off n p1" and 2: "ring_holds p1 buf (off + n) m p2"
    and n: "0 < n" "n \<le> unat (buffer_size pcm) - unat (appl_ptr pcm) mod unat (buffer_size pcm)" "n + m \<le> unat (buffer_size pcm)"
    and dvd: "unat (buffer_size pcm) dvd unat (boundary pcm)"
  shows "ring_holds pcm buf off (n + m) p2"
proof -
  let ?b = "unat (buffer_size pcm)" and ?A = "unat (appl_ptr pcm)" and ?f = "unat (frame_bytes pcm)" and ?B = "unat (boundary pcm)"
  have s: "same_stream pcm p1" "same_stream p1 p2" using 1 2 by (auto simp: ring_holds_def)
  note e = same_streamD[OF s(1)] same_stream_frame_bytes[OF s(1)]
  have a1: "unat (appl_ptr p1) mod ?B = (?A + n) mod ?B" using 1 by (simp add: ring_holds_def)
  have ab: "unat (appl_ptr p1) mod ?b = (?A + n) mod ?b" using arg_cong[OF a1, of "\<lambda>x. x mod ?b"] dvd by (simp add: mod_mod_cancel)
  have "unat (appl_ptr p2) mod ?B = (unat (appl_ptr p1) + m) mod ?B" using 2 e by (simp add: ring_holds_def)
  also have "\<dots> = (?A + n + m) mod ?B" using a1 by (rule mod_add_cong) simp
  finally have a2: "unat (appl_ptr p2) mod ?B = (?A + (n + m)) mod ?B" by (simp add: add.assoc)
  have "frame_at ?f (mmap_buffer p2) i = (if ring_dist ?b ?A i < n + m then frame_at ?f buf (off + ring_dist ?b ?A i) else frame_at ?f (mmap_buffer pcm) i)"
    if i: "i < ?b" for i
  proof -
    have d: "ring_dist ?b (unat (appl_ptr p1)) i = (if ring_dist ?b ?A i < n then ring_dist ?b ?A i + ?b - n else ring_dist ?b ?A i - n)"
      using ring_dist_cong[OF ab] ring_dist_step[OF n(1,2) i] by simp
    have "frame_at ?f (mmap_buffer p1) i = (if ring_dist ?b ?A i < n then frame_at ?f buf (off + ring_dist ?b ?A i) else frame_at ?f (mmap_buffer pcm) i)"
      "frame_at ?f (mmap_buffer p2) i = (if ring_dist ?b (unat (appl_ptr p1)) i < m
         then frame_at ?f buf (off + n + ring_dist ?b (unat (appl_ptr p1)) i) else frame_at ?f (mmap_buffer p1) i)"
      using 1 2 i e by (auto simp: ring_holds_def)
    then show ?thesis using d n(3) by auto
  qed
  then show ?thesis using 1 2 a2 same_stream_trans[OF s] by (simp add: ring_holds_def)
qed

lemma ring_transfer:
  assumes "ring_stream pcm" "still K (hw_ptr pcm)" "filled pcm + int (unat sz) \<le> int (unat (buffer_size pcm))"
    "(unat off + unat sz) * unat (frame_bytes pcm) \<le> length buf" "(unat off + unat sz) * unat (frame_bytes pcm) < 2 ^ 31"
  shows "\<exists>pcm'. pcm_mmap_transfer_areas K buf off sz count pcm = Some (to_int (count + sz), buf, pcm') \<and>
    ring_holds pcm buf (unat off) (unat sz) pcm'"
  using assms
proof (induction "unat sz" arbitrary: sz off count pcm rule: less_induct)
  case less
  show ?case
  proof (cases "sz = 0")
    case True
    then show ?thesis
      using less.prems(1) by (subst pcm_mmap_transfer_areas.simps) (simp add: ring_holds_def same_stream_def)
  next
    case False
    then have sz: "0 < sz" by (simp add: word_gt_0)
    let ?b = "unat (buffer_size pcm)" and ?f = "unat (frame_bytes pcm)"
    obtain n p1 where n: "0 < unat n" "unat n \<le> unat sz" "unat n \<le> ?b - unat (appl_ptr pcm) mod ?b"
      and eq: "pcm_mmap_transfer_areas K buf off sz count pcm = pcm_mmap_transfer_areas K buf (off + n) (sz - n) (count + n) p1"
      and h1: "ring_holds pcm buf (unat off) (unat n) p1"
      using transfer_chunk[OF less.prems(1,2) sz less.prems(3) refl less.prems(4,5)] unfolding ring_holds_def by metis
    have s: "same_stream pcm p1" "ring_stream p1" "filled p1 = filled pcm + int (unat n)" using h1 by (auto simp: ring_holds_def)
    note e = same_streamD[OF s(1)] same_stream_frame_bytes[OF s(1)]
    have u: "unat (sz - n) = unat sz - unat n" using n by (intro unat_sub) (simp add: word_le_nat_alt)
    have f0: "1 \<le> ?f" using less.prems(1) by (auto simp: ring_stream_def)
    have "(unat off + unat sz) * 1 \<le> (unat off + unat sz) * ?f" using f0 by (intro mult_le_mono2) simp
    from le_less_trans[OF this less.prems(5)] have "unat off + unat sz < 2 ^ 31" by simp
    then have "unat off + unat n < 2 ^ LENGTH(32)" using n(2) by simp
    then have o: "unat (off + n) = unat off + unat n" by (simp add: unat_add_lem[THEN iffD1])
    have tot: "unat (off + n) + unat (sz - n) = unat off + unat sz" using u o n by simp
    have "\<exists>pcm'. pcm_mmap_transfer_areas K buf (off + n) (sz - n) (count + n) p1 = Some (to_int (count + n + (sz - n)), buf, pcm') \<and>
        ring_holds p1 buf (unat (off + n)) (unat (sz - n)) pcm'"
    proof (rule less.hyps)
      show "unat (sz - n) < unat sz" using u n by simp
      show "filled p1 + int (unat (sz - n)) \<le> int (unat (buffer_size p1))" using less.prems(3) s(3) u n e by (simp add: of_nat_diff)
    qed (use less.prems tot e s in \<open>simp_all\<close>)
    then obtain p2 where p2: "pcm_mmap_transfer_areas K buf (off + n) (sz - n) (count + n) p1 = Some (to_int (count + n + (sz - n)), buf, p2)"
      "ring_holds p1 buf (unat off + unat n) (unat (sz - n)) p2" using o by auto
    have "0 \<le> filled pcm" using less.prems(1) by (simp add: ring_stream_def filled_nonneg)
    then have "unat n + unat (sz - n) \<le> ?b" using u n less.prems(3) by linarith
    then have "ring_holds pcm buf (unat off) (unat n + unat (sz - n)) p2"
      using ring_holds_trans[OF h1 p2(2) n(1,3)] less.prems(1) by (simp add: ring_stream_def)
    then show ?thesis using eq p2(1) u n by simp
  qed
qed


text \<open>Reading the positions again changes nothing a transfer depends on.\<close>

definition same_ring :: "'k pcm \<Rightarrow> 'k pcm \<Rightarrow> bool" where
  "same_ring p q \<longleftrightarrow> same_stream p q \<and> appl_ptr q = appl_ptr p \<and> mmap_buffer q = mmap_buffer p"

lemma same_ring_trans: "same_ring p q \<Longrightarrow> same_ring q r \<Longrightarrow> same_ring p r"
  by (auto simp: same_ring_def intro: same_stream_trans)

lemma same_ring_facts:
  assumes "same_ring p q"
  shows "ring_stream p \<Longrightarrow> ring_stream q" "filled q = filled p" "buffer_size q = buffer_size p" "hw_ptr q = hw_ptr p"
    "flags q = flags p" "frame_bytes q = frame_bytes p" "running q = running p" "config q = config p" "sync_ptr q = sync_ptr p"
    "ring_holds q buf off n r \<Longrightarrow> ring_holds p buf off n r"
proof -
  have s: "same_stream p q" "appl_ptr q = appl_ptr p" "mmap_buffer q = mmap_buffer p" using assms by (auto simp: same_ring_def)
  note e = same_streamD[OF s(1)] same_stream_frame_bytes[OF s(1)]
  show f: "filled q = filled p" using e s by (simp add: filled_def)
  show "ring_stream p \<Longrightarrow> ring_stream q" using e s by (simp add: ring_stream_def positions_ok_def same_stream_def)
  show "ring_holds q buf off n r \<Longrightarrow> ring_holds p buf off n r"
    using e s f same_stream_trans[OF s(1)] by (auto simp: ring_holds_def)
qed (use assms in \<open>auto simp: same_ring_def same_stream_def frame_bytes_def\<close>)

lemma sync_same_ring:
  assumes "still K (hw_ptr pcm)" "\<not> sync_ptr pcm"
  shows "\<exists>q. pcm_sync_ptr K pcm fl = (0, q) \<and> same_ring pcm q \<and> wait_for_avail_min q = wait_for_avail_min pcm"
proof -
  obtain q where "pcm_sync_ptr K pcm fl = (0, q)" "same_ring pcm q" using sync_still[OF assms] by (auto simp: same_ring_def)
  moreover from this(1) have "wait_for_avail_min q = wait_for_avail_min pcm"
    using assms(2) by (auto simp: pcm_sync_ptr_def split: prod.splits)
  ultimately show ?thesis by blast
qed

lemma avail_update_still:
  assumes "still K (hw_ptr pcm)" "ring_stream pcm" "filled pcm < uint (buffer_size pcm)"
  shows "\<exists>q. pcm_avail_update K pcm = (uint (buffer_size pcm) - filled pcm, q) \<and> same_ring pcm q \<and>
    wait_for_avail_min q = wait_for_avail_min pcm"
proof -
  have ns: "\<not> sync_ptr pcm" and out: "flags pcm AND PCM_IN = 0" using assms(2) by (auto simp: ring_stream_def)
  obtain p where p: "pcm_sync_ptr K pcm 0 = (0, p)" "same_ring pcm p" "wait_for_avail_min p = wait_for_avail_min pcm"
    using sync_same_ring[OF assms(1) ns] by blast
  note e = same_ring_facts[OF p(2)]
  obtain q where q: "pcm_sync_ptr K p (SYNC_HWSYNC (k_const K)) = (0, q)" "same_ring p q" "wait_for_avail_min q = wait_for_avail_min p"
    using sync_same_ring[of K p "SYNC_HWSYNC (k_const K)"] assms(1) ns e(4,9) by auto
  note e2 = same_ring_facts[OF same_ring_trans[OF p(2) q(2)]]
  have "positions_ok q" using e2(1) assms(2) by (simp add: ring_stream_def)
  then have "pcm_mmap_playback_avail q = uint (buffer_size pcm) - filled pcm"
    using playback_avail_eq[of q] assms(3) e2(2,3) by auto
  then have "pcm_avail_update K pcm = (uint (buffer_size pcm) - filled pcm, q)"
    using p(1) q(1) out e2(5) by (simp add: pcm_avail_update_def pcm_mmap_avail_def)
  then show ?thesis using p(3) q(3) same_ring_trans[OF p(2) q(2)] by auto
qed

lemma not_due:
  assumes "running q \<or> filled q < uint (start_threshold (config q))" "0 \<le> filled q" "filled q \<le> uint (buffer_size q)"
  shows "start_if_due K (uint (buffer_size q) - filled q) q = (0, q)"
proof -
  have "uint (buffer_size q) < 2 ^ LENGTH(32)" by (rule unsigned_less)
  then have "uint (to_u32 (filled q)) = filled q" using assms(2,3) by (simp add: uint_word_of_int)
  then have "\<not> to_u32 (filled q) \<ge> start_threshold (config q)" if "\<not> running q"
    using assms(1) that by (simp add: word_le_def)
  moreover have "buffer_size q - to_u32 (uint (buffer_size q) - filled q) = to_u32 (filled q)" by simp
  ultimately show ?thesis by (auto simp: start_if_due_def)
qed

lemma mmap_out_allowed: "fl AND PCM_MMAP \<noteq> 0 \<Longrightarrow> NOT fl AND (PCM_OUT OR PCM_MMAP) = 0"
  by (auto simp: PCM_MMAP_def PCM_OUT_def and_one_eq mod_2_eq_odd)

lemma transfer_frames_ring:
  assumes "ring_stream pcm" "still K (hw_ptr pcm)" "0 < count" "int (unat count) \<le> avail"
    "filled pcm + int (unat count) \<le> uint (buffer_size pcm)"
    "unat count * unat (frame_bytes pcm) \<le> length buf" "unat count * unat (frame_bytes pcm) < 2 ^ 31"
  shows "\<exists>pcm'. transfer_frames K buf 0 count avail pcm = Some (Again buf count 0 pcm') \<and> ring_holds pcm buf 0 (unat count) pcm'"
proof -
  have r: "positions_ok pcm" using assms(1) by (simp add: ring_stream_def)
  have "0 \<le> filled pcm" by (rule filled_nonneg[OF r])
  then have "unat count \<le> unat (buffer_size pcm)" using assms(5) unfolding uint_nat by linarith
  then have "unat count < 2 ^ 31" using positions_nat(3)[OF r] by linarith
  then have c: "to_int count = int (unat count)" by (rule to_int_small)
  moreover have "unat count \<noteq> 0" using assms(3) by (simp add: unat_eq_0 word_gt_0)
  ultimately have m: "min (to_int count) avail = to_int count" "to_int count \<noteq> 0" "0 \<le> to_int count" using assms(4) by linarith+
  obtain pcm' where "pcm_mmap_transfer_areas K buf 0 count 0 pcm = Some (to_int (0 + count), buf, pcm')" "ring_holds pcm buf 0 (unat count) pcm'"
    using ring_transfer[of pcm K count 0 buf 0] assms(1,2,5,6,7) by auto
  then show ?thesis using m by (simp add: transfer_frames_def Let_def)
qed

text \<open>
  C5. Playing through the ring. On a mapped playback stream with room for the frames, and
  the hardware standing still, \<^verbatim>\<open>pcm_mmap_write\<close> returns 0 with every whole frame of the data
  at its place of the ring, from the application position on and around the end of the
  ring, the other frames as they were, and the application position moved on by their
  number, for every wrap of the ring and of the boundary. It is for a stream that runs and
  does not wait, or that stays below its start threshold.
\<close>

theorem pcm_mmap_write_ring:
  assumes "ring_stream pcm" "still K (hw_ptr pcm)" "flags pcm AND PCM_MMAP \<noteq> 0"
    and "n = unat bytes div unat (frame_bytes pcm)" "filled pcm + int n \<le> uint (buffer_size pcm)"
    and "unat bytes \<le> length buf" "unat bytes < 2 ^ 31"
    and "running pcm \<and> \<not> wait_for_avail_min pcm \<or>
         \<not> running pcm \<and> filled pcm < uint (start_threshold (config pcm))"
  shows "\<exists>pcm'. pcm_mmap_write K buf bytes pcm = Some (0, buf, pcm') \<and> ring_holds pcm buf 0 n pcm'"
proof -
  let ?f = "unat (frame_bytes pcm)" and ?av = "uint (buffer_size pcm) - filled pcm"
  have r: "positions_ok pcm" "0 < ?f" using assms(1) by (auto simp: ring_stream_def)
  have f0: "0 \<le> filled pcm" by (rule filled_nonneg[OF r(1)])
  let ?c = "bytes div frame_bytes pcm"
  have c: "unat ?c = n" using assms(4) by (simp add: unat_div)
  have w: "pcm_mmap_write K buf bytes pcm = (if bytes = 0 then Some (0, buf, pcm) else transfer_loop K buf 0 ?c pcm)"
    using mmap_out_allowed[OF assms(3)] r(2)
    by (auto simp: pcm_mmap_write_def pcm_mmap_transfer_def pcm_bytes_to_frames_def)
  have self: "ring_holds pcm buf 0 0 pcm" using assms(1) by (simp add: ring_holds_def same_stream_def)
  have nf: "n * ?f \<le> unat bytes" using assms(4) by simp
  show ?thesis
  proof (cases "n = 0")
    case True
    then have "?c = 0" using c by (simp add: unat_eq_0)
    then show ?thesis using w self True by (auto simp: transfer_loop.simps)
  next
    case False
    then have c0: "0 < ?c" "bytes \<noteq> 0" using c assms(4) by (auto simp: word_less_nat_alt)
    obtain q where q: "pcm_avail_update K pcm = (?av, q)" "same_ring pcm q" "wait_for_avail_min q = wait_for_avail_min pcm"
      using avail_update_still[OF assms(2,1)] assms(5) False by auto
    note e = same_ring_facts[OF q(2)]
    have due: "start_if_due K ?av q = (0, q)"
      using not_due[of q K] assms(5,8) f0 e by auto
    let ?q = "if running q then q\<lparr>wait_for_avail_min := False\<rparr> else q"
    have sr: "same_ring pcm ?q" using q(2) by (simp add: same_ring_def same_stream_def)
    note g = same_ring_facts[OF sr]
    have "uint (buffer_size pcm) < 2 ^ LENGTH(32)" by (rule unsigned_less)
    then have "unat (to_u32 ?av) = nat ?av" using assms(5) f0 by (intro unat_to_u32) simp_all
    then have nw: "\<not> ?c > to_u32 ?av" using assms(5) c f0 by (simp add: word_less_nat_alt)
    have "\<exists>pcm'. transfer_frames K buf 0 ?c ?av ?q = Some (Again buf ?c 0 pcm') \<and> ring_holds ?q buf 0 (unat ?c) pcm'"
      using assms(1,2,5) c c0(1) nf le_trans[OF nf assms(6)] le_less_trans[OF nf assms(7)] g by (intro transfer_frames_ring) simp_all
    then obtain pcm' where t: "transfer_frames K buf 0 ?c ?av ?q = Some (Again buf ?c 0 pcm')" "ring_holds pcm buf 0 n pcm'"
      using g(10) c by blast
    have "transfer_round K buf 0 ?c pcm = Some (Again buf ?c 0 pcm')"
      using q due nw t(1) f0 assms(5,8) e by (auto simp: transfer_round_def)
    then show ?thesis using w c0 t(2) by (auto simp: transfer_loop.simps)
  qed
qed


theorem pcm_mmap_write_ring_witness:
  "\<exists>pcm'. pcm_mmap_write broken_driver [7, 9] 2 (sample_pcm\<lparr>running := True\<rparr>) = Some (0, [7, 9], pcm') \<and>
     frame_at 2 (mmap_buffer pcm') 2 = [7, 9]"
proof -
  let ?p = "sample_pcm\<lparr>running := True\<rparr>"
  note d = ring_stream_def positions_ok_def filled_def frame_bytes_def pcm_format_to_bits_def sample_pcm_def new_pcm_def
    sample_config_def PCM_MMAP_def PCM_IN_def
  have b: "ring_stream ?p" "filled ?p = 3" "uint (buffer_size ?p) = 4" "unat (frame_bytes ?p) = 2" "flags ?p AND PCM_MMAP \<noteq> 0"
    "unat (appl_ptr ?p) = 2" "unat (buffer_size ?p) = 4" "running ?p" "\<not> wait_for_avail_min ?p"
    by (simp_all add: d)
  have s: "still broken_driver (hw_ptr ?p)" by (simp add: still_def broken_driver_def sample_pcm_def)
  obtain pcm' where "pcm_mmap_write broken_driver [7, 9] 2 ?p = Some (0, [7, 9], pcm')" "ring_holds ?p [7, 9] 0 1 pcm'"
    using pcm_mmap_write_ring[OF b(1) s b(5), of 1 2 "[7, 9]"] b by auto
  moreover from ring_holds_frame[OF this(2), of 2] have "frame_at 2 (mmap_buffer pcm') 2 = frame_at 2 [7, 9] 0"
    unfolding b by (simp add: ring_dist_def)
  ultimately show ?thesis by (auto simp: frame_at_def)
qed

end
