(* ===== verification/Spec2Isabelle.thy ===== *)
theory Spec2Isabelle
  imports IniRoundtrip FtpsFiles FtpClient HttpServed HttpClient ImageQueue Crc Sm4 Sha256 HexConv BuildJson CJsonBuffer CJsonHeap PcmRing
begin

text \<open>
  A verification library for the C utilities of this repository: an INI parser over a string
  dictionary, a JSON library with message builders, a pool of image buffers, checksums and
  ciphers, a sound stream library, and the network programs (file transfer, FTP and FTPS
  clients, servers around \<^verbatim>\<open>select\<close>, an HTTP server for image analysis and its client).

  Every model is a translation of the C code into HOL functions, function by function and in
  the order of the sources, on the types the code uses: machine words where the width matters,
  records for structures and for the variables of a \<^verbatim>\<open>main\<close>, lists of bytes for buffers of a
  fixed size. An operation that the standard can leave undefined (an access outside an object,
  a dereference of NULL, a double free, an overflow of \<^verbatim>\<open>int\<close>, a division by zero), or that can
  run for ever, returns an option, and \<^const>\<open>None\<close> is that case. A theorem that an operation
  gives \<^const>\<open>Some\<close> result therefore says that it returns and stays inside its objects.

  \<^bold>\<open>Foundations.\<close>
  \<^item> \<^verbatim>\<open>Prelude\<close>: word types, checked array accesses, the allocation oracle (a list of outcomes of
    \<^verbatim>\<open>malloc\<close> and \<^verbatim>\<open>calloc\<close>), character classes, shared lemmas.
  \<^item> \<^verbatim>\<open>CLib\<close>: the C library on NUL-terminated strings (the \<^verbatim>\<open>printf\<close> and \<^verbatim>\<open>strtol\<close> families,
    \<^verbatim>\<open>strstr\<close>, \<^verbatim>\<open>fgets\<close>).
  \<^item> \<^verbatim>\<open>CString\<close>: strings inside fixed buffers; a pointer is the rest of the object from
    where it points (\<^verbatim>\<open>strncpy\<close>, \<^verbatim>\<open>sprintf\<close> at a place, \<^verbatim>\<open>sscanf\<close> directives, \<^verbatim>\<open>memset\<close>, \<^verbatim>\<open>atoi\<close>).
  \<^item> \<^verbatim>\<open>Posix\<close>: system calls as a trace, newest first, and the environment as a parameter that
    maps the trace so far and the next call to the reply. Nothing is assumed of the
    environment except where a theorem says so; the predicates that do (\<^verbatim>\<open>fresh_fds\<close>, \<^verbatim>\<open>calm\<close>,
    \<^verbatim>\<open>delivers\<close>, \<^verbatim>\<open>ftp_server\<close> and others) state documented behaviour of the system or of the
    other end of a connection and are shown satisfiable by the witnesses.

  \<^bold>\<open>INI files\<close>, \<^verbatim>\<open>iniparser-main/\<close>.
  \<^item> \<^verbatim>\<open>Dictionary\<close> (\<^verbatim>\<open>dictionary.c\<close>): the parallel arrays, hashing, growth, \<^verbatim>\<open>dictionary_set\<close>,
    \<^verbatim>\<open>_get\<close>, \<^verbatim>\<open>_unset\<close>, \<^verbatim>\<open>_dump\<close> with allocation failures. The arrays refine a finite map; this is the
    contract \<^verbatim>\<open>string_store\<close>, interpreted on the operations. Setting a key returns on every
    outcome of the allocator.
  \<^item> \<^verbatim>\<open>Iniparser\<close> (\<^verbatim>\<open>iniparser.c\<close>): every function; \<^verbatim>\<open>atof\<close> and \<^verbatim>\<open>fopen\<close> are parameters.
  \<^item> \<^verbatim>\<open>IniRoundtrip\<close>: loading never leaves the line buffers, whatever the file holds; what the
    dump of a dictionary wrote is loaded as the same entries.

  \<^bold>\<open>JSON\<close>, \<^verbatim>\<open>cJSON.c\<close> and \<^verbatim>\<open>build_json.c\<close>.
  \<^item> \<^verbatim>\<open>CJson\<close>: parser and printer on items; the arithmetic of \<^verbatim>\<open>double\<close> is a parameter. The recursion
    of the parser has fuel \<^verbatim>\<open>parse_fuel\<close>, three times the length of the text and three more; since
    every recursive call consumes a character or goes one level down in the grammar it never
    runs out, which is part of what \<^verbatim>\<open>CJsonRoundtrip\<close> proves. That theory shows that parsing is
    total, that printing stays inside the blocks it sized beforehand, and that printed text
    is read back as the item.
  \<^item> \<^verbatim>\<open>CJsonItems\<close>: creating, querying, copying items and \<^verbatim>\<open>cJSON_Minify\<close>, which turns the formatted
    text into the unformatted one.
  \<^item> \<^verbatim>\<open>CJsonBuffer\<close>: \<^verbatim>\<open>cJSON_PrintBuffered\<close> gives the text of \<^verbatim>\<open>cJSON_Print\<close> as long as the text is
    below \<^verbatim>\<open>LIMIT\<close> (two to the power 30), so that doubling the buffer does not overflow \<^verbatim>\<open>int\<close>.
  \<^item> \<^verbatim>\<open>CJsonHeap\<close>: the children as doubly linked chains in a heap. The chain implements a sequence
    (contract \<^verbatim>\<open>child_sequence\<close>), deleting frees each block once and nothing else;
    \<^verbatim>\<open>cJSON_ReplaceItemInArray\<close> and \<^verbatim>\<open>cJSON_DeleteItemFromArray\<close> on the same heap.
  \<^item> \<^verbatim>\<open>BuildJson\<close>: the nine builders; a message that fits is parsed back as its members.

  \<^bold>\<open>Image buffers\<close>, \<^verbatim>\<open>queue/queue.c\<close>. \<^verbatim>\<open>ImageQueue\<close>: the ring of five blocks and the threads that call
  it as a step relation; every critical section is one step and waiting splits it. No block is
  in two hands in any reachable state; a client in order sees a bounded FIFO (contract
  \<^verbatim>\<open>fifo_pool\<close>); a wake-up can be lost, and then a thread sleeps although a block is free.

  \<^bold>\<open>Checksums, ciphers and conversions.\<close>
  \<^item> \<^verbatim>\<open>Crc\<close> (\<^verbatim>\<open>crccheck/crc16.c\<close>): all parameter sets; an error inside one byte is detected (contract
    \<^verbatim>\<open>crc_register\<close>).
  \<^item> \<^verbatim>\<open>Sm4\<close> (\<^verbatim>\<open>encode_decode/sm4.c\<close>): the block function is the one of the standard on 32-bit words
    although the code computes in 64 bits; ECB and CBC are undone by decryption (contract
    \<^verbatim>\<open>block_cipher\<close>).
  \<^item> \<^verbatim>\<open>Sha256\<close> (\<^verbatim>\<open>encode_decode/sha256.c\<close>): with a shift that reduces its count, the compression is
    that of FIPS 180-4 but the digest words overwrite each other.
  \<^item> \<^verbatim>\<open>HexConv\<close> (\<^verbatim>\<open>data_format_convertion.c\<close>): the conversions and their round trips.

  \<^bold>\<open>Sound streams\<close>, \<^verbatim>\<open>sample/pcm.c\<close>. \<^verbatim>\<open>Pcm\<close> models every operation on an abstract driver; \<^verbatim>\<open>PcmRing\<close> shows
  the arithmetic of the free and filled frames across the wrap-around boundary and that a
  write through the mapped ring puts exactly the frames of the caller where the driver
  reads them.

  \<^bold>\<open>Network programs.\<close>
  \<^item> \<^verbatim>\<open>SelectServer\<close> (\<^verbatim>\<open>tcp_server.c\<close>, \<^verbatim>\<open>tcp_select.c\<close> and the loop of \<^verbatim>\<open>http_server/http_anlyse.c\<close>): the loop
    as a step function, its runs as an inductive relation. The contract \<^verbatim>\<open>select_service\<close> is
    what the loop needs of the way the socket is opened and of the handler of a client's bytes;
    inside it the table of clients is shown to hold only open descriptors, and it is
    interpreted on all three programs. Once a full table meets one more connection no client is served again.
  \<^item> \<^verbatim>\<open>HttpMessage\<close>, \<^verbatim>\<open>HttpRequest\<close>, \<^verbatim>\<open>HttpAnswer\<close> (\<^verbatim>\<open>http_server/http_anlyse.c\<close>): recognising and reading a
    request and the result file, building the answers, how much room they need.
  \<^item> \<^verbatim>\<open>HttpServer\<close>, \<^verbatim>\<open>HttpServed\<close>: the handler and its \<^verbatim>\<open>main\<close>. The variables keep their declared sizes
    in every run (\<^verbatim>\<open>typed_service\<close>, which extends \<^verbatim>\<open>select_service\<close>), work is done in the order
    acknowledge, fetch, analyse, put back, notify, and a request is served to the end when the
    commands it starts succeed.
  \<^item> \<^verbatim>\<open>HttpClient\<close> (\<^verbatim>\<open>http_client/http.c\<close>): its packets are what the server accepts.
  \<^item> \<^verbatim>\<open>FileTransfer\<close> (\<^verbatim>\<open>send_file.c\<close>, \<^verbatim>\<open>recv_file.c\<close>): the file arrives whole under any division into
    partial sends and receives; without a connection the sender does not end.
  \<^item> \<^verbatim>\<open>Ftps\<close>, \<^verbatim>\<open>FtpsTransfer\<close>, \<^verbatim>\<open>FtpsFiles\<close> (\<^verbatim>\<open>ftps/ftps_client.c\<close>): the client; the order of its commands, its
    sockets closed at the end, whole downloads and uploads from a server that follows the
    protocol, and how bytes of an uninitialised array enter a port number.
  \<^item> \<^verbatim>\<open>FtpClient\<close> (\<^verbatim>\<open>ftp_client.c\<close>): the Windows client; a response that fills its array is
    terminated one byte behind it, and the sockets are closed.

  \<^bold>\<open>Unbounded loops.\<close> The loops of the network programs and of the sound library are partial
  functions of the option type: a claim that they return is proved as an equation with
  \<^const>\<open>Some\<close>, never as a property of the results only. Memory that a program reads before it
  writes is a parameter (\<^verbatim>\<open>junk\<close>, \<^verbatim>\<open>fresh\<close>), quantified over in the theorems.

  \<^bold>\<open>Not modelled.\<close>
  \<^item> \<^verbatim>\<open>tcp_client.c\<close>, \<^verbatim>\<open>tcp_socket.c\<close>: connection samples without logic of their own; \<^verbatim>\<open>tcp_socket.c\<close> does
    not declare what it uses. \<^verbatim>\<open>parse.c\<close> is a note of statements outside any function;
    \<^verbatim>\<open>kernel_read.c\<close> wraps two functions of the kernel; \<^verbatim>\<open>jpg_2_rgb/jpg_to_rgb.c\<close> and the
    \<^verbatim>\<open>ffmpeg_alsa\<close> samples pass data between an image or sound library and a file.
  \<^item> \<^verbatim>\<open>ffmpeg_sample/\<close> holds copies of the files of \<^verbatim>\<open>sample/\<close>; \<^verbatim>\<open>linux/test/\<close> copies of \<^verbatim>\<open>test/\<close>, which
    are tutorial programs of system interfaces.
  \<^item> Messages for the terminal and the queries for their texts. The programs that the HTTP server
    starts by \<^verbatim>\<open>popen\<close>, OpenSSL, the resolver, the sound driver and floating-point arithmetic
    are parameters.
\<close>

end
